(* ===== verification/Prelude.thy ===== *)
theory Prelude
  imports Main "HOL-Library.Word" "HOL-Library.AList" "HOL-Library.Code_Target_Nat"
begin

text \<open>
  What every component shares: the names of the model's basic types, Go's fixed-width integer
  arithmetic written out on \<open>int\<close>, the little-endian codecs of \<open>encoding/binary\<close>,
  the binary search of \<open>sort.Search\<close>, and the generic lemmas on lists and association
  lists. A Go string or byte slice is a list of bytes, a Go map an association list with
  distinct keys, whose order stands for the unspecified iteration order of the map.
\<close>

section \<open>Collections of facts\<close>

named_theorems go_int "facts that remove the wrap-around of integers that fit"
named_theorems lookup_simps "what a lookup returns after an update"

section \<open>Types\<close>

type_synonym byte = "8 word"
type_synonym gostring = "byte list"

section \<open>Fixed-width integers\<close>

text \<open>Go's conversion to, and arithmetic in, \<open>int64\<close> and \<open>int32\<close>: two's complement.\<close>

definition i64 :: "int \<Rightarrow> int" where
  "i64 x = (x + 2 ^ 63) mod 2 ^ 64 - 2 ^ 63"

definition i32 :: "int \<Rightarrow> int" where
  "i32 x = (x + 2 ^ 31) mod 2 ^ 32 - 2 ^ 31"

lemma i64_fits [go_int]: "- (2 ^ 63) \<le> x \<Longrightarrow> x < 2 ^ 63 \<Longrightarrow> i64 x = x"
  by (simp add: i64_def)

lemma i32_fits [go_int]: "- (2 ^ 31) \<le> x \<Longrightarrow> x < 2 ^ 31 \<Longrightarrow> i32 x = x"
  by (simp add: i32_def)

lemma i64_range: "- (2 ^ 63) \<le> i64 x \<and> i64 x < 2 ^ 63"
  using pos_mod_bound[of "2 ^ 64 :: int" "x + 2 ^ 63"]
  by (simp add: i64_def)

lemma i64_mod: "i64 x mod 2 ^ 64 = x mod 2 ^ 64"
  unfolding i64_def by (metis add_diff_cancel_right' mod_diff_left_eq)

lemma i64_cong: "x mod 2 ^ 64 = y mod 2 ^ 64 \<Longrightarrow> i64 x = i64 y"
  unfolding i64_def by (metis mod_add_left_eq)

section \<open>Little-endian integers\<close>

text \<open>\<open>binary.LittleEndian.PutUint16/32/64\<close> and their readers, for any number of bytes.\<close>

fun le_bytes :: "nat \<Rightarrow> nat \<Rightarrow> byte list" where
  "le_bytes 0 x = []"
| "le_bytes (Suc n) x = of_nat (x mod 256) # le_bytes n (x div 256)"

fun le_nat :: "byte list \<Rightarrow> nat" where
  "le_nat [] = 0"
| "le_nat (b # bs) = unat b + 256 * le_nat bs"

lemma length_le_bytes [simp]: "length (le_bytes n x) = n"
  by (induction n arbitrary: x) auto

lemma unat_of_nat_byte: "unat (of_nat (x mod 256) :: byte) = x mod 256"
  by (simp add: unat_of_nat)

lemma le_nat_le_bytes: "le_nat (le_bytes n x) = x mod 256 ^ n"
proof (induction n arbitrary: x)
  case 0
  show ?case by simp
next
  case (Suc n)
  have "le_nat (le_bytes (Suc n) x) = x mod 256 + 256 * (x div 256 mod 256 ^ n)"
    using Suc by (simp add: unat_of_nat_byte)
  also have "\<dots> = x mod (256 * 256 ^ n)"
    by (simp add: mod_mult2_eq)
  finally show ?case by simp
qed

lemma le_nat_bound: "le_nat bs < 256 ^ length bs"
proof (induction bs)
  case Nil
  show ?case by simp
next
  case (Cons b bs)
  have "unat b < 256" using unsigned_less[of b] by simp
  with Cons show ?case by (simp add: algebra_simps)
qed

text \<open>Two's complement of a signed 64-bit value, and back.\<close>

definition u64_of :: "int \<Rightarrow> nat" where
  "u64_of x = nat (x mod 2 ^ 64)"

lemma u64_of_bound: "u64_of x < 2 ^ 64"
proof -
  have "x mod 2 ^ 64 < 2 ^ 64" by (rule pos_mod_bound) simp
  then show ?thesis unfolding u64_of_def by (simp add: nat_less_iff)
qed

lemma i64_u64_of: "i64 (int (u64_of x)) = i64 x"
  by (rule i64_cong) (simp add: u64_of_def)

section \<open>Binary search\<close>

text \<open>The loop of the standard library's \<open>sort.Search\<close>: the least index where \<open>f\<close> holds.\<close>

function sort_Search_loop :: "(nat \<Rightarrow> bool) \<Rightarrow> nat \<Rightarrow> nat \<Rightarrow> nat" where
  "sort_Search_loop f i j =
     (if i < j then
        let h = (i + j) div 2
        in if \<not> f h then sort_Search_loop f (h + 1) j else sort_Search_loop f i h
      else i)"
  by pat_completeness auto
termination
  by (relation "measure (\<lambda>(f, i, j). j - i)") auto

declare sort_Search_loop.simps [simp del]

definition sort_Search :: "nat \<Rightarrow> (nat \<Rightarrow> bool) \<Rightarrow> nat" where
  "sort_Search n f = sort_Search_loop f 0 n"

definition upward :: "nat \<Rightarrow> (nat \<Rightarrow> bool) \<Rightarrow> bool" where
  "upward n f \<longleftrightarrow> (\<forall>b < n. \<forall>a \<le> b. f a \<longrightarrow> f b)"

lemma upwardD: "upward n f \<Longrightarrow> a \<le> b \<Longrightarrow> b < n \<Longrightarrow> f a \<Longrightarrow> f b"
  by (auto simp: upward_def)

lemma sort_Search_loop_spec:
  assumes "upward n f" and "i \<le> j" and "j \<le> n"
    and "\<forall>k < i. \<not> f k" and "\<forall>k. j \<le> k \<and> k < n \<longrightarrow> f k"
  shows "sort_Search_loop f i j \<le> j
    \<and> (\<forall>k < sort_Search_loop f i j. \<not> f k)
    \<and> (\<forall>k. sort_Search_loop f i j \<le> k \<and> k < n \<longrightarrow> f k)"
  using assms
proof (induction f i j rule: sort_Search_loop.induct)
  case (1 f i j)
  note up = "1.prems"(1)
  show ?case
  proof (cases "i < j")
    case False
    then have "i = j" using "1.prems" by simp
    then show ?thesis using "1.prems"
      by (simp add: sort_Search_loop.simps [of f j j])
  next
    case True
    define h where "h = (i + j) div 2"
    have h: "i \<le> h" "h < j" using True by (auto simp: h_def)
    show ?thesis
    proof (cases "f h")
      case fh: True
      have above: "\<forall>k. h \<le> k \<and> k < n \<longrightarrow> f k"
        using upwardD[OF up _ _ fh] by blast
      have nn: "\<not> \<not> f h" and hn: "h \<le> n" using fh h "1.prems"(3) by simp_all
      have "sort_Search_loop f i h \<le> h
        \<and> (\<forall>k < sort_Search_loop f i h. \<not> f k)
        \<and> (\<forall>k. sort_Search_loop f i h \<le> k \<and> k < n \<longrightarrow> f k)"
        by (rule "1.IH"(2)[OF True h_def nn up h(1) hn "1.prems"(4) above])
      then show ?thesis using True fh h
        by (auto simp: sort_Search_loop.simps [of f i j] Let_def h_def)
    next
      case fh: False
      have below: "\<forall>k < h + 1. \<not> f k"
      proof (intro allI impI notI)
        fix k assume "k < h + 1" and "f k"
        then have "f h" using upwardD[OF up, of k h] h "1.prems"(3) by simp
        with fh show False by simp
      qed
      have hj: "h + 1 \<le> j" using h by simp
      have "sort_Search_loop f (h + 1) j \<le> j
        \<and> (\<forall>k < sort_Search_loop f (h + 1) j. \<not> f k)
        \<and> (\<forall>k. sort_Search_loop f (h + 1) j \<le> k \<and> k < n \<longrightarrow> f k)"
        by (rule "1.IH"(1)[OF True h_def fh up hj "1.prems"(3) below "1.prems"(5)])
      then show ?thesis using True fh h
        by (auto simp: sort_Search_loop.simps [of f i j] Let_def h_def)
    qed
  qed
qed

lemma sort_Search_spec:
  assumes "upward n f"
  shows sort_Search_le: "sort_Search n f \<le> n"
    and sort_Search_below: "k < sort_Search n f \<Longrightarrow> \<not> f k"
    and sort_Search_above: "sort_Search n f \<le> k \<Longrightarrow> k < n \<Longrightarrow> f k"
proof -
  have "\<forall>k < 0. \<not> f k" and "\<forall>k. n \<le> k \<and> k < n \<longrightarrow> f k" by auto
  from sort_Search_loop_spec[OF assms _ _ this]
  have *: "sort_Search n f \<le> n
    \<and> (\<forall>k < sort_Search n f. \<not> f k)
    \<and> (\<forall>k. sort_Search n f \<le> k \<and> k < n \<longrightarrow> f k)"
    unfolding sort_Search_def by blast
  show "sort_Search n f \<le> n" using * by blast
  show "k < sort_Search n f \<Longrightarrow> \<not> f k" using * by blast
  show "sort_Search n f \<le> k \<Longrightarrow> k < n \<Longrightarrow> f k" using * by blast
qed

section \<open>Lists\<close>

lemma take_drop_nth: "i < length xs \<Longrightarrow> xs = take i xs @ xs ! i # drop (Suc i) xs"
  by (rule id_take_nth_drop)

lemma take_append_exact [simp]: "n = length xs \<Longrightarrow> take n (xs @ ys) = xs"
  by simp

lemma drop_append_exact [simp]: "n = length xs \<Longrightarrow> drop n (xs @ ys) = ys"
  by simp

lemma take_length_snoc:
  assumes "take (Suc (length xs)) zs = xs @ [x]"
  shows "take (length xs) zs = xs"
proof -
  have "take (length xs) zs = take (length xs) (take (Suc (length xs)) zs)"
    by (simp add: min_def)
  also have "\<dots> = xs" by (simp add: assms)
  finally show ?thesis .
qed

lemma take_drop_append: "j + k \<le> length xs \<Longrightarrow> take k (drop j (xs @ ys)) = take k (drop j xs)"
  by simp

lemma take_drop_take: "j + k \<le> m \<Longrightarrow> take k (drop j (take m xs)) = take k (drop j xs)"
  by (simp add: drop_take min_absorb1)

end
