(* ===== verification/Append_Log.thy ===== *)
theory Append_Log
  imports Prelude
begin

unbundle bit_operations_syntax

text \<open>
  The append-only log of \<open>pkg/storage/hybrid/log.go\<close>: the file format, \<open>Append\<close>, the
  record reader and \<open>Iterate\<close>, over a model of the files they touch. A file is a list of bytes;
  \<open>ReadAt\<close> reports \<open>io.EOF\<close> when fewer bytes are there than asked for, as \<open>os.File\<close>
  does; a write that would pass the largest file size the system allows stops there and fails, with
  the bytes that fit already in the file.
\<close>

section \<open>Files and errors\<close>

datatype store_error =
    ErrStoreClosed
  | ErrCompactionInProgress
  | EOF
  | OpenFailed gostring
  | WriteFailed
  | SyncFailed
  | DataPathRequired
  | InvalidMagic "byte list"
  | UnsupportedVersion nat
  | InvalidKeyLength nat
  | KeyNotFound gostring
  | CallbackFailed
  | GoPanic
  | FailedTo string store_error

record filesys =
  files :: "gostring \<rightharpoonup> byte list"
  fs_limit :: nat
  fs_open :: "gostring \<Rightarrow> bool"
  fs_sync :: bool
  fs_remove :: bool
  fs_rename :: bool

definition read_at :: "byte list \<Rightarrow> nat \<Rightarrow> nat \<Rightarrow> store_error + byte list" where
  "read_at f pos n =
     (if n = 0 then Inr []
      else if pos + n \<le> length f then Inr (take n (drop pos f)) else Inl EOF)"

text \<open>A \<open>pwrite\<close>: overwrites, extends, and fills a gap with zeros; nothing for no bytes.\<close>

definition put_bytes :: "byte list \<Rightarrow> nat \<Rightarrow> byte list \<Rightarrow> byte list" where
  "put_bytes f pos buf =
     (if buf = [] then f
      else take pos f @ replicate (pos - length f) 0 @ buf @ drop (pos + length buf) f)"

definition contents :: "filesys \<Rightarrow> gostring \<Rightarrow> byte list" where
  "contents fs path = (case files fs path of None \<Rightarrow> [] | Some f \<Rightarrow> f)"

lemma contents_update [simp]: "contents (fs\<lparr>files := (files fs)(p \<mapsto> f)\<rparr>) p = f"
  by (simp add: contents_def)

definition write_at :: "filesys \<Rightarrow> gostring \<Rightarrow> nat \<Rightarrow> byte list \<Rightarrow> store_error option \<times> filesys" where
  "write_at fs path pos buf =
     (if pos + length buf \<le> fs_limit fs
      then (None, fs\<lparr>files := (files fs)(path \<mapsto> put_bytes (contents fs path) pos buf)\<rparr>)
      else (Some WriteFailed,
            fs\<lparr>files := (files fs)(path \<mapsto>
                 put_bytes (contents fs path) pos (take (fs_limit fs - pos) buf))\<rparr>))"

text \<open>Sequencing of calls that return a value or an error.\<close>

definition bindE :: "'e + 'a \<Rightarrow> ('a \<Rightarrow> 'e + 'b) \<Rightarrow> 'e + 'b" where
  "bindE m f = (case m of Inl e \<Rightarrow> Inl e | Inr x \<Rightarrow> f x)"

declare bindE_def [code_unfold]

lemma bindE_simps [simp]: "bindE (Inl e) f = Inl e" "bindE (Inr x) f = f x"
  by (simp_all add: bindE_def)

lemma bindE_Inr: "bindE m f = Inr y \<longleftrightarrow> (\<exists>x. m = Inr x \<and> f x = Inr y)"
  by (cases m) auto

section \<open>Format\<close>

definition logMagic :: "byte list" where
  "logMagic = [72, 89, 66, 82]"

definition logVersion :: nat where
  "logVersion = 3"

definition logHeaderSize :: nat where
  "logHeaderSize = 16"

record LogRecord =
  recKey :: gostring
  recOffset :: nat
  recSize :: int
  recDeleted :: bool
  recCategory :: gostring
  recProvider :: gostring
  recStatus :: gostring
  recName :: gostring
  recTotalSize :: int
  recProtocol :: gostring
  recBad :: bool
  recAddedOn :: int

record appendLog =
  l_path :: gostring
  l_file :: gostring
  l_writePos :: nat
  l_version :: nat

definition header_bytes :: "byte list" where
  "header_bytes = logMagic @ le_bytes 4 logVersion @ replicate 8 0"

definition writeHeader :: "filesys \<Rightarrow> gostring \<Rightarrow> store_error option \<times> filesys" where
  "writeHeader fs path = write_at fs path 0 header_bytes"

definition validateHeader :: "byte list \<Rightarrow> store_error + nat" where
  "validateHeader f =
     (case read_at f 0 logHeaderSize of
        Inl e \<Rightarrow> Inl (FailedTo ''read header'' e)
      | Inr header \<Rightarrow>
          if take 4 header \<noteq> logMagic then Inl (InvalidMagic (take 4 header))
          else let version = le_nat (take 4 (drop 4 header))
               in if version > logVersion then Inl (UnsupportedVersion version)
                  else Inr version)"

definition openAppendLog :: "filesys \<Rightarrow> gostring \<Rightarrow> (store_error + appendLog) \<times> filesys" where
  "openAppendLog fs path =
     (if \<not> fs_open fs path then (Inl (OpenFailed path), fs)
      else let fs1 = fs\<lparr>files := (files fs)(path \<mapsto> contents fs path)\<rparr>;
               f = contents fs path
           in if length f = 0
              then (case writeHeader fs1 path of
                      (Some e, fs2) \<Rightarrow> (Inl e, fs2)
                    | (None, fs2) \<Rightarrow>
                        (Inr \<lparr>l_path = path, l_file = path, l_writePos = logHeaderSize, l_version = logVersion\<rparr>, fs2))
              else (case validateHeader f of
                      Inl e \<Rightarrow> (Inl e, fs1)
                    | Inr version \<Rightarrow>
                        (Inr \<lparr>l_path = path, l_file = path, l_writePos = length f, l_version = version\<rparr>, fs1)))"

definition createAppendLog :: "filesys \<Rightarrow> gostring \<Rightarrow> (store_error + appendLog) \<times> filesys" where
  "createAppendLog fs path =
     (if \<not> fs_open fs path then (Inl (OpenFailed path), fs)
      else (case writeHeader (fs\<lparr>files := (files fs)(path \<mapsto> [])\<rparr>) path of
              (Some e, fs2) \<Rightarrow> (Inl e, fs2)
            | (None, fs2) \<Rightarrow>
                (Inr \<lparr>l_path = path, l_file = path, l_writePos = logHeaderSize, l_version = logVersion\<rparr>, fs2)))"

section \<open>Appending\<close>

text \<open>A string with its 16-bit length in front; a longer string keeps all its bytes but the low 16
  bits of its length only, as the Go code writes it.\<close>

definition put_str16 :: "gostring \<Rightarrow> byte list" where
  "put_str16 s = le_bytes 2 (length s) @ s"

definition flag_byte :: "bool \<Rightarrow> bool \<Rightarrow> byte" where
  "flag_byte deleted bad =
     (let flags = (0 :: byte);
          flags = (if deleted then flags OR 1 else flags)
      in if bad then flags OR 2 else flags)"

definition encode_record ::
  "gostring \<Rightarrow> byte list \<Rightarrow> bool \<Rightarrow> gostring \<Rightarrow> gostring \<Rightarrow> gostring \<Rightarrow> gostring \<Rightarrow> int \<Rightarrow> gostring \<Rightarrow> bool \<Rightarrow> int \<Rightarrow> byte list" where
  "encode_record key val deleted category provider status name totalSize protocol bad addedOn =
     le_bytes 4 (length key) @ key
     @ le_bytes 4 (length val) @ val
     @ [flag_byte deleted bad]
     @ put_str16 category @ put_str16 provider @ put_str16 status @ put_str16 name
     @ le_bytes 8 (u64_of totalSize)
     @ put_str16 protocol
     @ le_bytes 8 (u64_of addedOn)"

definition log_Append ::
  "filesys \<Rightarrow> appendLog \<Rightarrow> gostring \<Rightarrow> byte list \<Rightarrow> bool \<Rightarrow> gostring \<Rightarrow> gostring \<Rightarrow> gostring \<Rightarrow> gostring \<Rightarrow> int \<Rightarrow> gostring \<Rightarrow> bool \<Rightarrow> int
     \<Rightarrow> (store_error + nat \<times> int) \<times> filesys \<times> appendLog" where
  "log_Append fs l key val deleted category provider status name totalSize protocol bad addedOn =
     (let buf = encode_record key val deleted category provider status name totalSize protocol bad addedOn;
          valueOffset = l_writePos l + (4 + length key + 4)
      in case write_at fs (l_file l) (l_writePos l) buf of
           (Some e, fs') \<Rightarrow> (Inl e, fs', l)
         | (None, fs') \<Rightarrow>
             (Inr (valueOffset, i32 (int (length val))), fs',
              l\<lparr>l_writePos := l_writePos l + length buf\<rparr>))"

text \<open>\<open>make([]byte, size)\<close> panics for a negative size.\<close>

definition log_ReadAt :: "filesys \<Rightarrow> appendLog \<Rightarrow> nat \<Rightarrow> int \<Rightarrow> store_error + byte list" where
  "log_ReadAt fs l offset n =
     (if n < 0 then Inl GoPanic else read_at (contents fs (l_file l)) offset (nat n))"

section \<open>Reading records\<close>

text \<open>The block that reads a 16-bit length and that many bytes: the string and the next position.\<close>

definition read_str16 :: "byte list \<Rightarrow> nat \<Rightarrow> store_error + gostring \<times> nat" where
  "read_str16 f pos =
     bindE (read_at f pos 2) (\<lambda>lenBuf2.
       let n = le_nat lenBuf2
       in if n > 0
          then bindE (read_at f (pos + 2) n) (\<lambda>s. Inr (s, pos + 2 + n))
          else Inr ([], pos + 2))"

definition read_v3_fields :: "byte list \<Rightarrow> nat \<Rightarrow> nat \<Rightarrow> store_error + gostring \<times> int \<times> nat" where
  "read_v3_fields f version pos =
     (if version \<ge> 3 then
        bindE (read_str16 f pos) (\<lambda>(protocol, pos).
        bindE (read_at f pos 8) (\<lambda>sizeBuf.
          Inr (protocol, i64 (int (le_nat sizeBuf)), pos + 8)))
      else Inr ([], 0, pos))"

definition readRecordAt :: "byte list \<Rightarrow> nat \<Rightarrow> nat \<Rightarrow> store_error + LogRecord \<times> nat" where
  "readRecordAt f version pos =
     bindE (read_at f pos 4) (\<lambda>lenBuf.
     let keyLen = le_nat lenBuf
     in if keyLen > 1024 * 1024 then Inl (InvalidKeyLength keyLen)
        else
          bindE (read_at f (pos + 4) keyLen) (\<lambda>keyBuf.
          bindE (read_at f (pos + 4 + keyLen) 4) (\<lambda>lenBuf.
          let valueLen = le_nat lenBuf;
              valueOffset = pos + 4 + keyLen + 4;
              curPos = valueOffset + valueLen
          in
          bindE (read_at f curPos 1) (\<lambda>flagBuf.
          let deleted = (hd flagBuf AND 1 \<noteq> 0);
              bad = (version \<ge> 3 \<and> hd flagBuf AND 2 \<noteq> 0)
          in
          bindE (read_str16 f (curPos + 1)) (\<lambda>(cat, curPos).
          bindE (read_str16 f curPos) (\<lambda>(prov, curPos).
          bindE (read_str16 f curPos) (\<lambda>(status, curPos).
          bindE (read_str16 f curPos) (\<lambda>(name, curPos).
          bindE (read_at f curPos 8) (\<lambda>sizeBuf.
          bindE (read_v3_fields f version (curPos + 8)) (\<lambda>(protocol, addedOn, curPos).
            Inr (\<lparr>recKey = keyBuf, recOffset = valueOffset, recSize = i32 (int valueLen),
                  recDeleted = deleted, recCategory = cat, recProvider = prov,
                  recStatus = status, recName = name,
                  recTotalSize = i64 (int (le_nat sizeBuf)),
                  recProtocol = protocol, recBad = bad, recAddedOn = addedOn\<rparr>, curPos)))))))))))"

lemma read_str16_advances: "read_str16 f pos = Inr (s, q) \<Longrightarrow> pos < q"
  by (auto simp: read_str16_def bindE_Inr Let_def split: if_splits)

lemma read_v3_advances: "read_v3_fields f v pos = Inr (p, a, q) \<Longrightarrow> pos \<le> q"
  by (auto simp: read_v3_fields_def bindE_Inr split: if_splits dest!: read_str16_advances)

lemma readRecordAt_advances: "readRecordAt f v pos = Inr (r, q) \<Longrightarrow> pos < q"
  by (auto simp: readRecordAt_def bindE_Inr Let_def split: if_splits
      dest!: read_str16_advances read_v3_advances)

text \<open>
  \<open>Iterate\<close>: the callback threads a state. \<open>io.EOF\<close> from the record reader ends the loop
  without an error, any other error is returned.
\<close>

function Iterate_loop ::
  "byte list \<Rightarrow> nat \<Rightarrow> nat \<Rightarrow> (LogRecord \<Rightarrow> 's \<Rightarrow> store_error option \<times> 's) \<Rightarrow> nat \<Rightarrow> 's \<Rightarrow> store_error option \<times> 's" where
  "Iterate_loop f version fileSize fn pos s =
     (if pos < fileSize then
        (case readRecordAt f version pos of
           Inl e \<Rightarrow> (if e = EOF then (None, s) else (Some e, s))
         | Inr (record, nextPos) \<Rightarrow>
             (case fn record s of
                (Some e, s') \<Rightarrow> (Some e, s')
              | (None, s') \<Rightarrow> Iterate_loop f version fileSize fn nextPos s'))
      else (None, s))"
  by pat_completeness auto
termination
  by (relation "measure (\<lambda>(f, version, fileSize, fn, pos, s). fileSize - pos)")
    (auto dest: readRecordAt_advances)

declare Iterate_loop.simps [simp del]

definition log_Iterate ::
  "filesys \<Rightarrow> appendLog \<Rightarrow> (LogRecord \<Rightarrow> 's \<Rightarrow> store_error option \<times> 's) \<Rightarrow> 's \<Rightarrow> store_error option \<times> 's" where
  "log_Iterate fs l fn s =
     Iterate_loop (contents fs (l_file l)) (l_version l) (l_writePos l) fn logHeaderSize s"

definition log_Sync :: "filesys \<Rightarrow> store_error option" where
  "log_Sync fs = (if fs_sync fs then None else Some SyncFailed)"

definition log_Size :: "appendLog \<Rightarrow> nat" where
  "log_Size l = l_writePos l"

definition log_Truncate :: "filesys \<Rightarrow> appendLog \<Rightarrow> nat \<Rightarrow> store_error option \<times> filesys \<times> appendLog" where
  "log_Truncate fs l pos =
     (if pos > fs_limit fs then (Some WriteFailed, fs, l)
      else (None,
            fs\<lparr>files := (files fs)(l_file l \<mapsto>
                 take pos (contents fs (l_file l)) @ replicate (pos - length (contents fs (l_file l))) 0)\<rparr>,
            l\<lparr>l_writePos := pos\<rparr>))"

section \<open>Reading back what was written\<close>

text \<open>\<open>f\<close> continues with \<open>s\<close> at position \<open>pos\<close>.\<close>

definition at :: "byte list \<Rightarrow> nat \<Rightarrow> byte list \<Rightarrow> bool" where
  "at f pos s \<longleftrightarrow> pos \<le> length f \<and> drop pos f = s"

lemma at_append: "at (pre @ s) (length pre) s"
  by (simp add: at_def)

lemma at_read:
  assumes "at f pos (x @ s)" and "length x = n"
  shows "read_at f pos n = Inr x" and "at f (pos + n) s"
proof -
  have d: "drop pos f = x @ s" "pos \<le> length f" using assms(1) by (simp_all add: at_def)
  then have "length f = pos + length (x @ s)"
    by (metis length_drop le_add_diff_inverse)
  then have "pos + n \<le> length f" using assms(2) by simp
  with d assms(2) show "read_at f pos n = Inr x" by (auto simp: read_at_def)
  have "drop (pos + n) f = drop n (drop pos f)" by (simp add: add.commute)
  with d assms(2) \<open>pos + n \<le> length f\<close> show "at f (pos + n) s" by (simp add: at_def)
qed

lemma at_str16:
  assumes "at f pos (put_str16 str @ s)" and "length str < 2 ^ 16"
  shows "read_str16 f pos = Inr (str, pos + 2 + length str)" and "at f (pos + 2 + length str) s"
proof -
  have "at f pos (le_bytes 2 (length str) @ (str @ s))" using assms(1) by (simp add: put_str16_def)
  from at_read[OF this, of 2] have r: "read_at f pos 2 = Inr (le_bytes 2 (length str))"
    and a: "at f (pos + 2) (str @ s)" by simp_all
  have n: "le_nat (le_bytes 2 (length str)) = length str"
    using assms(2) by (simp add: le_nat_le_bytes)
  from at_read[OF a refl] r n show "read_str16 f pos = Inr (str, pos + 2 + length str)"
    and "at f (pos + 2 + length str) s"
    by (auto simp: read_str16_def Let_def)
qed

lemma flag_byte_bits: "(flag_byte d b AND 1 \<noteq> 0) = d" "(flag_byte d b AND 2 \<noteq> 0) = b"
  by (cases d; cases b; simp add: flag_byte_def)+

definition fits64 :: "int \<Rightarrow> bool" where
  "fits64 x \<longleftrightarrow> - (2 ^ 63) \<le> x \<and> x < 2 ^ 63"

lemma at_int64:
  assumes "at f pos (le_bytes 8 (u64_of x) @ s)" and "fits64 x"
  shows "read_at f pos 8 = Inr (le_bytes 8 (u64_of x))" and "at f (pos + 8) s"
    and "i64 (int (le_nat (le_bytes 8 (u64_of x)))) = x"
proof -
  from at_read[OF assms(1), of 8]
  show "read_at f pos 8 = Inr (le_bytes 8 (u64_of x))" "at f (pos + 8) s" by simp_all
  have "le_nat (le_bytes 8 (u64_of x)) = u64_of x"
    using u64_of_bound[of x] by (simp add: le_nat_le_bytes)
  then show "i64 (int (le_nat (le_bytes 8 (u64_of x)))) = x"
    using assms(2) by (simp add: i64_u64_of i64_fits fits64_def)
qed

text \<open>The values that the format's length fields and the reader's limit can represent.\<close>

definition record_fits ::
  "gostring \<Rightarrow> byte list \<Rightarrow> gostring \<Rightarrow> gostring \<Rightarrow> gostring \<Rightarrow> gostring \<Rightarrow> int \<Rightarrow> gostring \<Rightarrow> int \<Rightarrow> bool" where
  "record_fits key val category provider status name totalSize protocol addedOn \<longleftrightarrow>
     length key \<le> 1024 * 1024 \<and> length val < 2 ^ 31
     \<and> length category < 2 ^ 16 \<and> length provider < 2 ^ 16 \<and> length status < 2 ^ 16
     \<and> length name < 2 ^ 16 \<and> length protocol < 2 ^ 16
     \<and> fits64 totalSize \<and> fits64 addedOn"

lemma read_v3_at:
  assumes "at f pos (put_str16 protocol @ le_bytes 8 (u64_of addedOn) @ s)"
    and "length protocol < 2 ^ 16" and "fits64 addedOn"
  shows "read_v3_fields f 3 pos = Inr (protocol, addedOn, pos + 2 + length protocol + 8)"
    and "at f (pos + 2 + length protocol + 8) s"
  using at_str16[OF assms(1,2)] at_int64[OF at_str16(2)[OF assms(1,2)] assms(3)]
  by (simp_all add: read_v3_fields_def)

lemma readRecordAt_encode:
  assumes fits: "record_fits key val cat prov st name ts proto added"
    and f: "at f pos (encode_record key val del cat prov st name ts proto bad added @ s)"
  shows "readRecordAt f 3 pos =
      Inr (\<lparr>recKey = key, recOffset = pos + (4 + length key + 4), recSize = int (length val),
            recDeleted = del, recCategory = cat, recProvider = prov, recStatus = st, recName = name,
            recTotalSize = ts, recProtocol = proto, recBad = bad, recAddedOn = added\<rparr>,
           pos + length (encode_record key val del cat prov st name ts proto bad added))"
    and "at f (pos + (4 + length key + 4)) (val @ drop (4 + length key + 4 + length val)
           (encode_record key val del cat prov st name ts proto bad added @ s))"
proof -
  from fits have key: "\<not> 1024 * 1024 < length key" and val: "length val < 2 ^ 31"
    and cat: "length cat < 2 ^ 16" and prov: "length prov < 2 ^ 16" and st: "length st < 2 ^ 16"
    and name: "length name < 2 ^ 16" and proto: "length proto < 2 ^ 16"
    and ts: "fits64 ts" and added: "fits64 added"
    by (simp_all add: record_fits_def)
  note a0 = f[unfolded encode_record_def append_assoc]
  note a1 = at_read[OF a0 length_le_bytes]
  note a2 = at_read[OF a1(2) refl]
  note a3 = at_read[OF a2(2) length_le_bytes]
  note a4 = at_read[OF a3(2) refl]
  have one: "length [flag_byte del bad] = 1" by simp
  note a6 = at_read[OF a4(2) one]
  note a7 = at_str16[OF a6(2) cat] note a8 = at_str16[OF a7(2) prov]
  note a9 = at_str16[OF a8(2) st] note a10 = at_str16[OF a9(2) name]
  note a11 = at_int64[OF a10(2) ts] note a12 = read_v3_at[OF a11(2) proto added]
  have len: "length (encode_record key val del cat prov st name ts proto bad added) =
      4 + length key + 4 + length val + 1 + 2 + length cat + 2 + length prov + 2 + length st
      + 2 + length name + 8 + 2 + length proto + 8"
    by (simp add: encode_record_def put_str16_def)
  have n: "le_nat (le_bytes 4 (length key)) = length key" "le_nat (le_bytes 4 (length val)) = length val"
    "i32 (int (length val)) = int (length val)"
    using key val by (simp_all add: le_nat_le_bytes i32_fits)
  show "readRecordAt f 3 pos =
      Inr (\<lparr>recKey = key, recOffset = pos + (4 + length key + 4), recSize = int (length val),
            recDeleted = del, recCategory = cat, recProvider = prov, recStatus = st, recName = name,
            recTotalSize = ts, recProtocol = proto, recBad = bad, recAddedOn = added\<rparr>,
           pos + length (encode_record key val del cat prov st name ts proto bad added))"
    unfolding len readRecordAt_def Let_def a1(1) bindE_simps n if_not_P[OF key] a2(1) a3(1)
      a4(1) a6(1) list.sel a7(1) a8(1) a9(1) a10(1) a11(1,3) a12(1) prod.case flag_byte_bits
    by (simp add: add.assoc)
  show "at f (pos + (4 + length key + 4)) (val @ drop (4 + length key + 4 + length val)
           (encode_record key val del cat prov st name ts proto bad added @ s))"
    using a3(2) by (simp add: encode_record_def add.assoc)
qed

section \<open>Logs as lists of items\<close>

record EntryMeta =
  mCategory :: gostring
  mProvider :: gostring
  mStatus :: gostring
  mName :: gostring
  mTotalSize :: int
  mProtocol :: gostring
  mBad :: bool
  mAddedOn :: int

definition no_meta :: EntryMeta where
  "no_meta = \<lparr>mCategory = [], mProvider = [], mStatus = [], mName = [], mTotalSize = 0,
     mProtocol = [], mBad = False, mAddedOn = 0\<rparr>"

text \<open>
  What one record says: the key now has this value and metadata, or (a tombstone) none. The log
  stands for the list of its items, and the items for the map they build.
\<close>

type_synonym log_item = "gostring \<times> (byte list \<times> EntryMeta) option"

fun encode_item :: "log_item \<Rightarrow> byte list" where
  "encode_item (key, Some (v, m)) =
     encode_record key v False (mCategory m) (mProvider m) (mStatus m) (mName m) (mTotalSize m)
       (mProtocol m) (mBad m) (mAddedOn m)"
| "encode_item (key, None) = encode_record key [] True [] [] [] [] 0 [] False 0"

fun item_fits :: "log_item \<Rightarrow> bool" where
  "item_fits (key, Some (v, m)) =
     record_fits key v (mCategory m) (mProvider m) (mStatus m) (mName m) (mTotalSize m)
       (mProtocol m) (mAddedOn m)"
| "item_fits (key, None) = (length key \<le> 1024 * 1024)"

fun item_record :: "nat \<Rightarrow> log_item \<Rightarrow> LogRecord" where
  "item_record pos (key, Some (v, m)) =
     \<lparr>recKey = key, recOffset = pos + (4 + length key + 4), recSize = int (length v),
      recDeleted = False, recCategory = mCategory m, recProvider = mProvider m,
      recStatus = mStatus m, recName = mName m, recTotalSize = mTotalSize m,
      recProtocol = mProtocol m, recBad = mBad m, recAddedOn = mAddedOn m\<rparr>"
| "item_record pos (key, None) =
     \<lparr>recKey = key, recOffset = pos + (4 + length key + 4), recSize = 0, recDeleted = True,
      recCategory = [], recProvider = [], recStatus = [], recName = [], recTotalSize = 0,
      recProtocol = [], recBad = False, recAddedOn = 0\<rparr>"

fun located :: "nat \<Rightarrow> log_item list \<Rightarrow> LogRecord list" where
  "located pos [] = []"
| "located pos (x # xs) = item_record pos x # located (pos + length (encode_item x)) xs"

definition encode_items :: "log_item list \<Rightarrow> byte list" where
  "encode_items xs = concat (map encode_item xs)"

definition log_image :: "log_item list \<Rightarrow> byte list" where
  "log_image xs = header_bytes @ encode_items xs"

lemma encode_items_simps [simp]:
  "encode_items [] = []" "encode_items (x # xs) = encode_item x @ encode_items xs"
  "encode_items (xs @ ys) = encode_items xs @ encode_items ys"
  by (simp_all add: encode_items_def)

lemma length_header [simp]: "length header_bytes = logHeaderSize"
  by (simp add: header_bytes_def logMagic_def logHeaderSize_def)

lemma header_nonempty [simp]: "header_bytes \<noteq> []"
  using length_header by (simp add: logHeaderSize_def flip: length_0_conv)

lemma log_image_nonempty [simp]: "log_image xs \<noteq> []"
  by (simp add: log_image_def)

lemma located_append:
  "located pos (xs @ ys) = located pos xs @ located (pos + length (encode_items xs)) ys"
  by (induction xs arbitrary: pos) (simp_all add: add.assoc)

lemma encode_item_nonempty [simp]: "encode_item x \<noteq> []"
  by (cases x rule: encode_item.cases) (simp_all add: encode_record_def)

lemma read_item:
  assumes "item_fits x" "at f pos (encode_item x @ s)"
  shows "readRecordAt f 3 pos = Inr (item_record pos x, pos + length (encode_item x))"
proof (cases x rule: encode_item.cases)
  case (1 key v m)
  with assms show ?thesis by (simp add: readRecordAt_encode(1))
next
  case (2 key)
  have "record_fits key [] [] [] [] [] 0 [] 0"
    using assms(1) 2 by (simp add: record_fits_def fits64_def)
  from readRecordAt_encode(1)[OF this] assms(2) 2 show ?thesis by simp
qed

fun run_records ::
  "(LogRecord \<Rightarrow> 's \<Rightarrow> store_error option \<times> 's) \<Rightarrow> LogRecord list \<Rightarrow> 's \<Rightarrow> store_error option \<times> 's" where
  "run_records fn [] s = (None, s)"
| "run_records fn (r # rs) s =
     (case fn r s of (Some e, s') \<Rightarrow> (Some e, s') | (None, s') \<Rightarrow> run_records fn rs s')"

text \<open>Iterating over a log written record by record visits exactly its records, in order, and
  then goes on with what follows them.\<close>

lemma Iterate_encoded:
  assumes "at f pos (encode_items xs @ s)" "\<forall>x \<in> set xs. item_fits x"
    and "pos + length (encode_items xs) \<le> fsz"
  shows "Iterate_loop f 3 fsz fn pos st =
    (case run_records fn (located pos xs) st of
       (Some e, st') \<Rightarrow> (Some e, st')
     | (None, st') \<Rightarrow> Iterate_loop f 3 fsz fn (pos + length (encode_items xs)) st')"
  using assms
proof (induction xs arbitrary: pos st)
  case Nil
  then show ?case by simp
next
  case (Cons x xs)
  have a: "at f pos (encode_item x @ (encode_items xs @ s))" using Cons.prems(1) by simp
  note r = read_item[OF _ a] and a' = at_read(2)[OF a refl]
  have len: "pos + length (encode_item x) + length (encode_items xs) = pos + length (encode_items (x # xs))"
    by simp
  have IH: "Iterate_loop f 3 fsz fn (pos + length (encode_item x)) st' =
    (case run_records fn (located (pos + length (encode_item x)) xs) st' of
       (Some e, st'') \<Rightarrow> (Some e, st'')
     | (None, st'') \<Rightarrow> Iterate_loop f 3 fsz fn (pos + length (encode_items (x # xs))) st'')" for st'
    by (rule Cons.IH[OF a' _ , unfolded len, OF _ Cons.prems(3)]) (use Cons.prems(2) in simp)
  have fits: "item_fits x" using Cons.prems(2) by simp
  have "0 < length (encode_item x)" by simp
  moreover have "length (encode_item x) \<le> length (encode_items (x # xs))" by simp
  ultimately have lt: "pos < fsz" using Cons.prems(3) by linarith
  show ?case
    unfolding Iterate_loop.simps [of f 3 fsz fn pos st] if_P[OF lt] r[OF fits] sum.case prod.case
      located.simps run_records.simps
    by (simp only: IH split: prod.split option.split) simp
qed

section \<open>Torn records\<close>

text \<open>Reading a file of which only a prefix reached the disk gives what the whole file gives, or
  \<open>EOF\<close>.\<close>

definition eof_or :: "store_error + 'a \<Rightarrow> store_error + 'a \<Rightarrow> bool" where
  "eof_or a b \<longleftrightarrow> a = Inl EOF \<or> a = b"

lemma eof_or_refl: "eof_or a a"
  by (simp add: eof_or_def)

lemma eof_or_bind:
  assumes "eof_or a b" "\<And>x. eof_or (g x) (h x)"
  shows "eof_or (bindE a g) (bindE b h)"
proof (cases "a = b")
  case True
  with assms(2) show ?thesis by (cases b) (simp_all add: eof_or_refl)
next
  case False
  with assms(1) show ?thesis by (simp add: eof_or_def)
qed

lemma eof_or_case:
  "(\<And>a b. eof_or (g a b) (h a b)) \<Longrightarrow> eof_or (case p of (a, b) \<Rightarrow> g a b) (case p of (a, b) \<Rightarrow> h a b)"
  by (cases p) simp

lemma eof_or_if: "eof_or a b \<Longrightarrow> eof_or a' b' \<Longrightarrow> eof_or (if c then a else a') (if c then b else b')"
  by simp

lemmas eof_or_intros = eof_or_bind eof_or_case eof_or_if eof_or_refl

lemma eof_or_read: "eof_or (read_at (take n f) pos k) (read_at f pos k)"
proof (cases "k = 0 \<or> n < pos + k")
  case True
  then show ?thesis by (auto simp: eof_or_def read_at_def)
next
  case False
  then have "k \<le> n - pos" by linarith
  then have "take k (drop pos (take n f)) = take k (drop pos f)" by (simp add: drop_take min_absorb1)
  with False show ?thesis by (simp add: eof_or_def read_at_def)
qed

lemma eof_or_str16: "eof_or (read_str16 (take n f) pos) (read_str16 f pos)"
  unfolding read_str16_def Let_def by (intro eof_or_intros eof_or_read)

lemma eof_or_v3: "eof_or (read_v3_fields (take n f) v pos) (read_v3_fields f v pos)"
  unfolding read_v3_fields_def by (intro eof_or_intros eof_or_read eof_or_str16)

lemma eof_or_record: "eof_or (readRecordAt (take n f) v pos) (readRecordAt f v pos)"
  unfolding readRecordAt_def Let_def
  by (rule eof_or_read eof_or_str16 eof_or_v3 eof_or_refl eof_or_bind eof_or_case eof_or_if)+

lemma read_at_end: "read_at f pos n = Inr v \<Longrightarrow> 0 < n \<Longrightarrow> pos + n \<le> length f"
  by (simp add: read_at_def split: if_splits)

lemma read_v3_end: "read_v3_fields f v pos = Inr (p, a, q) \<Longrightarrow> pos \<le> length f \<Longrightarrow> q \<le> length f"
  by (auto simp: read_v3_fields_def bindE_Inr split: if_splits dest: read_at_end)

lemma readRecordAt_end: "readRecordAt f v pos = Inr (r, q) \<Longrightarrow> q \<le> length f"
  by (auto simp: readRecordAt_def bindE_Inr Let_def split: if_splits
      dest!: read_v3_end dest: read_at_end)

lemma read_torn:
  assumes "item_fits x" "at f pos (encode_item x @ s)" "n < pos + length (encode_item x)"
  shows "readRecordAt (take n f) 3 pos = Inl EOF"
proof (rule ccontr)
  assume "readRecordAt (take n f) 3 pos \<noteq> Inl EOF"
  with eof_or_record[of n f 3 pos] read_item[OF assms(1,2)]
  have "readRecordAt (take n f) 3 pos = Inr (item_record pos x, pos + length (encode_item x))"
    by (simp add: eof_or_def)
  from readRecordAt_end[OF this] assms(3) show False by simp
qed

text \<open>A record whose value runs past the end of the file reads as the end of the file, whatever bytes
  stand where the rest of the value should be.\<close>

lemma read_cut_value:
  assumes "at f pos (le_bytes 4 (length key) @ key @ le_bytes 4 (length val) @ t)"
    and "length key \<le> 1024 * 1024" "length val < 2 ^ 31"
    and "length f \<le> pos + (8 + length key + length val)"
  shows "readRecordAt f ver pos = Inl EOF"
proof -
  note a1 = at_read[OF assms(1) length_le_bytes]
  note a2 = at_read[OF a1(2) refl]
  note a3 = at_read[OF a2(2) length_le_bytes]
  have "le_nat (le_bytes 4 (length key)) = length key" using assms(2) by (simp add: le_nat_le_bytes)
  moreover have "le_nat (le_bytes 4 (length val)) = length val" using assms(3) by (simp add: le_nat_le_bytes)
  moreover have "read_at f (pos + 4 + length key + 4 + length val) 1 = Inl EOF"
    using assms(4) by (simp add: read_at_def)
  ultimately show ?thesis using assms(2) a1(1) a2(1) a3(1) by (simp add: readRecordAt_def Let_def)
qed

text \<open>Iterating a log behind whose whole records the reader finds the end of the file, or nothing.\<close>

lemma Iterate_eof:
  assumes "contents fs p = log_image xs @ t" "\<forall>y \<in> set xs. item_fits y"
    and eof: "t = [] \<or> readRecordAt (contents fs p) 3 (length (log_image xs)) = Inl EOF"
    and "l = \<lparr>l_path = p, l_file = p, l_writePos = length (contents fs p), l_version = 3\<rparr>"
  shows "log_Iterate fs l fn st = run_records fn (located logHeaderSize xs) st"
proof -
  let ?f = "contents fs p" and ?q = "length (log_image xs)"
  have "?f = header_bytes @ (encode_items xs @ t)" using assms(1) by (simp add: log_image_def)
  then have "at ?f logHeaderSize (encode_items xs @ t)" by (metis at_append length_header)
  moreover have q: "logHeaderSize + length (encode_items xs) = ?q" by (simp add: log_image_def)
  moreover have "?q \<le> length ?f" using assms(1) by simp
  ultimately have run: "log_Iterate fs l fn st =
      (case run_records fn (located logHeaderSize xs) st of
         (Some e, st') \<Rightarrow> (Some e, st')
       | (None, st') \<Rightarrow> Iterate_loop ?f 3 (length ?f) fn ?q st')"
    using Iterate_encoded[of ?f logHeaderSize xs _ "length ?f" fn st, unfolded q] assms(2,4)
    by (simp add: log_Iterate_def)
  have "Iterate_loop ?f 3 (length ?f) fn ?q st' = (None, st')" for st'
    using eof assms(1) by (subst Iterate_loop.simps) auto
  with run show ?thesis by (simp split: prod.split option.split)
qed

text \<open>A torn record at the end.\<close>

lemma torn_eof:
  assumes "f = log_image xs @ take n (encode_item x)" "item_fits x" "n < length (encode_item x)"
  shows "readRecordAt f 3 (length (log_image xs)) = Inl EOF"
proof -
  let ?g = "log_image xs @ encode_item x" and ?q = "length (log_image xs)"
  have f: "f = take (?q + n) ?g" using assms(1) by simp
  have "at ?g ?q (encode_item x @ [])" using at_append[of "log_image xs"] by simp
  from read_torn[OF assms(2) this, of "?q + n"] f assms(3) show ?thesis by simp
qed

lemma Iterate_log:
  assumes "take wp (contents fs p) = log_image xs" "wp = length (log_image xs)"
    and "\<forall>x \<in> set xs. item_fits x"
  shows "log_Iterate fs \<lparr>l_path = p, l_file = p, l_writePos = wp, l_version = 3\<rparr> fn st
    = run_records fn (located logHeaderSize xs) st"
proof -
  have "contents fs p = header_bytes @ (encode_items xs @ drop wp (contents fs p))"
    using assms(1) by (metis append_take_drop_id append_assoc log_image_def)
  then have "at (contents fs p) logHeaderSize (encode_items xs @ drop wp (contents fs p))"
    by (metis at_append length_header)
  moreover have q: "logHeaderSize + length (encode_items xs) = wp" by (simp add: log_image_def assms(2))
  ultimately show ?thesis
    using Iterate_encoded[of "contents fs p" logHeaderSize xs _ wp fn st, unfolded q] assms(3)
    by (simp add: log_Iterate_def Iterate_loop.simps [of _ 3 wp fn wp] split: prod.split option.split)
qed

lemma validateHeader_image: "validateHeader (header_bytes @ xs) = Inr 3"
proof -
  have "read_at (header_bytes @ xs) 0 logHeaderSize = Inr header_bytes"
    by (simp add: read_at_def logHeaderSize_def length_header[unfolded logHeaderSize_def])
  moreover have "take 4 header_bytes = logMagic" "take 4 (drop 4 header_bytes) = le_bytes 4 logVersion"
    by (simp_all add: header_bytes_def logMagic_def)
  ultimately show ?thesis
    by (simp add: validateHeader_def le_nat_le_bytes logVersion_def)
qed

text \<open>Reads inside a prefix do not see what follows it.\<close>

lemma read_at_prefix: "read_at f pos n = Inr v \<Longrightarrow> read_at (f @ g) pos n = Inr v"
  by (auto simp: read_at_def split: if_splits)

lemma read_at_take: "read_at (take wp f) pos n = Inr v \<Longrightarrow> read_at f pos n = Inr v"
  using read_at_prefix[of "take wp f" pos n v "drop wp f"] by simp

text \<open>A write at the end of the image, followed or not by older bytes.\<close>

lemma put_bytes_extend:
  assumes "take wp f = img" "wp = length img" "buf \<noteq> []"
  shows "take (wp + length buf) (put_bytes f wp buf) = img @ buf"
    and "length f = wp \<Longrightarrow> put_bytes f wp buf = img @ buf"
proof -
  have "wp \<le> length f" using assms(1,2) by (metis length_take min.cobounded1 min_def)
  then show "take (wp + length buf) (put_bytes f wp buf) = img @ buf"
    and "length f = wp \<Longrightarrow> put_bytes f wp buf = img @ buf"
    using assms by (simp_all add: put_bytes_def)
qed

lemma put_bytes_keeps_prefix:
  assumes "take wp f = img" "wp = length img"
  shows "take wp (put_bytes f wp buf) = img"
proof -
  have "wp \<le> length f" using assms by (metis length_take min.cobounded1 min_def)
  then show ?thesis using assms by (simp add: put_bytes_def)
qed

section \<open>A log and its items\<close>

definition log_holds :: "filesys \<Rightarrow> appendLog \<Rightarrow> log_item list \<Rightarrow> bool" where
  "log_holds fs l hist \<longleftrightarrow>
     l_version l = 3
     \<and> (\<forall>x \<in> set hist. item_fits x)
     \<and> take (l_writePos l) (contents fs (l_file l)) = log_image hist
     \<and> l_writePos l = length (log_image hist)"

text \<open>\<open>Append\<close> of an item: the log holds one item more, or, when the write fails, what it held.\<close>

fun item_append :: "log_item \<Rightarrow> filesys \<Rightarrow> appendLog \<Rightarrow> (store_error + nat \<times> int) \<times> filesys \<times> appendLog" where
  "item_append (key, Some (v, m)) fs l =
     log_Append fs l key v False (mCategory m) (mProvider m) (mStatus m) (mName m) (mTotalSize m)
       (mProtocol m) (mBad m) (mAddedOn m)"
| "item_append (key, None) fs l = log_Append fs l key [] True [] [] [] [] 0 [] False 0"

lemma item_append_eq:
  "item_append x fs l =
     (case write_at fs (l_file l) (l_writePos l) (encode_item x) of
        (Some e, fs') \<Rightarrow> (Inl e, fs', l)
      | (None, fs') \<Rightarrow>
          (Inr (l_writePos l + (4 + length (fst x) + 4),
                i32 (int (length (case snd x of None \<Rightarrow> [] | Some y \<Rightarrow> fst y)))), fs',
           l\<lparr>l_writePos := l_writePos l + length (encode_item x)\<rparr>))"
  by (cases x rule: encode_item.cases) (simp_all add: log_Append_def Let_def split: prod.split option.split)

lemma write_at_contents:
  "contents (snd (write_at fs p pos buf)) p =
     put_bytes (contents fs p) pos (take (fs_limit fs - pos) buf)"
  by (auto simp: write_at_def contents_def)

lemma write_at_other:
  "q \<noteq> p \<Longrightarrow> contents (snd (write_at fs p pos buf)) q = contents fs q"
  by (auto simp: write_at_def contents_def)

lemma write_at_result: "fst (write_at fs p pos buf) = None \<longleftrightarrow> pos + length buf \<le> fs_limit fs"
  by (simp add: write_at_def)

lemma append_holds:
  assumes "log_holds fs l hist" "item_fits x"
  shows "case item_append x fs l of
      (Inl e, fs', l') \<Rightarrow> l' = l \<and> log_holds fs' l hist \<and> fs_limit fs < l_writePos l + length (encode_item x)
    | (Inr (offset, n), fs', l') \<Rightarrow>
        log_holds fs' l' (hist @ [x])
        \<and> offset = l_writePos l + (4 + length (fst x) + 4)
        \<and> n = i32 (int (length (case snd x of None \<Rightarrow> [] | Some y \<Rightarrow> fst y)))
        \<and> l_file l' = l_file l
        \<and> (length (contents fs (l_file l)) = l_writePos l
             \<longrightarrow> length (contents fs' (l_file l)) = l_writePos l')"
proof -
  let ?f = "contents fs (l_file l)" and ?wp = "l_writePos l" and ?buf = "encode_item x"
  have img: "take ?wp ?f = log_image hist" and wp: "?wp = length (log_image hist)"
    and v: "l_version l = 3" and fits: "\<forall>y \<in> set hist. item_fits y"
    using assms(1) unfolding log_holds_def by blast+
  have new: "log_image (hist @ [x]) = log_image hist @ ?buf" by (simp add: log_image_def)
  obtain r fs' where w: "write_at fs (l_file l) ?wp ?buf = (r, fs')" by fastforce
  have c: "contents fs' (l_file l) = put_bytes ?f ?wp (take (fs_limit fs - ?wp) ?buf)"
    using write_at_contents[of fs "l_file l" ?wp ?buf] w by simp
  show ?thesis
  proof (cases r)
    case None
    then have "?wp + length ?buf \<le> fs_limit fs" using write_at_result[of fs "l_file l" ?wp ?buf] w by simp
    then have c': "contents fs' (l_file l) = put_bytes ?f ?wp ?buf" using c by simp
    from put_bytes_extend[OF img wp encode_item_nonempty] c' None w v fits assms(2) wp new show ?thesis
      by (simp add: item_append_eq log_holds_def)
  next
    case (Some e)
    then have "fs_limit fs < ?wp + length ?buf" using write_at_result[of fs "l_file l" ?wp ?buf] w by simp
    with put_bytes_keeps_prefix[OF img wp] Some w v fits wp c show ?thesis
      by (simp add: item_append_eq log_holds_def)
  qed
qed


fun append_items :: "log_item list \<Rightarrow> filesys \<Rightarrow> appendLog \<Rightarrow> store_error option \<times> filesys \<times> appendLog" where
  "append_items [] fs l = (None, fs, l)"
| "append_items (x # xs) fs l =
     (case item_append x fs l of
        (Inl e, fs', l') \<Rightarrow> (Some e, fs', l')
      | (Inr _, fs', l') \<Rightarrow> append_items xs fs' l')"

lemma write_at_limit: "fs_limit (snd (write_at fs p pos buf)) = fs_limit fs"
  by (simp add: write_at_def)

lemma item_append_limit: "fs_limit (fst (snd (item_append x fs l))) = fs_limit fs"
  using write_at_limit[of fs "l_file l" "l_writePos l" "encode_item x"]
  by (auto simp: item_append_eq split: prod.splits option.splits)

lemma append_items_hold:
  assumes "log_holds fs l hist" "\<forall>x \<in> set xs. item_fits x"
    and "length (log_image (hist @ xs)) \<le> fs_limit fs"
  shows "case append_items xs fs l of
      (Some e, _) \<Rightarrow> False
    | (None, fs', l') \<Rightarrow> log_holds fs' l' (hist @ xs) \<and> l_file l' = l_file l"
  using assms
proof (induction xs arbitrary: fs l hist)
  case Nil
  then show ?case by simp
next
  case (Cons x xs)
  have "l_writePos l = length (log_image hist)" using Cons.prems(1) unfolding log_holds_def by blast
  then have fit: "l_writePos l + length (encode_item x) \<le> fs_limit fs"
    using Cons.prems(3) by (simp add: log_image_def)
  obtain r fs' l' where ap: "item_append x fs l = (r, fs', l')" by (cases "item_append x fs l")
  with append_holds[OF Cons.prems(1), of x] Cons.prems(2) fit obtain y where
    "r = Inr y" "log_holds fs' l' (hist @ [x])" "l_file l' = l_file l"
    by (cases r) (auto split: prod.splits)
  with Cons.IH[of fs' l' "hist @ [x]"] Cons.prems(2,3) item_append_limit[of x fs l] ap
  show ?case by (auto split: prod.splits option.splits)
qed

lemma createAppendLog_holds:
  assumes "fs_open fs p" "logHeaderSize \<le> fs_limit fs"
  shows "\<exists>fs'. createAppendLog fs p = (Inr \<lparr>l_path = p, l_file = p, l_writePos = logHeaderSize, l_version = 3\<rparr>, fs')
    \<and> contents fs' p = log_image [] \<and> fs_limit fs' = fs_limit fs
    \<and> (\<forall>q. q \<noteq> p \<longrightarrow> contents fs' q = contents fs q)"
  using assms
  by (auto simp: createAppendLog_def writeHeader_def write_at_def contents_def put_bytes_def
      log_image_def logVersion_def split: if_splits)

lemma run_records_collect:
  "run_records (\<lambda>r rs. (None, rs @ [r])) xs acc = (None, acc @ xs)"
  by (induction xs arbitrary: acc) simp_all

section \<open>Properties\<close>

text \<open>C7. Writing a new log record by record and iterating over it returns exactly the records
  written, in order, each with its key, metadata, flags and the offset and size of its value.\<close>

theorem log_roundtrip:
  assumes "fs_open fs p" "\<forall>x \<in> set xs. item_fits x" "length (log_image xs) \<le> fs_limit fs"
  shows "case createAppendLog fs p of
      (Inl e, _) \<Rightarrow> False
    | (Inr l, fs1) \<Rightarrow>
        (case append_items xs fs1 l of
           (Some e, _) \<Rightarrow> False
         | (None, fs2, l2) \<Rightarrow>
             log_Iterate fs2 l2 (\<lambda>r rs. (None, rs @ [r])) [] = (None, located logHeaderSize xs))"
proof -
  have lim: "logHeaderSize \<le> fs_limit fs" using assms(3) by (simp add: log_image_def)
  let ?l = "\<lparr>l_path = p, l_file = p, l_writePos = logHeaderSize, l_version = 3\<rparr>"
  from createAppendLog_holds[OF assms(1) lim] obtain fs' where
    c: "createAppendLog fs p = (Inr ?l, fs')" "contents fs' p = log_image []" "fs_limit fs' = fs_limit fs"
    by blast
  then have "log_holds fs' ?l []" by (simp add: log_holds_def log_image_def)
  from append_items_hold[OF this assms(2)] c(3) assms(3) obtain fs2 l2 where
    a: "append_items xs fs' ?l = (None, fs2, l2)" and h: "log_holds fs2 l2 xs" and p: "l_file l2 = p"
    by (auto split: prod.splits option.splits)
  from h have "take (l_writePos l2) (contents fs2 p) = log_image xs"
    "l_writePos l2 = length (log_image xs)" "l_version l2 = 3"
    unfolding log_holds_def p by blast+
  from Iterate_log[OF this(1,2) assms(2), of "\<lambda>r rs. (None, rs @ [r])" "[]"] this(3) p have
    "log_Iterate fs2 l2 (\<lambda>r rs. (None, rs @ [r])) [] = (None, located logHeaderSize xs)"
    by (cases l2) (simp add: run_records_collect log_Iterate_def)
  with c a show ?thesis by simp
qed

definition demo_items :: "log_item list" where
  "demo_items =
     [([107], Some ([1, 2, 3], no_meta\<lparr>mCategory := [116, 118], mTotalSize := - 5, mBad := True\<rparr>)),
      ([108], Some ([], no_meta)), ([107], None)]"

theorem log_roundtrip_witness:
  "case createAppendLog \<lparr>files = Map.empty, fs_limit = 1000, fs_open = (\<lambda>_. True), fs_sync = True,
    fs_remove = True, fs_rename = True\<rparr> [100] of
      (Inl e, _) \<Rightarrow> False
    | (Inr l, fs1) \<Rightarrow>
        (case append_items demo_items fs1 l of
           (Some e, _) \<Rightarrow> False
         | (None, fs2, l2) \<Rightarrow>
             log_Iterate fs2 l2 (\<lambda>r rs. (None, rs @ [r])) [] = (None, located logHeaderSize demo_items))"
proof (rule log_roundtrip)
  show "\<forall>x \<in> set demo_items. item_fits x"
    by (simp add: demo_items_def record_fits_def fits64_def no_meta_def)
  show "length (log_image demo_items) \<le> fs_limit \<lparr>files = Map.empty, fs_limit = 1000, fs_open = (\<lambda>_. True), fs_sync = True,
    fs_remove = True, fs_rename = True\<rparr>"
    by (simp add: log_image_def demo_items_def encode_record_def put_str16_def logHeaderSize_def no_meta_def)
qed simp

end
