(* ===== verification/Segment_Cache.thy ===== *)
theory Segment_Cache
  imports Append_Log
begin

text \<open>
  The disk cache of Usenet segments, \<open>pkg/usenet/fs/reader/cache.go\<close>, with the download step of
  \<open>fetcher.go\<close>. One sparse file holds every segment at its cumulative offset; per segment there
  is a state, a pin count, a stored length and an access time, each an atomic in the Go code and an
  entry of a list here. The sequential operations are functions of the cache; the clock is an
  argument, and so is the outcome of a disk write (\<open>Some n\<close>: it failed after \<open>n\<close> bytes). The
  background evictor, which runs beside readers that pin segments, is also given as a step relation
  at the granularity of its atomic operations.
\<close>

section \<open>State\<close>

record SegmentMeta =
  MessageID :: gostring
  Number :: int
  Bytes :: int
  StartOffset :: int
  EndOffset :: int
  SegmentDataStart :: int

datatype SegmentState = StateEmpty | StateInMemory | StateOnDisk | StateFetching | StateFailed

datatype seg_error =
    IndexOutOfRange int
  | ErrClosedPipe
  | DiskWrite
  | NotOnDisk nat
  | BufferTooSmall nat int nat
  | InvalidRange int int
  | BeyondSize int int
  | ErrSegmentNotFound
  | ArticleNotFound
  | DownloadFailed string
  | SegPanic

record segCache =
  segments :: "SegmentMeta list"
  segOffsets :: "int list"
  totalSize :: int
  segLengths :: "int list"
  states :: "SegmentState list"
  pinCounts :: "int list"
  errors :: "seg_error option list"
  diskFile :: "byte list"
  onDisk :: "bool list"
  accessTime :: "int list"
  maxDisk :: int
  curDisk :: int
  closed :: bool
  hits :: int
  misses :: int
  evictions :: int

definition segCount :: "segCache \<Rightarrow> nat" where
  "segCount sc = length (segments sc)"

definition in_range :: "segCache \<Rightarrow> int \<Rightarrow> bool" where
  "in_range sc i \<longleftrightarrow> \<not> (i < 0 \<or> i \<ge> int (segCount sc))"

section \<open>Construction\<close>

fun cumulate :: "SegmentMeta list \<Rightarrow> int \<Rightarrow> int list" where
  "cumulate [] cumulative = [cumulative]"
| "cumulate (seg # rest) cumulative =
     cumulative # cumulate rest
       (i64 (cumulative + (if Bytes seg \<le> 0 then 750 * 1024 else Bytes seg)))"

definition computeOffsets :: "SegmentMeta list \<Rightarrow> int list" where
  "computeOffsets segs =
     (let usesExplicit = (length segs > 0 \<and> EndOffset (segs ! 0) > 0)
      in if usesExplicit
         then map StartOffset segs @ [i64 (EndOffset (last segs) + 1)]
         else cumulate segs 0)"

text \<open>\<open>NewSegmentCache\<close> after its directory and file have been created. \<open>Truncate\<close> extends the
  sparse file with zeros.\<close>

definition NewSegmentCache :: "SegmentMeta list \<Rightarrow> int \<Rightarrow> segCache" where
  "NewSegmentCache segs maxd =
     (let n = length segs;
          offsets = computeOffsets segs;
          total = (if length offsets > 0 then offsets ! (length offsets - 1) else 0)
      in \<lparr>segments = segs, segOffsets = offsets, totalSize = total,
          segLengths = replicate n 0, states = replicate n StateEmpty,
          pinCounts = replicate n 0, errors = replicate n None,
          diskFile = (if total > 0 then replicate (nat total) 0 else []),
          onDisk = replicate n False, accessTime = replicate n 0,
          maxDisk = maxd, curDisk = 0, closed = False, hits = 0, misses = 0, evictions = 0\<rparr>)"

section \<open>Reading\<close>

definition SegmentDataSize :: "segCache \<Rightarrow> int \<Rightarrow> int" where
  "SegmentDataSize sc segIdx =
     (if \<not> in_range sc segIdx then 0
      else
        let i = nat segIdx;
            size = segLengths sc ! i
        in if size \<le> 0
           then (let size = Bytes (segments sc ! i)
                 in if size \<le> 0 then i64 (segOffsets sc ! (i + 1) - segOffsets sc ! i) else size)
           else size)"

text \<open>\<open>ReadAt\<close> with \<open>io.EOF\<close> ignored: the bytes that are there.\<close>

definition pread :: "byte list \<Rightarrow> int \<Rightarrow> int \<Rightarrow> byte list" where
  "pread f off n = take (nat n) (drop (nat off) f)"

definition loadFromDisk :: "segCache \<Rightarrow> nat \<Rightarrow> seg_error + byte list" where
  "loadFromDisk sc i =
     (if \<not> onDisk sc ! i then Inl (NotOnDisk i)
      else
        let offset = segOffsets sc ! i;
            size = SegmentDataSize sc (int i)
        in if size < 0 then Inl SegPanic
           else Inr (pread (diskFile sc) offset size))"

text \<open>The readers into a buffer of \<open>buflen\<close> bytes return what they put at its start.\<close>

definition loadFromDiskInto :: "segCache \<Rightarrow> nat \<Rightarrow> nat \<Rightarrow> seg_error + byte list" where
  "loadFromDiskInto sc i buflen =
     (if \<not> onDisk sc ! i then Inl (NotOnDisk i)
      else
        let offset = segOffsets sc ! i;
            size = SegmentDataSize sc (int i)
        in if int buflen < size then Inl (BufferTooSmall i size buflen)
           else if size < 0 then Inl SegPanic
           else Inr (pread (diskFile sc) offset size))"

definition loadRangeFromDiskInto :: "segCache \<Rightarrow> nat \<Rightarrow> int \<Rightarrow> int \<Rightarrow> nat \<Rightarrow> seg_error + byte list" where
  "loadRangeFromDiskInto sc i segOffset len buflen =
     (if \<not> onDisk sc ! i then Inl (NotOnDisk i)
      else if segOffset < 0 \<or> len < 0 then Inl (InvalidRange segOffset len)
      else if int buflen < len then Inl (BufferTooSmall i len buflen)
      else
        let size = SegmentDataSize sc (int i)
        in if segOffset > size then Inl (BeyondSize segOffset size)
           else
             let len' = (if i64 (segOffset + len) > size then size - segOffset else len);
                 absoluteOffset = i64 (segOffsets sc ! i + segOffset)
             in Inr (pread (diskFile sc) absoluteOffset len'))"

text \<open>The common part of \<open>Get\<close>, \<open>ReadInto\<close> and \<open>ReadRangeInto\<close>: a hit, or a counted miss.\<close>

definition count_read :: "segCache \<Rightarrow> int \<Rightarrow> (nat \<Rightarrow> seg_error + byte list) \<Rightarrow> byte list option \<times> segCache" where
  "count_read sc segIdx load =
     (if \<not> in_range sc segIdx then (None, sc)
      else if states sc ! nat segIdx = StateOnDisk
      then (case load (nat segIdx) of
              Inl e \<Rightarrow> (None, sc\<lparr>misses := i64 (misses sc + 1)\<rparr>)
            | Inr data \<Rightarrow> (Some data, sc\<lparr>hits := i64 (hits sc + 1)\<rparr>))
      else (None, sc\<lparr>misses := i64 (misses sc + 1)\<rparr>))"

definition seg_Get :: "segCache \<Rightarrow> int \<Rightarrow> byte list option \<times> segCache" where
  "seg_Get sc segIdx = count_read sc segIdx (loadFromDisk sc)"

definition ReadInto :: "segCache \<Rightarrow> int \<Rightarrow> nat \<Rightarrow> byte list option \<times> segCache" where
  "ReadInto sc segIdx buflen = count_read sc segIdx (\<lambda>i. loadFromDiskInto sc i buflen)"

definition ReadRangeInto :: "segCache \<Rightarrow> int \<Rightarrow> int \<Rightarrow> int \<Rightarrow> nat \<Rightarrow> byte list option \<times> segCache" where
  "ReadRangeInto sc segIdx segOffset len buflen =
     count_read sc segIdx (\<lambda>i. loadRangeFromDiskInto sc i segOffset len buflen)"

section \<open>Writing\<close>

definition touchSegment :: "nat \<Rightarrow> int \<Rightarrow> segCache \<Rightarrow> segCache" where
  "touchSegment i now sc = sc\<lparr>accessTime := (accessTime sc)[i := now]\<rparr>"

text \<open>The writes and atomics that make a segment available, in \<open>Put\<close> and \<open>Finalize\<close>.\<close>

definition mark_on_disk :: "nat \<Rightarrow> int \<Rightarrow> int \<Rightarrow> segCache \<Rightarrow> segCache" where
  "mark_on_disk i n now sc =
     touchSegment i now
       (sc\<lparr>onDisk := (onDisk sc)[i := True],
           curDisk := i64 (curDisk sc + n),
           segLengths := (segLengths sc)[i := n],
           states := (states sc)[i := StateOnDisk]\<rparr>)"

definition disk_write :: "byte list \<Rightarrow> int \<Rightarrow> byte list \<Rightarrow> nat option \<Rightarrow> byte list" where
  "disk_write f off data fail =
     put_bytes f (nat off) (case fail of None \<Rightarrow> data | Some n \<Rightarrow> take n data)"

definition seg_Put :: "segCache \<Rightarrow> int \<Rightarrow> byte list \<Rightarrow> nat option \<Rightarrow> int \<Rightarrow> seg_error option \<times> segCache" where
  "seg_Put sc segIdx data fail now =
     (if \<not> in_range sc segIdx then (Some (IndexOutOfRange segIdx), sc)
      else if closed sc then (Some ErrClosedPipe, sc)
      else
        let i = nat segIdx;
            offset = segOffsets sc ! i;
            sc1 = sc\<lparr>diskFile := disk_write (diskFile sc) offset data fail\<rparr>
        in if fail \<noteq> None then (Some DiskWrite, sc1)
           else (None, mark_on_disk i (int (length data)) now sc1))"

record diskStreamWriter =
  w_offset :: int
  w_dataStart :: int
  w_maxBytes :: int
  w_skipped :: int
  w_written :: int
  w_segIdx :: nat

definition StreamWriter :: "segCache \<Rightarrow> int \<Rightarrow> diskStreamWriter option" where
  "StreamWriter sc segIdx =
     (if \<not> in_range sc segIdx then None
      else
        let i = nat segIdx; seg = segments sc ! i
        in Some \<lparr>w_offset = segOffsets sc ! i, w_dataStart = SegmentDataStart seg,
                 w_maxBytes = Bytes seg, w_skipped = 0, w_written = 0, w_segIdx = i\<rparr>)"

text \<open>\<open>Write\<close> returns the number of bytes it claims to have consumed and whether it failed.\<close>

definition Write ::
  "diskStreamWriter \<Rightarrow> byte list \<Rightarrow> byte list \<Rightarrow> nat option \<Rightarrow> (nat \<times> bool) \<times> diskStreamWriter \<times> byte list" where
  "Write w f p fail =
     (if length p = 0 then ((0, False), w, f)
      else
        let skip = (if w_skipped w < w_dataStart w
                    then nat (min (w_dataStart w - w_skipped w) (int (length p))) else 0);
            w = w\<lparr>w_skipped := w_skipped w + int skip\<rparr>;
            consumed = skip;
            p = drop skip p
        in if length p = 0 then ((consumed, False), w, f)
           else if w_written w \<ge> w_maxBytes w then ((consumed + length p, False), w, f)
           else
             let remaining = w_maxBytes w - w_written w;
                 writeLen = (if int (length p) > remaining then nat remaining else length p);
                 f' = disk_write f (w_offset w + w_written w) (take writeLen p) fail
             in case fail of
                  Some n \<Rightarrow> ((consumed + min n writeLen, True), w, f')
                | None \<Rightarrow>
                    ((consumed + length p, False),
                     w\<lparr>w_written := w_written w + int writeLen\<rparr>, f'))"

definition Finalize :: "diskStreamWriter \<Rightarrow> int \<Rightarrow> segCache \<Rightarrow> segCache" where
  "Finalize w now sc =
     (if w_written w > 0 then mark_on_disk (w_segIdx w) (w_written w) now sc else sc)"

section \<open>Pins and states\<close>

fun add_pins :: "nat list \<Rightarrow> int \<Rightarrow> int list \<Rightarrow> int list" where
  "add_pins [] d pins = pins"
| "add_pins (i # is) d pins = add_pins is d (pins[i := i32 (pins ! i + d)])"

text \<open>The loop from \<open>start\<close> to \<open>end\<close> below \<open>segCount\<close>; Go panics at a negative index, which the
  callers never pass.\<close>

definition PinRange :: "segCache \<Rightarrow> nat \<Rightarrow> nat \<Rightarrow> segCache" where
  "PinRange sc start end = sc\<lparr>pinCounts := add_pins [start..<min (end + 1) (segCount sc)] 1 (pinCounts sc)\<rparr>"

definition UnpinRange :: "segCache \<Rightarrow> nat \<Rightarrow> nat \<Rightarrow> segCache" where
  "UnpinRange sc start end = sc\<lparr>pinCounts := add_pins [start..<min (end + 1) (segCount sc)] (- 1) (pinCounts sc)\<rparr>"

definition IsPinned :: "segCache \<Rightarrow> int \<Rightarrow> bool" where
  "IsPinned sc segIdx = (if \<not> in_range sc segIdx then False else pinCounts sc ! nat segIdx > 0)"

definition GetState :: "segCache \<Rightarrow> int \<Rightarrow> SegmentState" where
  "GetState sc segIdx = (if \<not> in_range sc segIdx then StateEmpty else states sc ! nat segIdx)"

definition SetState :: "segCache \<Rightarrow> int \<Rightarrow> SegmentState \<Rightarrow> segCache" where
  "SetState sc segIdx st =
     (if \<not> in_range sc segIdx then sc else sc\<lparr>states := (states sc)[nat segIdx := st]\<rparr>)"

definition MarkFetching :: "segCache \<Rightarrow> int \<Rightarrow> bool \<times> segCache" where
  "MarkFetching sc segIdx =
     (if \<not> in_range sc segIdx then (False, sc)
      else if states sc ! nat segIdx = StateEmpty
      then (True, sc\<lparr>states := (states sc)[nat segIdx := StateFetching]\<rparr>)
      else (False, sc))"

definition MarkFailed :: "segCache \<Rightarrow> int \<Rightarrow> seg_error \<Rightarrow> segCache" where
  "MarkFailed sc segIdx err =
     (if \<not> in_range sc segIdx then sc
      else sc\<lparr>errors := (errors sc)[nat segIdx := Some err],
              states := (states sc)[nat segIdx := StateFailed]\<rparr>)"

definition GetError :: "segCache \<Rightarrow> int \<Rightarrow> seg_error option" where
  "GetError sc segIdx = (if \<not> in_range sc segIdx then None else errors sc ! nat segIdx)"

definition ResetState :: "segCache \<Rightarrow> int \<Rightarrow> segCache" where
  "ResetState sc segIdx =
     (if \<not> in_range sc segIdx then sc
      else sc\<lparr>states := (states sc)[nat segIdx := StateEmpty],
              errors := (errors sc)[nat segIdx := None]\<rparr>)"

text \<open>One look of \<open>WaitForSegment\<close> at the state: the result it returns, or \<open>None\<close> to wait.\<close>

definition wait_poll :: "segCache \<Rightarrow> int \<Rightarrow> seg_error option option" where
  "wait_poll sc segIdx =
     (if \<not> in_range sc segIdx then Some (Some (IndexOutOfRange segIdx))
      else case states sc ! nat segIdx of
             StateInMemory \<Rightarrow> Some None
           | StateOnDisk \<Rightarrow> Some None
           | StateFailed \<Rightarrow>
               (case GetError sc segIdx of
                  Some e \<Rightarrow> Some (Some e)
                | None \<Rightarrow> Some (Some (DownloadFailed ''segment failed'')))
           | _ \<Rightarrow> None)"

section \<open>Eviction\<close>

fun findEvictable_loop :: "nat list \<Rightarrow> segCache \<Rightarrow> int \<Rightarrow> int \<Rightarrow> int" where
  "findEvictable_loop [] sc oldest result = result"
| "findEvictable_loop (i # is) sc oldest result =
     (if pinCounts sc ! i > 0 then findEvictable_loop is sc oldest result
      else if states sc ! i \<noteq> StateOnDisk then findEvictable_loop is sc oldest result
      else if accessTime sc ! i < oldest then findEvictable_loop is sc (accessTime sc ! i) (int i)
      else findEvictable_loop is sc oldest result)"

definition findEvictable :: "segCache \<Rightarrow> int" where
  "findEvictable sc = findEvictable_loop [0..<segCount sc] sc (2 ^ 63 - 1) (- 1)"

text \<open>What \<open>evictFromDisk\<close> does once its compare-and-swap has succeeded.\<close>

definition drop_segment :: "nat \<Rightarrow> segCache \<Rightarrow> segCache" where
  "drop_segment i sc =
     (let size = SegmentDataSize sc (int i)
      in sc\<lparr>states := (states sc)[i := StateEmpty],
            onDisk := (onDisk sc)[i := False],
            curDisk := i64 (curDisk sc - size),
            evictions := i64 (evictions sc + 1)\<rparr>)"

definition evictFromDisk :: "segCache \<Rightarrow> nat \<Rightarrow> bool \<times> segCache" where
  "evictFromDisk sc i =
     (if pinCounts sc ! i > 0 then (False, sc)
      else if states sc ! i \<noteq> StateOnDisk then (False, sc)
      else (True, drop_segment i sc))"

definition on_disk_count :: "segCache \<Rightarrow> nat" where
  "on_disk_count sc = length (filter (\<lambda>i. states sc ! i = StateOnDisk) [0..<length (states sc)])"

definition seg_wf :: "segCache \<Rightarrow> bool" where
  "seg_wf sc \<longleftrightarrow>
     length (states sc) = segCount sc \<and> length (pinCounts sc) = segCount sc
     \<and> length (segLengths sc) = segCount sc \<and> length (onDisk sc) = segCount sc
     \<and> length (accessTime sc) = segCount sc \<and> length (errors sc) = segCount sc
     \<and> length (segOffsets sc) = segCount sc + 1"

text \<open>The inner loop of \<open>evictLoop\<close>, run without interference; it may not end if the evictor cannot
  claim the segment it finds.\<close>

partial_function (option) evict_pass :: "segCache \<Rightarrow> segCache option" where
  "evict_pass sc =
     (if curDisk sc > maxDisk sc
      then (let idx = findEvictable sc
            in if idx < 0 then Some sc else evict_pass (snd (evictFromDisk sc (nat idx))))
      else Some sc)"

declare evict_pass.simps [code]

section \<open>Lookup by offset\<close>

function binarySearch_loop :: "int list \<Rightarrow> int \<Rightarrow> nat \<Rightarrow> nat \<Rightarrow> nat" where
  "binarySearch_loop offs offset lo hi =
     (if lo < hi then
        let mid = (lo + hi) div 2
        in if offs ! (mid + 1) \<le> offset then binarySearch_loop offs offset (mid + 1) hi
           else binarySearch_loop offs offset lo mid
      else lo)"
  by pat_completeness auto
termination
  by (relation "measure (\<lambda>(offs, offset, lo, hi). hi - lo)") auto

declare binarySearch_loop.simps [simp del]

definition binarySearchSegment :: "segCache \<Rightarrow> int \<Rightarrow> nat" where
  "binarySearchSegment sc offset = binarySearch_loop (segOffsets sc) offset 0 (segCount sc)"

definition SegmentsForRange :: "segCache \<Rightarrow> int \<Rightarrow> int \<Rightarrow> nat \<times> nat" where
  "SegmentsForRange sc offset len =
     (if segCount sc = 0 then (0, 0)
      else
        let endOffset = i64 (offset + len - 1);
            startIdx = binarySearchSegment sc offset;
            startIdx = (if startIdx \<ge> segCount sc then segCount sc - 1 else startIdx);
            endIdx = binarySearchSegment sc endOffset;
            endIdx = (if endIdx \<ge> segCount sc then segCount sc - 1 else endIdx)
        in (startIdx, endIdx))"

definition GetSegment :: "segCache \<Rightarrow> int \<Rightarrow> SegmentMeta option" where
  "GetSegment sc segIdx = (if \<not> in_range sc segIdx then None else Some (segments sc ! nat segIdx))"

definition SegmentOffset :: "segCache \<Rightarrow> int \<Rightarrow> int" where
  "SegmentOffset sc segIdx =
     (if segIdx < 0 \<or> segIdx > int (segCount sc) then 0 else segOffsets sc ! nat segIdx)"

definition seg_Close :: "segCache \<Rightarrow> segCache" where
  "seg_Close sc = (if closed sc then sc else sc\<lparr>closed := True, diskFile := []\<rparr>)"

section \<open>Downloading\<close>

text \<open>
  \<open>doFetch\<close> of \<open>fetcher.go\<close> once it has its connection slot. The network is an argument: the
  attempts that \<open>ExecuteWithFailover\<close> makes, each with the chunks that \<open>StreamBody\<close> hands to the
  writer, the decoded size it reports and its error. The last attempt decides.
\<close>

record attempt =
  chunks :: "byte list list"
  decoded :: nat
  body_error :: "seg_error option"

fun write_chunks ::
  "byte list list \<Rightarrow> diskStreamWriter \<Rightarrow> byte list \<Rightarrow> diskStreamWriter \<times> byte list" where
  "write_chunks [] w f = (w, f)"
| "write_chunks (p # ps) w f = (case Write w f p None of (_, w', f') \<Rightarrow> write_chunks ps w' f')"

definition run_attempt :: "segCache \<Rightarrow> int \<Rightarrow> int \<Rightarrow> attempt \<Rightarrow> seg_error option \<times> segCache" where
  "run_attempt sc segIdx now a =
     (case StreamWriter sc segIdx of
        None \<Rightarrow> (Some ErrSegmentNotFound, sc)
      | Some w \<Rightarrow>
          (case write_chunks (chunks a) w (diskFile sc) of
             (w', f') \<Rightarrow>
               let sc1 = sc\<lparr>diskFile := f'\<rparr>
               in case body_error a of
                    Some e \<Rightarrow> (Some e, sc1)
                  | None \<Rightarrow>
                      if decoded a = 0 then (Some ArticleNotFound, sc1)
                      else (None, Finalize w' now sc1)))"

fun run_attempts :: "attempt list \<Rightarrow> segCache \<Rightarrow> int \<Rightarrow> int \<Rightarrow> seg_error option \<times> segCache" where
  "run_attempts [] sc segIdx now = (Some (DownloadFailed ''no providers''), sc)"
| "run_attempts (a # as) sc segIdx now =
     (case run_attempt sc segIdx now a of
        (None, sc') \<Rightarrow> (None, sc')
      | (Some e, sc') \<Rightarrow> (if as = [] then (Some e, sc') else run_attempts as sc' segIdx now))"

text \<open>\<open>None\<close>: it waits for the goroutine that is fetching the segment.\<close>

definition doFetch :: "segCache \<Rightarrow> int \<Rightarrow> int \<Rightarrow> attempt list \<Rightarrow> (seg_error option \<times> segCache) option" where
  "doFetch sc segIdx now net =
     (case GetSegment sc segIdx of
        None \<Rightarrow> Some (Some ErrSegmentNotFound, sc)
      | Some seg \<Rightarrow>
          (case MarkFetching sc segIdx of
             (False, sc) \<Rightarrow>
               (case GetState sc segIdx of
                  StateInMemory \<Rightarrow> Some (None, sc)
                | StateOnDisk \<Rightarrow> Some (None, sc)
                | StateFailed \<Rightarrow> Some (GetError sc segIdx, sc)
                | _ \<Rightarrow> None)
           | (True, sc) \<Rightarrow>
               (case run_attempts net sc segIdx now of
                  (Some e, sc') \<Rightarrow> Some (Some e, MarkFailed sc' segIdx e)
                | (None, sc') \<Rightarrow> Some (None, sc'))))"

section \<open>Lookup is exact\<close>

lemma binarySearch_spec:
  assumes "lo \<le> hi" "hi \<le> n" "length offs = n + 1" "sorted offs"
    and "\<forall>i < lo. offs ! (i + 1) \<le> x" "\<forall>i. hi \<le> i \<and> i < n \<longrightarrow> x < offs ! (i + 1)"
  shows "binarySearch_loop offs x lo hi \<le> n
    \<and> (\<forall>i < binarySearch_loop offs x lo hi. offs ! (i + 1) \<le> x)
    \<and> (\<forall>i. binarySearch_loop offs x lo hi \<le> i \<and> i < n \<longrightarrow> x < offs ! (i + 1))"
  using assms
proof (induction offs x lo hi rule: binarySearch_loop.induct)
  case (1 offs x lo hi)
  show ?case
  proof (cases "lo < hi")
    case False
    then have "binarySearch_loop offs x lo hi = lo" "lo = hi"
      using "1.prems"(1) binarySearch_loop.simps [of offs x lo hi] by simp_all
    with "1.prems" show ?thesis by simp
  next
    case True
    define mid where "mid = (lo + hi) div 2"
    have mid: "lo \<le> mid" "mid < hi" using True by (auto simp: mid_def)
    show ?thesis
    proof (cases "offs ! (mid + 1) \<le> x")
      case le: True
      have "offs ! (i + 1) \<le> x" if "i < mid + 1" for i
        using sorted_nth_mono[OF "1.prems"(4), of "i + 1" "mid + 1"] that mid "1.prems"(2,3) le
        by simp
      then have below: "\<forall>i < mid + 1. offs ! (i + 1) \<le> x" by blast
      have "mid + 1 \<le> hi" using mid by simp
      note IH = "1.IH"(1)[OF True mid_def le this "1.prems"(2-4) below "1.prems"(6)]
      have eq: "binarySearch_loop offs x lo hi = binarySearch_loop offs x (mid + 1) hi"
        using binarySearch_loop.simps [of offs x lo hi, unfolded Let_def, folded mid_def] True le
        by (simp only: if_True)
      show ?thesis unfolding eq by (rule IH)
    next
      case gt: False
      have "x < offs ! (i + 1)" if "mid \<le> i" "i < n" for i
        using sorted_nth_mono[OF "1.prems"(4), of "mid + 1" "i + 1"] that mid "1.prems"(3) gt
        by simp
      then have above: "\<forall>i. mid \<le> i \<and> i < n \<longrightarrow> x < offs ! (i + 1)" by blast
      have "mid \<le> n" using mid "1.prems"(2) by simp
      note IH = "1.IH"(2)[OF True mid_def gt mid(1) this "1.prems"(3-5) above]
      have eq: "binarySearch_loop offs x lo hi = binarySearch_loop offs x lo mid"
        using binarySearch_loop.simps [of offs x lo hi, unfolded Let_def, folded mid_def] True gt
        by (simp only: if_True if_False)
      show ?thesis unfolding eq by (rule IH)
    qed
  qed
qed

lemma binarySearchSegment_spec:
  assumes "length (segOffsets sc) = segCount sc + 1" "sorted (segOffsets sc)"
  shows "binarySearchSegment sc x \<le> segCount sc
    \<and> (\<forall>i < binarySearchSegment sc x. segOffsets sc ! (i + 1) \<le> x)
    \<and> (\<forall>i. binarySearchSegment sc x \<le> i \<and> i < segCount sc \<longrightarrow> x < segOffsets sc ! (i + 1))"
  unfolding binarySearchSegment_def
  by (rule binarySearch_spec[OF _ _ assms]) simp_all

section \<open>Streaming to disk\<close>

text \<open>What a segment's writer keeps of a stream: the data after its header bytes, up to the size.\<close>

definition payload :: "int \<Rightarrow> int \<Rightarrow> byte list \<Rightarrow> byte list" where
  "payload dataStart maxBytes stream = take (nat maxBytes) (drop (nat dataStart) stream)"

lemma put_bytes_twice:
  assumes "off \<le> length f"
  shows "put_bytes (put_bytes f off a) (off + length a) b = put_bytes f off (a @ b)"
  using assms by (cases "a = []"; cases "b = []") (simp_all add: put_bytes_def ac_simps)

lemma length_put_bytes: "off \<le> length f \<Longrightarrow> length (put_bytes f off a) = max (length f) (off + length a)"
  by (auto simp: put_bytes_def max_def)

text \<open>The writer after the stream \<open>x\<close>.\<close>

definition writer_at :: "diskStreamWriter \<Rightarrow> byte list \<Rightarrow> byte list \<Rightarrow> diskStreamWriter \<Rightarrow> byte list \<Rightarrow> bool" where
  "writer_at w0 f0 x w f \<longleftrightarrow>
     (let d = payload (w_dataStart w0) (w_maxBytes w0) x
      in w = w0\<lparr>w_skipped := min (w_dataStart w0) (int (length x)), w_written := int (length d)\<rparr>
         \<and> f = put_bytes f0 (nat (w_offset w0)) d)"

lemma Write_step:
  assumes "writer_at w0 f0 x w f" "0 \<le> w_offset w0" "nat (w_offset w0) \<le> length f0"
    and "0 \<le> w_dataStart w0"
  shows "case Write w f p None of ((n, failed), w', f') \<Rightarrow>
    n = length p \<and> \<not> failed \<and> writer_at w0 f0 (x @ p) w' f'"
proof (cases "p = []")
  case True
  with assms(1) show ?thesis by (simp add: Write_def)
next
  case False
  let ?ds = "w_dataStart w0" and ?mb = "w_maxBytes w0" and ?off = "nat (w_offset w0)"
  define d where "d = payload ?ds ?mb x"
  have w: "w = w0\<lparr>w_skipped := min ?ds (int (length x)), w_written := int (length d)\<rparr>"
    and f: "f = put_bytes f0 ?off d"
    using assms(1) by (simp_all add: writer_at_def d_def Let_def)
  define skip where "skip = (if int (length x) < ?ds then nat (min (?ds - int (length x)) (int (length p))) else 0)"
  have skip: "drop (nat ?ds) (x @ p) = drop (nat ?ds) x @ drop skip p"
    by (auto simp: skip_def min_def nat_diff_distrib)
  have skip_le: "skip \<le> length p" by (auto simp: skip_def)
  have skipped: "min ?ds (int (length x)) + int skip = min ?ds (int (length (x @ p)))"
    using assms(4) by (auto simp: skip_def min_def)
  have "payload ?ds ?mb (x @ p) = d @ take (nat ?mb - length (drop (nat ?ds) x)) (drop skip p)"
    unfolding payload_def d_def skip by simp
  moreover have "take (nat ?mb - length (drop (nat ?ds) x)) (drop skip p) = take (nat (?mb - int (length d))) (drop skip p)"
    by (rule arg_cong[where f = "\<lambda>n. take n (drop skip p)"]) (auto simp: d_def payload_def)
  ultimately have rest: "payload ?ds ?mb (x @ p) = d @ take (nat (?mb - int (length d))) (drop skip p)"
    by simp
  have upd: "writer_at w0 f0 (x @ p)
      (w0\<lparr>w_skipped := min ?ds (int (length (x @ p))), w_written := int (length d) + int (length e)\<rparr>)
      (put_bytes f (nat (w_offset w0 + int (length d))) e)"
    if "e = take (nat (?mb - int (length d))) (drop skip p)" for e
    using assms(2,3) put_bytes_twice[of ?off f0 d e] rest that
    by (simp add: writer_at_def f nat_add_distrib)
  have none: "put_bytes f n [] = f" for n by (simp add: put_bytes_def)
  have w': "w\<lparr>w_skipped := w_skipped w + int skip\<rparr>
      = w0\<lparr>w_skipped := min ?ds (int (length (x @ p))), w_written := int (length d)\<rparr>"
    using skipped by (simp add: w)
  have sk: "(if w_skipped w < w_dataStart w then nat (min (w_dataStart w - w_skipped w) (int (length p))) else 0) = skip"
    by (auto simp: w skip_def)
  have W: "Write w f p None =
    (let w = w0\<lparr>w_skipped := min ?ds (int (length (x @ p))), w_written := int (length d)\<rparr>; p = drop skip p
     in if length p = 0 then ((skip, False), w, f)
        else if int (length d) \<ge> ?mb then ((skip + length p, False), w, f)
        else
          let writeLen = (if int (length p) > ?mb - int (length d) then nat (?mb - int (length d)) else length p)
          in ((skip + length p, False), w\<lparr>w_written := int (length d) + int writeLen\<rparr>,
              put_bytes f (nat (w_offset w0 + int (length d))) (take writeLen p)))"
    unfolding Write_def sk w' Let_def using False by (simp add: disk_write_def)
  consider "drop skip p = []" | "drop skip p \<noteq> []" "int (length d) \<ge> ?mb"
    | "drop skip p \<noteq> []" "int (length d) < ?mb" by linarith
  then show ?thesis
  proof cases
    case 1
    with upd[of "[]"] skip_le none show ?thesis by (simp add: W)
  next
    case 2
    with upd[of "[]"] skip_le none show ?thesis by (simp add: W)
  next
    case 3
    define k where "k = (if int (length (drop skip p)) > ?mb - int (length d)
      then nat (?mb - int (length d)) else length (drop skip p))"
    have "take k (drop skip p) = take (nat (?mb - int (length d))) (drop skip p)"
      and "length (take k (drop skip p)) = k"
      by (auto simp: k_def)
    moreover have "skip + length (drop skip p) = length p" using skip_le by simp
    ultimately show ?thesis
      using upd[of "take k (drop skip p)"] 3
      by (simp add: W Let_def k_def[symmetric] del: length_drop)
  qed
qed

lemma write_chunks_payload:
  assumes "writer_at w0 f0 x w f" "0 \<le> w_offset w0" "nat (w_offset w0) \<le> length f0"
    and "0 \<le> w_dataStart w0"
  shows "case write_chunks ps w f of (w', f') \<Rightarrow> writer_at w0 f0 (x @ concat ps) w' f'"
  using assms(1)
proof (induction ps arbitrary: x w f)
  case (Cons p ps)
  from Write_step[OF Cons.prems assms(2-4), of p] obtain r w1 f1 where
    "Write w f p None = (r, w1, f1)" "writer_at w0 f0 (x @ p) w1 f1"
    by (cases "Write w f p None") auto
  with Cons.IH[OF this(2)] show ?case by simp
qed simp

text \<open>The file offsets of a cache: sorted, in range, and as long as the file.\<close>

definition layout_ok :: "segCache \<Rightarrow> bool" where
  "layout_ok sc \<longleftrightarrow> seg_wf sc \<and> sorted (segOffsets sc)
     \<and> (\<forall>x \<in> set (segOffsets sc). 0 \<le> x \<and> x < 2 ^ 63 \<and> nat x \<le> length (diskFile sc))
     \<and> (\<forall>seg \<in> set (segments sc). 0 \<le> SegmentDataStart seg)"

lemma layout_offset:
  assumes "layout_ok sc" "i \<le> segCount sc"
  shows "0 \<le> segOffsets sc ! i" "segOffsets sc ! i < 2 ^ 63"
    "nat (segOffsets sc ! i) \<le> length (diskFile sc)"
  using assms by (auto simp: layout_ok_def seg_wf_def)

text \<open>A successful attempt on a segment: the file has the payload at the segment's offset.\<close>

lemma run_attempt_spec:
  fixes a :: attempt
  assumes "layout_ok sc" "i < segCount sc"
  defines "seg \<equiv> segments sc ! i"
  defines "d \<equiv> payload (SegmentDataStart seg) (Bytes seg) (concat (chunks a))"
  defines "f \<equiv> put_bytes (diskFile sc) (nat (segOffsets sc ! i)) d"
  shows "run_attempt sc (int i) now a =
    (case body_error a of
       Some e \<Rightarrow> (Some e, sc\<lparr>diskFile := f\<rparr>)
     | None \<Rightarrow>
         if decoded a = 0 then (Some ArticleNotFound, sc\<lparr>diskFile := f\<rparr>)
         else (None, if d = [] then sc\<lparr>diskFile := f\<rparr>
                     else mark_on_disk i (int (length d)) now (sc\<lparr>diskFile := f\<rparr>)))"
proof -
  let ?w = "\<lparr>w_offset = segOffsets sc ! i, w_dataStart = SegmentDataStart seg,
    w_maxBytes = Bytes seg, w_skipped = 0, w_written = 0, w_segIdx = i\<rparr>"
  have sw: "StreamWriter sc (int i) = Some ?w"
    using assms(2) by (simp add: StreamWriter_def in_range_def seg_def Let_def)
  have ds: "0 \<le> SegmentDataStart seg"
    using assms(1,2) by (simp add: layout_ok_def seg_def segCount_def)
  then have "writer_at ?w (diskFile sc) [] ?w (diskFile sc)"
    by (simp add: writer_at_def payload_def put_bytes_def Let_def)
  from write_chunks_payload[OF this, of "chunks a"] layout_offset[OF assms(1), of i] assms(2) ds
  obtain w' where w': "write_chunks (chunks a) ?w (diskFile sc) = (w', f)"
    and wr: "w_written w' = int (length d)" "w_segIdx w' = i"
    by (auto simp: writer_at_def d_def f_def Let_def split: prod.splits)
  show ?thesis
    using sw w' wr by (simp add: run_attempt_def Finalize_def Let_def split: option.split)
qed

lemma pread_put:
  assumes "0 \<le> off" "nat off \<le> length f"
  shows "pread (put_bytes f (nat off) d) off (int (length d)) = d"
  using assms by (simp add: pread_def put_bytes_def)

lemma pread_put_apart:
  assumes "nat off \<le> length f" "0 \<le> n"
    and "off2 + n \<le> off \<or> off + int (length d) \<le> off2" "0 \<le> off" "0 \<le> off2"
    and "nat (off2 + n) \<le> length f"
  shows "pread (put_bytes f (nat off) d) off2 n = pread f off2 n"
proof (cases "d = []")
  case True
  then show ?thesis by (simp add: put_bytes_def)
next
  case False
  have p: "put_bytes f (nat off) d = take (nat off) f @ d @ drop (nat off + length d) f"
    using False assms(1) by (simp add: put_bytes_def)
  from assms(3) show ?thesis
  proof
    assume le: "off2 + n \<le> off"
    then have "nat off2 + nat n \<le> nat off" using assms(2,4,5) by (simp flip: nat_add_distrib)
    moreover have "length (take (nat off) f) = nat off" using assms(1) by simp
    ultimately show ?thesis
      unfolding p pread_def by (simp only: take_drop_append take_drop_take)
  next
    assume ge: "off + int (length d) \<le> off2"
    then have "nat off + length d \<le> nat off2" using assms(4) by linarith
    then show ?thesis using assms(1) by (simp add: p pread_def)
  qed
qed

section \<open>Properties\<close>

lemma SegmentsForRange_spec:
  assumes "layout_ok sc" "0 < segCount sc" "segOffsets sc ! 0 \<le> offset" "0 < len"
    and "offset + len \<le> segOffsets sc ! segCount sc"
  shows "case SegmentsForRange sc offset len of (a, b) \<Rightarrow>
    a \<le> b \<and> b < segCount sc
    \<and> (\<forall>i < segCount sc. a \<le> i \<and> i \<le> b \<longleftrightarrow>
         segOffsets sc ! i < offset + len \<and> offset < segOffsets sc ! (i + 1))"
proof -
  let ?o = "segOffsets sc" and ?n = "segCount sc"
  define e where "e = offset + len - 1"
  have sorted: "sorted ?o" and lenO: "length ?o = ?n + 1"
    using assms(1) by (simp_all add: layout_ok_def seg_wf_def)
  have e64: "i64 e = e"
    using layout_offset[OF assms(1), of 0] layout_offset[OF assms(1), of ?n] assms(3-5)
    by (intro i64_fits) (simp_all add: e_def)
  define a where "a = binarySearchSegment sc offset"
  define b where "b = binarySearchSegment sc e"
  note A = binarySearchSegment_spec[OF lenO sorted, of offset, folded a_def]
    and B = binarySearchSegment_spec[OF lenO sorted, of e, folded b_def]
  have last: "e < ?o ! ?n" "offset < ?o ! ?n" using assms(4,5) by (simp_all add: e_def)
  have an: "a < ?n"
  proof (rule ccontr)
    assume "\<not> a < ?n"
    then have "?o ! (?n - 1 + 1) \<le> offset" using A assms(2) by (metis diff_less less_le_trans not_le zero_less_one)
    with last(2) assms(2) show False by simp
  qed
  have bn: "b < ?n"
  proof (rule ccontr)
    assume "\<not> b < ?n"
    then have "?o ! (?n - 1 + 1) \<le> e" using B assms(2) by (metis diff_less less_le_trans not_le zero_less_one)
    with last(1) assms(2) show False by simp
  qed
  have ai: "a \<le> i \<longleftrightarrow> offset < ?o ! (i + 1)" if "i < ?n" for i
    using A that by (meson leD leI)
  have bi: "i \<le> b \<longleftrightarrow> ?o ! i < offset + len" if "i < ?n" for i
  proof
    assume "i \<le> b"
    show "?o ! i < offset + len"
    proof (cases i)
      case 0
      with assms(3,4) show ?thesis by simp
    next
      case (Suc j)
      with \<open>i \<le> b\<close> B have "?o ! i \<le> e" by simp
      then show ?thesis by (simp add: e_def)
    qed
  next
    assume lt: "?o ! i < offset + len"
    show "i \<le> b"
    proof (rule ccontr)
      assume "\<not> i \<le> b"
      then have "e < ?o ! (b + 1)" "?o ! (b + 1) \<le> ?o ! i"
        using B bn that lenO sorted by (auto intro: sorted_nth_mono)
      with lt show False by (simp add: e_def)
    qed
  qed
  have "a \<le> b"
  proof (rule ccontr)
    assume "\<not> a \<le> b"
    then have "?o ! (b + 1) \<le> offset" "e < ?o ! (b + 1)" using A B bn by simp_all
    with assms(4) show False by (simp add: e_def)
  qed
  moreover have "SegmentsForRange sc offset len = (a, b)"
    using an bn e64 assms(2) by (simp add: SegmentsForRange_def Let_def flip: a_def b_def e_def)
  ultimately show ?thesis using ai bi bn by auto
qed

text \<open>The range lookup is exact: for a byte range inside the file it returns the interval of
  exactly those segments that share a byte position with the range.\<close>

lemma SegmentsForRange_exact:
  assumes "layout_ok sc" "0 < segCount sc" "segOffsets sc ! 0 \<le> offset" "0 < len"
    and "offset + len \<le> segOffsets sc ! segCount sc"
  shows "case SegmentsForRange sc offset len of (a, b) \<Rightarrow>
    a \<le> b \<and> b < segCount sc
    \<and> (\<forall>i < segCount sc. a \<le> i \<and> i \<le> b \<longleftrightarrow>
         segOffsets sc ! i < offset + len \<and> offset < segOffsets sc ! (i + 1))"
  by (rule SegmentsForRange_spec[OF assms])

definition demo_segs :: "SegmentMeta list" where
  "demo_segs =
     [\<lparr>MessageID = [1], Number = 1, Bytes = 4, StartOffset = 0, EndOffset = 0, SegmentDataStart = 0\<rparr>,
      \<lparr>MessageID = [2], Number = 2, Bytes = 3, StartOffset = 0, EndOffset = 0, SegmentDataStart = 1\<rparr>]"

definition demo_cache :: segCache where
  "demo_cache = NewSegmentCache demo_segs 5"

lemma demo_cache_layout: "layout_ok demo_cache \<and> segCount demo_cache = 2 \<and> segOffsets demo_cache = [0, 4, 7]
    \<and> states demo_cache = [StateEmpty, StateEmpty] \<and> segments demo_cache = demo_segs
    \<and> onDisk demo_cache = [False, False] \<and> segLengths demo_cache = [0, 0]"
  by (simp add: demo_cache_def NewSegmentCache_def demo_segs_def computeOffsets_def i64_fits Let_def
      layout_ok_def seg_wf_def segCount_def numeral_2_eq_2)

lemma SegmentsForRange_exact_witness:
  "case SegmentsForRange demo_cache 3 2 of (a, b) \<Rightarrow> a \<le> b \<and> b < 2"
  using SegmentsForRange_exact[of demo_cache 3 2] demo_cache_layout by (auto split: prod.splits)

lemma mark_on_disk_fields [simp]:
  "segments (mark_on_disk i n now sc) = segments sc"
  "segOffsets (mark_on_disk i n now sc) = segOffsets sc"
  "diskFile (mark_on_disk i n now sc) = diskFile sc"
  "states (mark_on_disk i n now sc) = (states sc)[i := StateOnDisk]"
  "onDisk (mark_on_disk i n now sc) = (onDisk sc)[i := True]"
  "segLengths (mark_on_disk i n now sc) = (segLengths sc)[i := n]"
  "pinCounts (mark_on_disk i n now sc) = pinCounts sc"
  "curDisk (mark_on_disk i n now sc) = i64 (curDisk sc + n)"
  "maxDisk (mark_on_disk i n now sc) = maxDisk sc"
  "errors (mark_on_disk i n now sc) = errors sc"
  "accessTime (mark_on_disk i n now sc) = (accessTime sc)[i := now]"
  by (simp_all add: mark_on_disk_def touchSegment_def)

lemma in_range_int [simp]: "in_range sc (int i) \<longleftrightarrow> i < segCount sc"
  by (auto simp: in_range_def)

lemma doFetch_single:
  assumes "layout_ok sc" "i < segCount sc" "states sc ! i = StateEmpty" "body_error a = None" "decoded a \<noteq> 0"
  defines "d \<equiv> payload (SegmentDataStart (segments sc ! i)) (Bytes (segments sc ! i)) (concat (chunks a))"
  defines "sc1 \<equiv> sc\<lparr>states := (states sc)[i := StateFetching],
      diskFile := put_bytes (diskFile sc) (nat (segOffsets sc ! i)) d\<rparr>"
  shows "doFetch sc (int i) now [a] =
    Some (None, if d = [] then sc1 else mark_on_disk i (int (length d)) now sc1)"
proof -
  let ?sc = "sc\<lparr>states := (states sc)[i := StateFetching]\<rparr>"
  have l: "layout_ok ?sc" using assms(1) by (simp add: layout_ok_def seg_wf_def segCount_def)
  have "i < segCount ?sc" using assms(2) by (simp add: segCount_def)
  from run_attempt_spec[OF l this, of now a] assms(4,5)
  have "run_attempt ?sc (int i) now a = (None, if d = [] then sc1 else mark_on_disk i (int (length d)) now sc1)"
    by (simp add: d_def sc1_def)
  with assms(2,3) show ?thesis
    by (simp add: doFetch_def GetSegment_def MarkFetching_def)
qed

text \<open>C8. A download that delivers data makes the segment readable: whatever the chunks in which the
  body arrives, a read returns exactly the data after the segment's header bytes, cut at its size,
  and every other segment reads as before, provided no segment stores more than its slot holds.\<close>

theorem fetched_segment_reads_back:
  assumes "layout_ok sc" "i < segCount sc" "states sc ! i = StateEmpty"
    and "body_error a = None" "decoded a \<noteq> 0"
    and "payload (SegmentDataStart (segments sc ! i)) (Bytes (segments sc ! i)) (concat (chunks a)) \<noteq> []"
    and "\<forall>j < segCount sc. j \<noteq> i \<and> onDisk sc ! j \<longrightarrow>
      0 \<le> SegmentDataSize sc (int j) \<and> segOffsets sc ! j + SegmentDataSize sc (int j) \<le> segOffsets sc ! (j + 1)"
    and "segOffsets sc ! i + Bytes (segments sc ! i) \<le> segOffsets sc ! (i + 1)"
  shows "case doFetch sc (int i) now [a] of
      None \<Rightarrow> False
    | Some (e, sc') \<Rightarrow> e = None \<and> wait_poll sc' (int i) = Some None
        \<and> fst (seg_Get sc' (int i)) =
            Some (payload (SegmentDataStart (segments sc ! i)) (Bytes (segments sc ! i)) (concat (chunks a)))
        \<and> (\<forall>j < segCount sc. j \<noteq> i \<longrightarrow> fst (seg_Get sc' (int j)) = fst (seg_Get sc (int j)))"
proof -
  define d where "d = payload (SegmentDataStart (segments sc ! i)) (Bytes (segments sc ! i)) (concat (chunks a))"
  define sc1 where "sc1 = mark_on_disk i (int (length d)) now (sc\<lparr>states := (states sc)[i := StateFetching],
      diskFile := put_bytes (diskFile sc) (nat (segOffsets sc ! i)) d\<rparr>)"
  have fetch: "doFetch sc (int i) now [a] = Some (None, sc1)"
    using doFetch_single[OF assms(1-5), of now] assms(6) by (simp add: d_def sc1_def)
  have cnt: "segCount sc1 = segCount sc" by (simp add: sc1_def segCount_def)
  have lens: "length (states sc) = segCount sc" "length (onDisk sc) = segCount sc"
    "length (segLengths sc) = segCount sc" "length (segOffsets sc) = segCount sc + 1"
    and sorted: "sorted (segOffsets sc)"
    using assms(1) by (auto simp: layout_ok_def seg_wf_def)
  note off = layout_offset[OF assms(1), of i]
  have dpos: "0 < length d" using assms(6) by (simp add: d_def)
  have "fst (seg_Get sc1 (int i)) = Some d"
    using assms(2) lens off dpos
    by (simp add: seg_Get_def count_read_def cnt loadFromDisk_def SegmentDataSize_def sc1_def Let_def
        pread_put segCount_def)
  moreover have "wait_poll sc1 (int i) = Some None"
    using assms(2) lens by (simp add: wait_poll_def cnt) (simp add: sc1_def)
  moreover have "fst (seg_Get sc1 (int j)) = fst (seg_Get sc (int j))" if j: "j < segCount sc" "j \<noteq> i" for j
  proof -
    have size: "SegmentDataSize sc1 (int j) = SegmentDataSize sc (int j)"
    proof -
      have "segLengths sc1 ! j = segLengths sc ! j" "segments sc1 = segments sc" "segOffsets sc1 = segOffsets sc"
        using j by (simp_all add: sc1_def)
      then show ?thesis by (simp add: SegmentDataSize_def cnt Let_def)
    qed
    have st: "states sc1 ! j = states sc ! j" "onDisk sc1 ! j = onDisk sc ! j" "segOffsets sc1 = segOffsets sc"
      using j by (simp_all add: sc1_def)
    have "pread (diskFile sc1) (segOffsets sc ! j) (SegmentDataSize sc (int j))
        = pread (diskFile sc) (segOffsets sc ! j) (SegmentDataSize sc (int j))" if on: "onDisk sc ! j"
    proof -
      have fits: "0 \<le> SegmentDataSize sc (int j)"
        "segOffsets sc ! j + SegmentDataSize sc (int j) \<le> segOffsets sc ! (j + 1)"
        using assms(7) j on by blast+
      have dl: "segOffsets sc ! i + int (length d) \<le> segOffsets sc ! (i + 1)"
        using assms(8) dpos by (auto simp: d_def payload_def min_def split: if_splits)
      have apart: "segOffsets sc ! j + SegmentDataSize sc (int j) \<le> segOffsets sc ! i
          \<or> segOffsets sc ! i + int (length d) \<le> segOffsets sc ! j"
      proof (cases "j < i")
        case True
        then have "segOffsets sc ! (j + 1) \<le> segOffsets sc ! i"
          using sorted lens assms(2) by (intro sorted_nth_mono) simp_all
        with fits show ?thesis by simp
      next
        case False
        then have "segOffsets sc ! (i + 1) \<le> segOffsets sc ! j"
          using sorted lens j by (intro sorted_nth_mono) simp_all
        with dl show ?thesis by simp
      qed
      have "nat (segOffsets sc ! j + SegmentDataSize sc (int j)) \<le> length (diskFile sc)"
        using fits layout_offset(3)[OF assms(1), of "j + 1"] j by simp
      with apart fits off j layout_offset[OF assms(1), of j] assms(2) show ?thesis
        by (simp add: sc1_def pread_put_apart)
    qed
    then show ?thesis
      using j st size by (auto simp: seg_Get_def count_read_def cnt loadFromDisk_def Let_def split: sum.splits)
  qed
  ultimately show ?thesis using fetch by (simp add: d_def)
qed

definition demo_attempt :: attempt where
  "demo_attempt = \<lparr>chunks = [[1, 2], [], [3, 4, 5]], decoded = 5, body_error = None\<rparr>"

theorem fetched_segment_reads_back_witness:
  "case doFetch demo_cache 1 9 [demo_attempt] of
      None \<Rightarrow> False
    | Some (e, sc') \<Rightarrow> e = None \<and> fst (seg_Get sc' 1) = Some [2, 3, 4]"
proof -
  have seg: "segments demo_cache = demo_segs" "onDisk demo_cache = [False, False]"
    using demo_cache_layout by simp_all
  have p: "payload (SegmentDataStart (segments demo_cache ! 1)) (Bytes (segments demo_cache ! 1))
      (concat (chunks demo_attempt)) = [2, 3, 4]"
    by (simp add: seg demo_segs_def demo_attempt_def payload_def numeral_eq_Suc)
  have "\<forall>j < segCount demo_cache. j \<noteq> 1 \<and> onDisk demo_cache ! j \<longrightarrow>
      0 \<le> SegmentDataSize demo_cache (int j)
      \<and> segOffsets demo_cache ! j + SegmentDataSize demo_cache (int j) \<le> segOffsets demo_cache ! (j + 1)"
    using demo_cache_layout by (auto simp: seg less_Suc_eq numeral_2_eq_2)
  moreover have "segOffsets demo_cache ! 1 + Bytes (segments demo_cache ! 1) \<le> segOffsets demo_cache ! (1 + 1)"
    using demo_cache_layout by (simp add: seg demo_segs_def)
  ultimately show ?thesis
    using fetched_segment_reads_back[of demo_cache 1 demo_attempt 9] demo_cache_layout p
    by (simp add: demo_attempt_def split: option.splits prod.splits)
qed

text \<open>C15. A download can succeed without making its segment available: when the body decodes to
  something but none of it is left to store (a size that is not known, or data shorter than the
  header bytes to skip), \<open>Finalize\<close> does nothing, the caller is told that the fetch succeeded, and
  the segment stays in the fetching state, in which every later reader waits for ever.\<close>

theorem empty_payload_leaves_segment_fetching:
  assumes "layout_ok sc" "i < segCount sc" "states sc ! i = StateEmpty"
    and "body_error a = None" "decoded a \<noteq> 0"
    and "Bytes (segments sc ! i) \<le> 0 \<or> int (length (concat (chunks a))) \<le> SegmentDataStart (segments sc ! i)"
  shows "case doFetch sc (int i) now [a] of
      None \<Rightarrow> False
    | Some (e, sc') \<Rightarrow> e = None \<and> GetState sc' (int i) = StateFetching
        \<and> wait_poll sc' (int i) = None \<and> doFetch sc' (int i) now' net = None"
proof -
  have "payload (SegmentDataStart (segments sc ! i)) (Bytes (segments sc ! i)) (concat (chunks a)) = []"
    using assms(6) by (auto simp: payload_def)
  with doFetch_single[OF assms(1-5), of now] assms(1,2) show ?thesis
    by (simp add: GetState_def wait_poll_def doFetch_def GetSegment_def MarkFetching_def in_range_def
        segCount_def layout_ok_def seg_wf_def)
qed

theorem empty_payload_leaves_segment_fetching_witness:
  "case doFetch demo_cache 1 9 [\<lparr>chunks = [[1]], decoded = 1, body_error = None\<rparr>] of
      None \<Rightarrow> False
    | Some (e, sc') \<Rightarrow> e = None \<and> GetState sc' 1 = StateFetching \<and> wait_poll sc' 1 = None"
  using empty_payload_leaves_segment_fetching[where sc = demo_cache and i = 1 and now = 9
      and now' = 0 and net = "[]" and a = "\<lparr>chunks = [[1]], decoded = 1, body_error = None\<rparr>"] demo_cache_layout
  by (auto simp: demo_segs_def split: option.splits prod.splits)

section \<open>Disk accounting\<close>

definition held :: "segCache \<Rightarrow> nat \<Rightarrow> int" where
  "held sc i = (if onDisk sc ! i then SegmentDataSize sc (int i) else 0)"

definition usage :: "segCache \<Rightarrow> int" where
  "usage sc = sum (held sc) {..<segCount sc}"

definition consistent :: "segCache \<Rightarrow> bool" where
  "consistent sc \<longleftrightarrow> seg_wf sc
     \<and> (\<forall>i < segCount sc. onDisk sc ! i \<longleftrightarrow> states sc ! i = StateOnDisk)
     \<and> curDisk sc = i64 (usage sc)"

lemma i64_add [simp]: "i64 (i64 x + y) = i64 (x + y)" "i64 (i64 x - y) = i64 (x - y)"
  by (rule i64_cong, metis i64_mod mod_add_left_eq, rule i64_cong, metis i64_mod mod_diff_left_eq)

lemma sum_update:
  fixes f g :: "nat \<Rightarrow> int"
  assumes "i < n" "\<And>j. j < n \<Longrightarrow> j \<noteq> i \<Longrightarrow> f j = g j"
  shows "sum f {..<n} = sum g {..<n} - g i + f i"
proof -
  have "sum f ({..<n} - {i}) = sum g ({..<n} - {i})" by (rule sum.cong) (auto simp: assms(2))
  with assms(1) show ?thesis by (simp add: sum.remove[of "{..<n}" i])
qed

text \<open>Changes that the accounting does not see.\<close>

lemma usage_cong:
  assumes "segments sc' = segments sc" "segOffsets sc' = segOffsets sc"
    and "segLengths sc' = segLengths sc" "onDisk sc' = onDisk sc"
  shows "usage sc' = usage sc"
proof -
  have "SegmentDataSize sc' = SegmentDataSize sc"
    using assms by (simp add: fun_eq_iff SegmentDataSize_def in_range_def segCount_def Let_def)
  with assms show ?thesis by (simp add: usage_def held_def segCount_def cong: if_cong)
qed

lemma consistent_mark:
  assumes "consistent sc" "i < segCount sc" "\<not> onDisk sc ! i" "0 < n"
  shows "consistent (mark_on_disk i n now sc)"
proof -
  let ?sc = "mark_on_disk i n now sc"
  have wf: "seg_wf sc" using assms(1) by (simp add: consistent_def)
  have cnt: "segCount ?sc = segCount sc" by (simp add: segCount_def)
  have "held ?sc j = held sc j" if "j < segCount sc" "j \<noteq> i" for j
    using that by (simp add: held_def SegmentDataSize_def cnt Let_def)
  from sum_update[OF assms(2) this] have "usage ?sc = usage sc - held sc i + held ?sc i"
    unfolding usage_def cnt by simp
  moreover have "held ?sc i = n" "held sc i = 0"
    using assms wf by (simp_all add: held_def SegmentDataSize_def cnt seg_wf_def Let_def)
  ultimately have "usage ?sc = usage sc + n" by simp
  with assms wf show ?thesis
    by (auto simp: consistent_def cnt seg_wf_def nth_list_update)
qed

lemma drop_segment_fields [simp]:
  "segments (drop_segment i sc) = segments sc" "segOffsets (drop_segment i sc) = segOffsets sc"
  "segLengths (drop_segment i sc) = segLengths sc" "pinCounts (drop_segment i sc) = pinCounts sc"
  "states (drop_segment i sc) = (states sc)[i := StateEmpty]"
  "onDisk (drop_segment i sc) = (onDisk sc)[i := False]"
  "accessTime (drop_segment i sc) = accessTime sc" "maxDisk (drop_segment i sc) = maxDisk sc"
  "errors (drop_segment i sc) = errors sc" "segCount (drop_segment i sc) = segCount sc"
  "curDisk (drop_segment i sc) = i64 (curDisk sc - SegmentDataSize sc (int i))"
  by (simp_all add: drop_segment_def segCount_def)

lemma consistent_drop:
  assumes "consistent sc" "i < segCount sc" "onDisk sc ! i"
  shows "consistent (drop_segment i sc)"
proof -
  let ?sc = "drop_segment i sc"
  have wf: "seg_wf sc" using assms(1) by (simp add: consistent_def)
  have size: "SegmentDataSize ?sc j = SegmentDataSize sc j" for j
    by (simp add: SegmentDataSize_def in_range_def Let_def)
  have "held ?sc j = held sc j" if "j < segCount sc" "j \<noteq> i" for j
    using that by (simp add: held_def size)
  from sum_update[OF assms(2) this] have "usage ?sc = usage sc - held sc i + held ?sc i"
    unfolding usage_def by simp
  moreover have "held ?sc i = 0" "held sc i = SegmentDataSize sc (int i)"
    using assms wf by (simp_all add: held_def seg_wf_def)
  ultimately have "usage ?sc = usage sc - SegmentDataSize sc (int i)" by simp
  with assms wf show ?thesis by (auto simp: consistent_def seg_wf_def nth_list_update)
qed

lemma Write_segIdx: "w_segIdx (fst (snd (Write w f p fail))) = w_segIdx w"
  by (auto simp: Write_def Let_def split: option.split)

lemma write_chunks_segIdx: "w_segIdx (fst (write_chunks ps w f)) = w_segIdx w"
proof (induction ps arbitrary: w f)
  case (Cons p ps)
  obtain r w' f' where "Write w f p None = (r, w', f')" by (cases "Write w f p None")
  with Cons[of w' f'] Write_segIdx[of w f p None] show ?case by simp
qed simp

lemma consistent_file: "consistent (sc\<lparr>diskFile := f\<rparr>) = consistent sc"
  using usage_cong[of "sc\<lparr>diskFile := f\<rparr>" sc] by (simp add: consistent_def seg_wf_def segCount_def)

lemma consistent_state:
  assumes "consistent sc" "i < segCount sc" "\<not> onDisk sc ! i" "st \<noteq> StateOnDisk"
  shows "consistent (sc\<lparr>states := (states sc)[i := st]\<rparr>)"
    and "consistent (sc\<lparr>errors := (errors sc)[i := e], states := (states sc)[i := st]\<rparr>)"
proof -
  have u: "usage (sc\<lparr>states := (states sc)[i := st]\<rparr>) = usage sc"
    "usage (sc\<lparr>errors := (errors sc)[i := e], states := (states sc)[i := st]\<rparr>) = usage sc"
    by (rule usage_cong; simp)+
  show "consistent (sc\<lparr>states := (states sc)[i := st]\<rparr>)"
    and "consistent (sc\<lparr>errors := (errors sc)[i := e], states := (states sc)[i := st]\<rparr>)"
    using assms u by (auto simp: consistent_def seg_wf_def segCount_def nth_list_update)
qed

lemma consistent_attempt:
  assumes "consistent sc" "i < segCount sc" "\<not> onDisk sc ! i"
  shows "case run_attempt sc (int i) now a of (e, sc') \<Rightarrow>
    consistent sc' \<and> segCount sc' = segCount sc \<and> (e \<noteq> None \<longrightarrow> onDisk sc' = onDisk sc \<and> states sc' = states sc)"
proof -
  obtain w where w: "StreamWriter sc (int i) = Some w" "w_segIdx w = i"
    using assms(2) by (simp add: StreamWriter_def Let_def)
  obtain w' f' where c: "write_chunks (chunks a) w (diskFile sc) = (w', f')" by fastforce
  have i: "w_segIdx w' = i" using write_chunks_segIdx[of "chunks a" w "diskFile sc"] c w by simp
  let ?sc = "sc\<lparr>diskFile := f'\<rparr>"
  have con: "consistent ?sc" using assms(1) by (simp add: consistent_file)
  have cnt: "segCount ?sc = segCount sc" "segCount (mark_on_disk j n now ?sc) = segCount sc" for j n
    by (simp_all add: segCount_def)
  have "0 < w_written w' \<Longrightarrow> consistent (mark_on_disk i (w_written w') now ?sc)"
    using consistent_mark[OF con, of i] assms(2,3) by (simp add: cnt)
  with con cnt i w c show ?thesis
    by (simp add: run_attempt_def Finalize_def Let_def split: option.split)
qed

lemma consistent_attempts:
  assumes "consistent sc" "i < segCount sc" "\<not> onDisk sc ! i"
  shows "case run_attempts as sc (int i) now of (e, sc') \<Rightarrow>
    consistent sc' \<and> segCount sc' = segCount sc \<and> (e \<noteq> None \<longrightarrow> \<not> onDisk sc' ! i)"
  using assms
proof (induction as arbitrary: sc)
  case (Cons a as)
  obtain e sc' where r: "run_attempt sc (int i) now a = (e, sc')" by fastforce
  with consistent_attempt[OF Cons.prems, of now a] have c: "consistent sc'" "segCount sc' = segCount sc"
    and on: "e \<noteq> None \<Longrightarrow> onDisk sc' = onDisk sc" by auto
  show ?case
  proof (cases e)
    case None
    with r c show ?thesis by simp
  next
    case (Some err)
    with Cons.IH[of sc'] c on Cons.prems r show ?thesis by (auto split: prod.splits)
  qed
qed simp

lemma consistent_fetch:
  assumes "consistent sc"
  shows "case doFetch sc segIdx now net of None \<Rightarrow> True | Some (e, sc') \<Rightarrow> consistent sc' \<and> segCount sc' = segCount sc"
proof (cases "in_range sc segIdx")
  case False
  with assms show ?thesis by (simp add: doFetch_def GetSegment_def)
next
  case True
  then obtain i where i: "segIdx = int i" "i < segCount sc"
    by (metis in_range_def in_range_int int_nat_eq linorder_not_less nat_int)
  show ?thesis
  proof (cases "states sc ! i = StateEmpty")
    case False
    with assms i show ?thesis
      by (auto simp: doFetch_def GetSegment_def MarkFetching_def GetState_def split: SegmentState.split)
  next
    case empty: True
    let ?sc = "sc\<lparr>states := (states sc)[i := StateFetching]\<rparr>"
    have off: "\<not> onDisk sc ! i" using assms empty i(2) by (auto simp: consistent_def)
    have c: "consistent ?sc" using consistent_state(1)[OF assms i(2) off] by simp
    have cnt: "segCount ?sc = segCount sc" by (simp add: segCount_def)
    from consistent_attempts[OF c, of i net now] off i(2) cnt obtain e sc' where
      r: "run_attempts net ?sc (int i) now = (e, sc')" and c': "consistent sc'" "segCount sc' = segCount sc"
      and on: "e \<noteq> None \<longrightarrow> \<not> onDisk sc' ! i" by (auto split: prod.splits)
    have "e = Some err \<Longrightarrow> consistent (MarkFailed sc' (int i) err) \<and> segCount (MarkFailed sc' (int i) err) = segCount sc" for err
      using consistent_state(2)[OF c'(1), of i StateFailed] on c' i(2) by (simp add: MarkFailed_def segCount_def)
    with r c' i empty show ?thesis
      by (cases e) (auto simp: doFetch_def GetSegment_def MarkFetching_def)
  qed
qed

section \<open>The evictor\<close>

definition evictable :: "segCache \<Rightarrow> nat \<Rightarrow> bool" where
  "evictable sc i \<longleftrightarrow> \<not> pinCounts sc ! i > 0 \<and> states sc ! i = StateOnDisk"

lemma findEvictable_loop_spec:
  "case findEvictable_loop is sc oldest result of r \<Rightarrow>
     (r = result \<and> (\<forall>j \<in> set is. evictable sc j \<longrightarrow> oldest \<le> accessTime sc ! j))
     \<or> (\<exists>i \<in> set is. r = int i \<and> evictable sc i \<and> accessTime sc ! i < oldest
          \<and> (\<forall>j \<in> set is. evictable sc j \<longrightarrow> accessTime sc ! i \<le> accessTime sc ! j))"
proof (induction "is" arbitrary: oldest result)
  case (Cons i "is")
  show ?case
  proof (cases "evictable sc i \<and> accessTime sc ! i < oldest")
    case True
    with Cons[of "accessTime sc ! i" "int i"] show ?thesis by (fastforce simp: evictable_def)
  next
    case False
    then have "findEvictable_loop (i # is) sc oldest result = findEvictable_loop is sc oldest result"
      and "evictable sc i \<longrightarrow> oldest \<le> accessTime sc ! i"
      by (auto simp: evictable_def)
    with Cons[of oldest result] show ?thesis by fastforce
  qed
qed simp

lemma findEvictable_spec:
  assumes "\<forall>j < segCount sc. accessTime sc ! j < 2 ^ 63 - 1"
  shows "if findEvictable sc < 0 then \<forall>j < segCount sc. \<not> evictable sc j
    else \<exists>i < segCount sc. findEvictable sc = int i \<and> evictable sc i
      \<and> (\<forall>j < segCount sc. evictable sc j \<longrightarrow> accessTime sc ! i \<le> accessTime sc ! j)"
  using findEvictable_loop_spec[of "[0..<segCount sc]" sc "2 ^ 63 - 1" "- 1"] assms
  by (fastforce simp: findEvictable_def)

lemma drop_shrinks:
  assumes "i < length (states sc)" "states sc ! i = StateOnDisk"
  shows "on_disk_count (drop_segment i sc) < on_disk_count sc"
proof -
  let ?P = "\<lambda>sc j. states sc ! j = StateOnDisk"
  have "filter (?P (drop_segment i sc)) [0..<length (states sc)]
      = filter (\<lambda>j. j \<noteq> i) (filter (?P sc) [0..<length (states sc)])"
    using assms(1) by (auto simp: nth_list_update intro!: filter_cong)
  moreover have "i \<in> set (filter (?P sc) [0..<length (states sc)])" using assms by simp
  then have "length (filter (\<lambda>j. j \<noteq> i) (filter (?P sc) [0..<length (states sc)]))
      < length (filter (?P sc) [0..<length (states sc)])"
    by (rule length_filter_less) simp
  ultimately show ?thesis
    unfolding on_disk_count_def drop_segment_fields length_list_update by simp
qed

lemma evict_pass_spec:
  assumes "consistent sc" "\<forall>j < segCount sc. accessTime sc ! j < 2 ^ 63 - 1"
  shows "\<exists>sc'. evict_pass sc = Some sc' \<and> consistent sc' \<and> segCount sc' = segCount sc
    \<and> maxDisk sc' = maxDisk sc \<and> pinCounts sc' = pinCounts sc \<and> accessTime sc' = accessTime sc
    \<and> (curDisk sc' \<le> maxDisk sc \<or> (\<forall>i < segCount sc. \<not> evictable sc' i))
    \<and> (\<forall>i < segCount sc. states sc' ! i = states sc ! i \<or> evictable sc i \<and> states sc' ! i = StateEmpty)
    \<and> (\<forall>i < segCount sc. \<forall>j < segCount sc. evictable sc i \<and> states sc' ! i = StateEmpty \<and> evictable sc' j
         \<longrightarrow> accessTime sc ! i \<le> accessTime sc ! j)"
  using assms
proof (induction "on_disk_count sc" arbitrary: sc rule: less_induct)
  case less
  show ?case
  proof (cases "curDisk sc > maxDisk sc \<and> \<not> findEvictable sc < 0")
    case False
    then have "evict_pass sc = Some sc" by (auto simp: evict_pass.simps [of sc] Let_def)
    moreover have "curDisk sc \<le> maxDisk sc \<or> (\<forall>i < segCount sc. \<not> evictable sc i)"
      using False findEvictable_spec[OF less.prems(2)] by (auto split: if_splits)
    ultimately show ?thesis using less.prems(1) by (auto simp: evictable_def)
  next
    case True
    then obtain i where i: "i < segCount sc" "findEvictable sc = int i" "evictable sc i"
      and oldest: "\<And>j. j < segCount sc \<Longrightarrow> evictable sc j \<Longrightarrow> accessTime sc ! i \<le> accessTime sc ! j"
      using findEvictable_spec[OF less.prems(2)] by auto
    let ?sc = "drop_segment i sc"
    have wf: "length (states sc) = segCount sc" using less.prems(1) by (simp add: consistent_def seg_wf_def)
    have on: "onDisk sc ! i" using less.prems(1) i by (simp add: consistent_def evictable_def)
    have ev: "evict_pass sc = evict_pass ?sc"
      using True i by (simp add: evict_pass.simps [of sc] evictFromDisk_def evictable_def)
    have "on_disk_count ?sc < on_disk_count sc"
      using i wf by (intro drop_shrinks) (simp_all add: evictable_def)
    from less.hyps[OF this consistent_drop[OF less.prems(1) i(1) on]] less.prems(2)
    obtain sc' where r: "evict_pass ?sc = Some sc'" "consistent sc'" "segCount sc' = segCount sc"
      "maxDisk sc' = maxDisk sc" "pinCounts sc' = pinCounts sc" "accessTime sc' = accessTime sc"
      "curDisk sc' \<le> maxDisk sc \<or> (\<forall>i < segCount sc. \<not> evictable sc' i)"
      and st: "\<And>j. j < segCount sc \<Longrightarrow> states sc' ! j = states ?sc ! j \<or> evictable ?sc j \<and> states sc' ! j = StateEmpty"
      and lru: "\<And>j k. j < segCount sc \<Longrightarrow> k < segCount sc \<Longrightarrow>
        evictable ?sc j \<and> states sc' ! j = StateEmpty \<and> evictable sc' k \<Longrightarrow> accessTime sc ! j \<le> accessTime sc ! k"
      by auto
    have evq: "evictable ?sc j \<longleftrightarrow> j \<noteq> i \<and> evictable sc j" if "j < segCount sc" for j
      using that wf i(1) by (auto simp: evictable_def nth_list_update)
    have still: "evictable sc k" if "k < segCount sc" "evictable sc' k" for k
      using st[of k] evq[of k] that r(5) wf i(1) by (auto simp: evictable_def nth_list_update split: if_splits)
    have "states sc' ! j = states sc ! j \<or> evictable sc j \<and> states sc' ! j = StateEmpty" if "j < segCount sc" for j
      using st[OF that] evq[OF that] i that wf by (cases "j = i") auto
    moreover have "accessTime sc ! j \<le> accessTime sc ! k"
      if "j < segCount sc" "k < segCount sc" "evictable sc j \<and> states sc' ! j = StateEmpty \<and> evictable sc' k" for j k
      using lru[OF that(1,2)] evq[OF that(1)] oldest[OF that(2)] still[OF that(2)] that(3)
      by (cases "j = i") auto
    ultimately show ?thesis using ev r by auto
  qed
qed

text \<open>Runs of a cache: fetches with whatever the network does, pins, and passes of the evictor.\<close>

datatype cache_op = CFetch int int "attempt list" | CPin nat nat | CUnpin nat nat | CEvict

fun cache_step :: "cache_op \<Rightarrow> segCache \<Rightarrow> segCache" where
  "cache_step (CFetch i now net) sc = (case doFetch sc i now net of None \<Rightarrow> sc | Some (_, sc') \<Rightarrow> sc')"
| "cache_step (CPin a b) sc = PinRange sc a b"
| "cache_step (CUnpin a b) sc = UnpinRange sc a b"
| "cache_step CEvict sc = (case evict_pass sc of None \<Rightarrow> sc | Some sc' \<Rightarrow> sc')"

lemma length_add_pins [simp]: "length (add_pins is d pins) = length pins"
  by (induction "is" arbitrary: pins) simp_all

lemma consistent_pins: "length pins = segCount sc \<Longrightarrow> consistent sc \<Longrightarrow> consistent (sc\<lparr>pinCounts := pins\<rparr>)"
  using usage_cong[of "sc\<lparr>pinCounts := pins\<rparr>" sc] by (simp add: consistent_def seg_wf_def segCount_def)

lemma length_computeOffsets: "length (computeOffsets segs) = length segs + 1"
proof -
  have "length (cumulate segs c) = length segs + 1" for c by (induction segs arbitrary: c) simp_all
  then show ?thesis by (simp add: computeOffsets_def Let_def)
qed

lemma consistent_new: "consistent (NewSegmentCache segs maxd)"
proof -
  have "usage (NewSegmentCache segs maxd) = 0"
    by (simp add: usage_def held_def NewSegmentCache_def segCount_def Let_def)
  then show ?thesis
    by (simp add: consistent_def seg_wf_def NewSegmentCache_def segCount_def length_computeOffsets i64_fits Let_def)
qed

lemma findEvictable_found:
  "\<not> findEvictable sc < 0 \<Longrightarrow> \<exists>i < segCount sc. findEvictable sc = int i \<and> evictable sc i"
  using findEvictable_loop_spec[of "[0..<segCount sc]" sc "2 ^ 63 - 1" "- 1"]
  by (auto simp: findEvictable_def)

lemma evict_pass_consistent:
  assumes "evict_pass sc = Some sc'"
  shows "consistent sc \<longrightarrow> consistent sc'"
proof (rule evict_pass.raw_induct [where P = "\<lambda>sc sc'. consistent sc \<longrightarrow> consistent sc'", OF _ assms])
  fix f sc sc'
  assume IH: "\<And>sc sc'. f sc = Some sc' \<Longrightarrow> consistent sc \<longrightarrow> consistent sc'"
    and f: "(if curDisk sc > maxDisk sc
      then (let idx = findEvictable sc
            in if idx < 0 then Some sc else f (snd (evictFromDisk sc (nat idx)))) else Some sc) = Some sc'"
  show "consistent sc \<longrightarrow> consistent sc'"
  proof (cases "curDisk sc > maxDisk sc \<and> \<not> findEvictable sc < 0")
    case False
    with f show ?thesis by (auto simp: Let_def split: if_splits)
  next
    case True
    then obtain i where i: "i < segCount sc" "findEvictable sc = int i" "evictable sc i"
      using findEvictable_found by blast
    then have "snd (evictFromDisk sc (nat (findEvictable sc))) = drop_segment i sc"
      by (simp add: evictFromDisk_def evictable_def)
    with True f have "f (drop_segment i sc) = Some sc'" by (simp add: Let_def)
    moreover have "consistent sc \<Longrightarrow> consistent (drop_segment i sc)"
      using consistent_drop[of sc i] i by (simp add: consistent_def evictable_def)
    ultimately show ?thesis using IH by blast
  qed
qed

lemma cache_run_consistent: "consistent (fold cache_step ops (NewSegmentCache segs maxd))"
proof -
  have "consistent (cache_step x sc)" if "consistent sc" for x sc
  proof (cases x)
    case (CFetch i now net)
    with consistent_fetch[OF that, of i now net] that show ?thesis by (auto split: option.split)
  next
    case (CPin a b)
    have "length (pinCounts sc) = segCount sc" using that by (simp add: consistent_def seg_wf_def)
    with that CPin show ?thesis by (simp add: PinRange_def consistent_pins)
  next
    case (CUnpin a b)
    have "length (pinCounts sc) = segCount sc" using that by (simp add: consistent_def seg_wf_def)
    with that CUnpin show ?thesis by (simp add: UnpinRange_def consistent_pins)
  next
    case CEvict
    with evict_pass_consistent[of sc] that show ?thesis by (auto split: option.split)
  qed
  then have "consistent sc \<Longrightarrow> consistent (fold cache_step ops sc)" for sc
    by (induction ops arbitrary: sc) simp_all
  then show ?thesis by (simp add: consistent_new)
qed

text \<open>C9. The disk budget is accounted exactly: after any sequence of downloads (successful, failed,
  truncated, retried), pins and eviction passes on a new cache, the counter is the sum of the
  stored sizes of the segments on disk (modulo its 64 bits), and a segment is on disk exactly when
  its state says so.\<close>

theorem disk_accounting_exact:
  fixes ops :: "cache_op list" and segs :: "SegmentMeta list" and maxd :: int
  defines "sc \<equiv> fold cache_step ops (NewSegmentCache segs maxd)"
  shows "curDisk sc = i64 (sum (\<lambda>i. if states sc ! i = StateOnDisk then SegmentDataSize sc (int i) else 0)
      {..<segCount sc})"
proof -
  have c: "consistent sc" unfolding sc_def by (rule cache_run_consistent)
  then have "usage sc = sum (\<lambda>i. if states sc ! i = StateOnDisk then SegmentDataSize sc (int i) else 0)
      {..<segCount sc}"
    unfolding usage_def by (intro sum.cong) (auto simp: held_def consistent_def)
  with c show ?thesis by (simp add: consistent_def)
qed

text \<open>C10. A pass of the evictor, undisturbed, ends; afterwards the budget is met or nothing that is
  left may be evicted; pinned segments keep their state; and it takes the segments in order of
  last access: none that it took was used later than one it left.\<close>

theorem evict_pass_exact:
  assumes "consistent sc" "\<forall>j < segCount sc. accessTime sc ! j < 2 ^ 63 - 1"
  shows "case evict_pass sc of
      None \<Rightarrow> False
    | Some sc' \<Rightarrow> consistent sc'
        \<and> (curDisk sc' \<le> maxDisk sc \<or> (\<forall>i < segCount sc. \<not> evictable sc' i))
        \<and> (\<forall>i < segCount sc. IsPinned sc (int i) \<longrightarrow> states sc' ! i = states sc ! i)
        \<and> (\<forall>i < segCount sc. states sc' ! i = states sc ! i \<or> evictable sc i \<and> states sc' ! i = StateEmpty)
        \<and> (\<forall>i < segCount sc. \<forall>j < segCount sc. evictable sc i \<and> states sc' ! i = StateEmpty \<and> evictable sc' j
             \<longrightarrow> accessTime sc ! i \<le> accessTime sc ! j)"
proof -
  from evict_pass_spec[OF assms] obtain sc' where r: "evict_pass sc = Some sc'"
    "consistent sc'" "curDisk sc' \<le> maxDisk sc \<or> (\<forall>i < segCount sc. \<not> evictable sc' i)"
    and st: "\<forall>i < segCount sc. states sc' ! i = states sc ! i \<or> evictable sc i \<and> states sc' ! i = StateEmpty"
    and lru: "\<forall>i < segCount sc. \<forall>j < segCount sc. evictable sc i \<and> states sc' ! i = StateEmpty \<and> evictable sc' j
         \<longrightarrow> accessTime sc ! i \<le> accessTime sc ! j"
    by blast
  have "\<forall>i < segCount sc. IsPinned sc (int i) \<longrightarrow> states sc' ! i = states sc ! i"
    using st by (auto simp: IsPinned_def evictable_def)
  with r st lru show ?thesis by simp
qed

definition full_cache :: segCache where
  "full_cache =
     fold cache_step
       [CFetch 0 3 [\<lparr>chunks = [[7, 7, 7, 7]], decoded = 4, body_error = None\<rparr>], CFetch 1 9 [demo_attempt]]
       demo_cache"

lemma full_cache_consistent: "consistent full_cache"
  unfolding full_cache_def demo_cache_def by (rule cache_run_consistent)

theorem evict_pass_exact_witness:
  "case evict_pass full_cache of None \<Rightarrow> False | Some sc' \<Rightarrow> consistent sc'"
proof -
  have "segCount full_cache = 2" "accessTime full_cache = [3, 9]" by code_simp+
  then have "\<forall>j < segCount full_cache. accessTime full_cache ! j < 2 ^ 63 - 1"
    by (simp add: less_Suc_eq numeral_2_eq_2)
  from evict_pass_exact[OF full_cache_consistent this] show ?thesis by (auto split: option.splits)
qed

text \<open>
  The evictor beside readers, at the granularity of its atomic operations: the second component is
  the segment whose pin count it has just checked and which it is about to claim.
\<close>

inductive evict_race :: "segCache \<times> nat option \<Rightarrow> segCache \<times> nat option \<Rightarrow> bool" where
  check: "curDisk sc > maxDisk sc \<Longrightarrow> findEvictable sc = int i \<Longrightarrow> \<not> pinCounts sc ! i > 0
    \<Longrightarrow> evict_race (sc, None) (sc, Some i)"
| claim: "states sc ! i = StateOnDisk \<Longrightarrow> evict_race (sc, Some i) (drop_segment i sc, None)"
| claim_fails: "states sc ! i \<noteq> StateOnDisk \<Longrightarrow> evict_race (sc, Some i) (sc, None)"
| pin: "evict_race (sc, c) (PinRange sc a b, c)"
| unpin: "evict_race (sc, c) (UnpinRange sc a b, c)"
| fetch: "doFetch sc i now net = Some (e, sc') \<Longrightarrow> evict_race (sc, c) (sc', c)"

inductive_simps evict_race_idle: "evict_race (sc, None) (sc', Some i)"

text \<open>Checking the pin count again before the compare-and-swap does not close the window, as the
  comment says: a reader that pins the segment between the two finds it on disk, holds its pin, and
  has it evicted under it; its read misses.\<close>

lemma pinned_segment_evicted:
  "evict_race\<^sup>*\<^sup>* (full_cache, None) (drop_segment 0 (PinRange full_cache 0 0), None)
   \<and> GetState (PinRange full_cache 0 0) 0 = StateOnDisk
   \<and> IsPinned (drop_segment 0 (PinRange full_cache 0 0)) 0
   \<and> GetState (drop_segment 0 (PinRange full_cache 0 0)) 0 = StateEmpty
   \<and> fst (seg_Get (drop_segment 0 (PinRange full_cache 0 0)) 0) = None"
proof -
  have "curDisk full_cache > maxDisk full_cache" "findEvictable full_cache = int 0"
    "\<not> pinCounts full_cache ! 0 > 0" by code_simp+
  from check[OF this] have 1: "evict_race (full_cache, None) (full_cache, Some 0)" .
  have 2: "evict_race (full_cache, Some 0) (PinRange full_cache 0 0, Some 0)" by (rule pin)
  have "states (PinRange full_cache 0 0) ! 0 = StateOnDisk" by code_simp
  from claim[OF this]
  have 3: "evict_race (PinRange full_cache 0 0, Some 0) (drop_segment 0 (PinRange full_cache 0 0), None)" .
  from 1 2 3 have "evict_race\<^sup>*\<^sup>* (full_cache, None) (drop_segment 0 (PinRange full_cache 0 0), None)"
    by (meson rtranclp.rtrancl_into_rtrancl rtranclp.rtrancl_refl)
  moreover have "GetState (PinRange full_cache 0 0) 0 = StateOnDisk" by code_simp
  moreover have "IsPinned (drop_segment 0 (PinRange full_cache 0 0)) 0" by code_simp
  moreover have "GetState (drop_segment 0 (PinRange full_cache 0 0)) 0 = StateEmpty" by code_simp
  moreover have "fst (seg_Get (drop_segment 0 (PinRange full_cache 0 0)) 0) = None" by code_simp
  ultimately show ?thesis by blast
qed

text \<open>\<open>Put\<close> over a segment that is already on disk counts it twice: the new length is added and
  the old one is not taken off.\<close>

lemma Put_counts_replaced_twice:
  assumes "consistent sc" "i < segCount sc" "onDisk sc ! i" "\<not> closed sc" "data \<noteq> []"
  shows "case seg_Put sc (int i) data None now of (e, sc') \<Rightarrow>
    e = None \<and> curDisk sc' = i64 (usage sc' + SegmentDataSize sc (int i))"
proof -
  define f where "f = disk_write (diskFile sc) (segOffsets sc ! i) data None"
  define sc' where "sc' = mark_on_disk i (int (length data)) now (sc\<lparr>diskFile := f\<rparr>)"
  have put: "seg_Put sc (int i) data None now = (None, sc')"
    using assms(2,4) by (simp add: seg_Put_def sc'_def f_def Let_def)
  have cnt: "segCount sc' = segCount sc" by (simp add: sc'_def segCount_def)
  have wf: "seg_wf sc" using assms(1) by (simp add: consistent_def)
  have "held sc' j = held sc j" if "j < segCount sc" "j \<noteq> i" for j
    using that by (simp add: held_def SegmentDataSize_def cnt Let_def) (simp add: sc'_def)
  from sum_update[OF assms(2) this] have "usage sc' = usage sc - held sc i + held sc' i"
    unfolding usage_def cnt by simp
  moreover have "held sc' i = int (length data)"
    using assms(2,5) wf by (simp add: held_def SegmentDataSize_def cnt Let_def) (simp add: sc'_def seg_wf_def)
  moreover have "held sc i = SegmentDataSize sc (int i)" using assms(3) by (simp add: held_def)
  moreover have "curDisk sc' = i64 (usage sc + int (length data))"
    using assms(1) by (simp add: sc'_def consistent_def)
  ultimately show ?thesis using put by simp
qed

lemma Put_counts_replaced_twice_witness:
  "case seg_Put full_cache 0 [1, 2] None 11 of (e, sc') \<Rightarrow> e = None \<and> curDisk sc' = i64 (usage sc' + 4)"
proof -
  have "segCount full_cache = 2" "onDisk full_cache ! 0" "\<not> closed full_cache"
    "SegmentDataSize full_cache 0 = 4" by code_simp+
  with Put_counts_replaced_twice[OF full_cache_consistent, of 0 "[1, 2]" 11] show ?thesis by simp
qed

end
