(* ===== verification/Stream_Reader.thy ===== *)
theory Stream_Reader
  imports Segment_Cache "HOL-Library.Signed_Division"
begin

text \<open>
  The reader of a Usenet file, \<open>pkg/usenet/fs/reader/reader.go\<close>, with the parts of \<open>fetcher.go\<close> it calls
  (\<open>Fetch\<close>, \<open>EnsureSegments\<close>, the prefetch queue). A call runs on one goroutine; what it takes from
  outside is in the record \<open>environment\<close>: what the providers deliver for a segment, the clock, what
  other goroutines do to the cache between the wait for a segment and its read, the block cipher
  \<open>aes.NewCipher(key).Decrypt\<close>, and the stale buffer a pool hands out. A result of \<open>None\<close> means that the call waits
  for a segment that another goroutine has to deliver. A read into a buffer takes the buffer's old
  contents and returns the new ones.
\<close>

section \<open>State\<close>

datatype read_error =
    EOF
  | ErrClosedReader
  | SegFailed seg_error
  | Refetch int seg_error
  | StillMissing int
  | ReadIV int read_error
  | ShortIV int
  | DecryptFailed read_error
  | ErrInvalidKeySize
  | ErrInvalidIVSize
  | ErrInvalidData
  | InvalidWhence int
  | SeekBeforeBeginning

record EncryptionConfig =
  Enabled :: bool
  Key :: "byte list"
  IV :: "byte list"

record StreamingReader =
  r_cache :: segCache
  r_prefetchAhead :: int
  r_encryption :: EncryptionConfig
  r_readOffset :: int
  r_closed :: bool
  prefetchCh :: "int list"
  Reads :: int
  BytesRead :: int
  ReadErrors :: int
  PrefetchHits :: int
  PrefetchMisses :: int

record environment =
  net :: "int \<Rightarrow> attempt list"
  clock :: int
  world :: "nat \<Rightarrow> segCache \<Rightarrow> segCache"
  aes :: "byte list \<Rightarrow> byte list \<Rightarrow> byte list"
  pooled :: "byte list"

definition NewStreamingReader :: "SegmentMeta list \<Rightarrow> int \<Rightarrow> int \<Rightarrow> StreamingReader option" where
  "NewStreamingReader segs maxd prefetch =
     (if length segs = 0 then None
      else Some \<lparr>r_cache = NewSegmentCache segs maxd, r_prefetchAhead = prefetch,
        r_encryption = \<lparr>Enabled = False, Key = [], IV = []\<rparr>, r_readOffset = 0, r_closed = False,
        prefetchCh = [], Reads = 0, BytesRead = 0, ReadErrors = 0, PrefetchHits = 0, PrefetchMisses = 0\<rparr>)"

definition NewStreamingReaderWithEncryption ::
  "SegmentMeta list \<Rightarrow> EncryptionConfig \<Rightarrow> int \<Rightarrow> int \<Rightarrow> StreamingReader option" where
  "NewStreamingReaderWithEncryption segs enc maxd prefetch =
     (case NewStreamingReader segs maxd prefetch of
        None \<Rightarrow> None
      | Some sr \<Rightarrow> Some (sr\<lparr>r_encryption := enc\<rparr>))"

section \<open>Fetching\<close>

text \<open>\<open>Fetch\<close> by the goroutine that finds no download of the segment under way.\<close>

definition Fetch :: "environment \<Rightarrow> segCache \<Rightarrow> int \<Rightarrow> (seg_error option \<times> segCache) option" where
  "Fetch E sc segIdx =
     (case GetState sc segIdx of
        StateInMemory \<Rightarrow> Some (None, sc)
      | StateOnDisk \<Rightarrow> Some (None, sc)
      | StateFailed \<Rightarrow> Some (GetError sc segIdx, sc)
      | _ \<Rightarrow> doFetch sc segIdx (clock E) (net E segIdx))"

fun EnsureSegments :: "environment \<Rightarrow> segCache \<Rightarrow> nat list \<Rightarrow> (seg_error option \<times> segCache) option" where
  "EnsureSegments E sc [] = Some (None, sc)"
| "EnsureSegments E sc (i # is) =
     (if GetState sc (int i) \<noteq> StateInMemory \<and> GetState sc (int i) \<noteq> StateOnDisk then
        (case Fetch E sc (int i) of
           None \<Rightarrow> None
         | Some (Some e, sc1) \<Rightarrow> Some (Some e, sc1)
         | Some (None, sc1) \<Rightarrow> EnsureSegments E sc1 is)
      else EnsureSegments E sc is)"

definition QueuePrefetch :: "int \<Rightarrow> StreamingReader \<Rightarrow> StreamingReader" where
  "QueuePrefetch segIdx sr =
     (if GetState (r_cache sr) segIdx \<in> {StateInMemory, StateOnDisk, StateFetching} then sr
      else if length (prefetchCh sr) < 256 then sr\<lparr>prefetchCh := prefetchCh sr @ [segIdx]\<rparr>
      else sr\<lparr>PrefetchMisses := i64 (PrefetchMisses sr + 1)\<rparr>)"

definition QueuePrefetchRange :: "int \<Rightarrow> int \<Rightarrow> StreamingReader \<Rightarrow> StreamingReader" where
  "QueuePrefetchRange startSeg endSeg sr = fold QueuePrefetch [startSeg..endSeg] sr"

text \<open>One turn of \<open>prefetchWorker\<close>; \<open>None\<close>: nothing is queued, or another goroutine is fetching.\<close>

definition prefetchWorker :: "environment \<Rightarrow> StreamingReader \<Rightarrow> StreamingReader option" where
  "prefetchWorker E sr =
     (case prefetchCh sr of
        [] \<Rightarrow> None
      | segIdx # rest \<Rightarrow>
          let sr1 = sr\<lparr>prefetchCh := rest\<rparr>
          in if GetState (r_cache sr) segIdx \<in> {StateInMemory, StateOnDisk}
             then Some (sr1\<lparr>PrefetchHits := i64 (PrefetchHits sr + 1)\<rparr>)
             else (case Fetch E (r_cache sr) segIdx of
                     None \<Rightarrow> None
                   | Some (e, sc) \<Rightarrow> Some (sr1\<lparr>r_cache := sc\<rparr>)))"

section \<open>Plain reads\<close>

text \<open>The loop of \<open>readFromCache\<close> over the segments; \<open>p\<close> is the buffer.\<close>

fun readFromCache ::
  "environment \<Rightarrow> int \<Rightarrow> nat list \<Rightarrow> byte list \<Rightarrow> int \<Rightarrow> segCache
     \<Rightarrow> (int \<times> read_error option \<times> byte list \<times> segCache) option" where
  "readFromCache E off [] p totalRead sc = Some (totalRead, None, p, sc)"
| "readFromCache E off (segIdx # rest) p totalRead sc =
     (case wait_poll sc (int segIdx) of
        None \<Rightarrow> None
      | Some (Some e) \<Rightarrow> Some (totalRead, Some (SegFailed e), p, sc)
      | Some None \<Rightarrow>
          let segStart = SegmentOffset sc (int segIdx);
              segEnd = SegmentOffset sc (int segIdx + 1);
              readStart = max off segStart;
              readEnd = min (i64 (off + int (length p))) segEnd
          in if readStart \<ge> readEnd then readFromCache E off rest p totalRead sc
             else
               let outOffset = nat (readStart - off);
                   segDataOffset = readStart - segStart;
                   copyLen = readEnd - readStart
               in case ReadRangeInto (world E segIdx sc) (int segIdx) segDataOffset copyLen (nat copyLen) of
                    (Some d, sc1) \<Rightarrow>
                      readFromCache E off rest (put_bytes p outOffset d) (totalRead + int (length d)) sc1
                  | (None, sc1) \<Rightarrow>
                      (case Fetch E sc1 (int segIdx) of
                         None \<Rightarrow> None
                       | Some (Some e, sc2) \<Rightarrow> Some (totalRead, Some (Refetch (int segIdx) e), p, sc2)
                       | Some (None, sc2) \<Rightarrow>
                           (case ReadRangeInto sc2 (int segIdx) segDataOffset copyLen (nat copyLen) of
                              (Some d, sc3) \<Rightarrow>
                                readFromCache E off rest (put_bytes p outOffset d) (totalRead + int (length d)) sc3
                            | (None, sc3) \<Rightarrow> Some (totalRead, Some (StillMissing (int segIdx)), p, sc3))))"

definition readAtPlain ::
  "environment \<Rightarrow> byte list \<Rightarrow> int \<Rightarrow> StreamingReader
     \<Rightarrow> (int \<times> read_error option \<times> byte list \<times> StreamingReader) option" where
  "readAtPlain E p off sr =
     (let sc = r_cache sr;
          eofAfter = (i64 (off + int (length p)) > totalSize sc);
          readLen = (if eofAfter then totalSize sc - off else int (length p));
          (startSeg, endSeg) = SegmentsForRange sc off readLen;
          sr1 = sr\<lparr>r_cache := PinRange sc startSeg endSeg\<rparr>;
          prefetchEnd = min (int endSeg + r_prefetchAhead sr) (int (segCount sc) - 1);
          sr2 = (if prefetchEnd > int endSeg then QueuePrefetchRange (int endSeg + 1) prefetchEnd sr1 else sr1)
      in case EnsureSegments E (r_cache sr2) [startSeg..<endSeg + 1] of
           None \<Rightarrow> None
         | Some (Some e, sc1) \<Rightarrow>
             Some (0, Some (SegFailed e), p,
               sr2\<lparr>r_cache := UnpinRange sc1 startSeg endSeg, ReadErrors := i64 (ReadErrors sr2 + 1)\<rparr>)
         | Some (None, sc1) \<Rightarrow>
             (case readFromCache E off [startSeg..<endSeg + 1] (take (nat readLen) p) 0 sc1 of
                None \<Rightarrow> None
              | Some (n, Some e, q, sc2) \<Rightarrow>
                  Some (n, Some e, q @ drop (nat readLen) p,
                    sr2\<lparr>r_cache := UnpinRange sc2 startSeg endSeg, ReadErrors := i64 (ReadErrors sr2 + 1)\<rparr>)
              | Some (n, None, q, sc2) \<Rightarrow>
                  Some (n, if eofAfter \<and> n = readLen then Some EOF else None, q @ drop (nat readLen) p,
                    sr2\<lparr>r_cache := UnpinRange sc2 startSeg endSeg, BytesRead := i64 (BytesRead sr2 + n)\<rparr>)))"

section \<open>Decryption\<close>

text \<open>\<open>CryptBlocks\<close> of \<open>cipher.NewCBCDecrypter\<close>, over whole blocks.\<close>

definition BlockSize :: nat where
  "BlockSize = 16"

function CryptBlocks :: "(byte list \<Rightarrow> byte list) \<Rightarrow> byte list \<Rightarrow> byte list \<Rightarrow> byte list" where
  "CryptBlocks decrypt iv data =
     (if length data < BlockSize then []
      else map2 (\<lambda>x y. xor x y) (decrypt (take BlockSize data)) iv
             @ CryptBlocks decrypt (take BlockSize data) (drop BlockSize data))"
  by pat_completeness auto
termination
  by (relation "measure (\<lambda>(decrypt, iv, data). length data)") (auto simp: BlockSize_def)

declare CryptBlocks.simps [simp del]

definition DecryptBlock ::
  "(byte list \<Rightarrow> byte list \<Rightarrow> byte list) \<Rightarrow> byte list \<Rightarrow> byte list \<Rightarrow> byte list \<Rightarrow> read_error + byte list" where
  "DecryptBlock cipher data key iv =
     (if length data mod BlockSize \<noteq> 0 then Inl ErrInvalidData
      else if length key \<noteq> 32 then Inl ErrInvalidKeySize
      else if length iv \<noteq> BlockSize then Inl ErrInvalidIVSize
      else Inr (CryptBlocks (cipher key) iv data))"

definition computeIVForOffset ::
  "environment \<Rightarrow> int \<Rightarrow> StreamingReader \<Rightarrow> ((read_error + byte list) \<times> StreamingReader) option" where
  "computeIVForOffset E offset sr =
     (let blockOffset = (offset sdiv int BlockSize) * int BlockSize
      in if blockOffset = 0
         then Some (Inr (take BlockSize (IV (r_encryption sr) @ replicate BlockSize 0)), sr)
         else
           let prevBlockOffset = blockOffset - int BlockSize
           in case readAtPlain E (replicate BlockSize 0) prevBlockOffset sr of
                None \<Rightarrow> None
              | Some (n, err, iv, sr1) \<Rightarrow>
                  (case err of
                     Some e \<Rightarrow>
                       if e \<noteq> EOF then Some (Inl (ReadIV prevBlockOffset e), sr1)
                       else if n < int BlockSize then Some (Inl (ShortIV n), sr1)
                       else Some (Inr iv, sr1)
                   | None \<Rightarrow>
                       if n < int BlockSize then Some (Inl (ShortIV n), sr1) else Some (Inr iv, sr1)))"

definition decryptInPlace ::
  "environment \<Rightarrow> byte list \<Rightarrow> int \<Rightarrow> StreamingReader
     \<Rightarrow> ((read_error + byte list) \<times> StreamingReader) option" where
  "decryptInPlace E data offset sr =
     (if length data = 0 then Some (Inr data, sr)
      else if length data mod BlockSize \<noteq> 0 then Some (Inr data, sr)
      else case computeIVForOffset E offset sr of
             None \<Rightarrow> None
           | Some (Inl e, sr1) \<Rightarrow> Some (Inl e, sr1)
           | Some (Inr iv, sr1) \<Rightarrow> Some (DecryptBlock (aes E) data (Key (r_encryption sr1)) iv, sr1))"

definition acquireDecryptionBuffer :: "byte list \<Rightarrow> nat \<Rightarrow> byte list" where
  "acquireDecryptionBuffer pool n = (if length pool < n then replicate n 0 else take n pool)"

text \<open>The padding of a partial last block, as far as the buffer has room.\<close>

definition pad_block :: "byte list \<Rightarrow> nat \<Rightarrow> nat \<times> byte list" where
  "pad_block buf n =
     (let remainder = n mod BlockSize
      in if remainder \<noteq> 0 \<and> length buf \<ge> n + (BlockSize - remainder)
         then (n + (BlockSize - remainder), put_bytes buf n (replicate (BlockSize - remainder) 0))
         else (n, buf))"

definition readAtEncrypted ::
  "environment \<Rightarrow> byte list \<Rightarrow> int \<Rightarrow> StreamingReader
     \<Rightarrow> (int \<times> read_error option \<times> byte list \<times> StreamingReader) option" where
  "readAtEncrypted E p off sr =
     (let alignedStart = (off sdiv int BlockSize) * int BlockSize;
          reqEnd = (let e = i64 (off + int (length p)) in if e > totalSize (r_cache sr) then totalSize (r_cache sr) else e);
          alignedEnd = (let r = reqEnd smod int BlockSize in if r \<noteq> 0 then reqEnd + (int BlockSize - r) else reqEnd);
          buf = acquireDecryptionBuffer (pooled E) (nat (alignedEnd - alignedStart))
      in case readAtPlain E buf alignedStart sr of
           None \<Rightarrow> None
         | Some (n, err, buf, sr1) \<Rightarrow>
             (case (if n > 0 \<and> length (Key (r_encryption sr1)) > 0
                    then (case pad_block buf (nat n) of (decryptedLen, buf) \<Rightarrow>
                           (case decryptInPlace E (take decryptedLen buf) alignedStart sr1 of
                              None \<Rightarrow> None
                            | Some (Inl e, sr2) \<Rightarrow> Some (Inl e, sr2)
                            | Some (Inr data, sr2) \<Rightarrow> Some (Inr (data @ drop decryptedLen buf), sr2)))
                    else Some (Inr buf, sr1)) of
                None \<Rightarrow> None
              | Some (Inl e, sr2) \<Rightarrow> Some (0, Some (DecryptFailed e), p, sr2)
              | Some (Inr buf, sr2) \<Rightarrow>
                  if err \<noteq> None \<and> err \<noteq> Some EOF then Some (0, err, p, sr2)
                  else
                    let validDataEnd = min n (reqEnd - alignedStart);
                        startOffset = off - alignedStart
                    in if startOffset \<ge> validDataEnd then Some (0, err, p, sr2)
                       else
                         let data = take (length p) (take (nat (validDataEnd - startOffset)) (drop (nat startOffset) buf));
                             copied = int (length data);
                             p' = data @ drop (length data) p
                         in if err = Some EOF \<and> length data = length p then Some (copied, None, p', sr2)
                            else Some (copied, err, p', sr2)))"

section \<open>The reader's operations\<close>

definition ReadAt ::
  "environment \<Rightarrow> byte list \<Rightarrow> int \<Rightarrow> StreamingReader
     \<Rightarrow> (int \<times> read_error option \<times> byte list \<times> StreamingReader) option" where
  "ReadAt E p off sr =
     (if r_closed sr then Some (0, Some ErrClosedReader, p, sr)
      else if length p = 0 then Some (0, None, p, sr)
      else if off \<ge> totalSize (r_cache sr) then Some (0, Some EOF, p, sr)
      else
        let sr1 = sr\<lparr>Reads := i64 (Reads sr + 1)\<rparr>
        in if Enabled (r_encryption sr1) then readAtEncrypted E p off sr1 else readAtPlain E p off sr1)"

definition Prefetch :: "int \<Rightarrow> int \<Rightarrow> StreamingReader \<Rightarrow> StreamingReader" where
  "Prefetch off len sr =
     (if r_closed sr then sr
      else if off \<ge> totalSize (r_cache sr) then sr
      else
        let len = (if i64 (off + len) > totalSize (r_cache sr) then totalSize (r_cache sr) - off else len);
            (startSeg, endSeg) = SegmentsForRange (r_cache sr) off len
        in QueuePrefetchRange (int startSeg) (int endSeg) sr)"

definition Read ::
  "environment \<Rightarrow> byte list \<Rightarrow> StreamingReader
     \<Rightarrow> (int \<times> read_error option \<times> byte list \<times> StreamingReader) option" where
  "Read E p sr =
     (if r_closed sr then Some (0, Some ErrClosedReader, p, sr)
      else if length p = 0 then Some (0, None, p, sr)
      else if r_readOffset sr \<ge> totalSize (r_cache sr) then Some (0, Some EOF, p, sr)
      else case ReadAt E p (r_readOffset sr) sr of
             None \<Rightarrow> None
           | Some (n, err, p', sr1) \<Rightarrow>
               Some (n, err, p', if n > 0 then sr1\<lparr>r_readOffset := i64 (r_readOffset sr1 + n)\<rparr> else sr1))"

definition Seek :: "int \<Rightarrow> int \<Rightarrow> StreamingReader \<Rightarrow> (int \<times> read_error option) \<times> StreamingReader" where
  "Seek offset whence sr =
     (if r_closed sr then ((0, Some ErrClosedReader), sr)
      else if whence \<notin> {0, 1, 2} then ((0, Some (InvalidWhence whence)), sr)
      else
        let newPos = (if whence = 0 then offset
                      else if whence = 1 then i64 (r_readOffset sr + offset)
                      else i64 (totalSize (r_cache sr) + offset))
        in if newPos < 0 then ((0, Some SeekBeforeBeginning), sr)
           else
             let newPos = (if newPos > totalSize (r_cache sr) then totalSize (r_cache sr) else newPos)
             in ((newPos, None), sr\<lparr>r_readOffset := newPos\<rparr>))"

definition reader_Size :: "StreamingReader \<Rightarrow> int" where
  "reader_Size sr = totalSize (r_cache sr)"

definition reader_Close :: "StreamingReader \<Rightarrow> StreamingReader" where
  "reader_Close sr = (if r_closed sr then sr else sr\<lparr>r_closed := True, r_cache := seg_Close (r_cache sr)\<rparr>)"

section \<open>A cache that holds parts of a file\<close>

text \<open>The file is the concatenation of \<open>parts\<close>, one per segment; what the cache has on disk of a
  segment is its part, and every segment is on disk or to be downloaded.\<close>

definition start_of :: "byte list list \<Rightarrow> nat \<Rightarrow> int" where
  "start_of parts k = int (length (concat (take k parts)))"

definition frame :: "SegmentMeta list \<Rightarrow> byte list list \<Rightarrow> segCache \<Rightarrow> bool" where
  "frame segs parts sc \<longleftrightarrow> layout_ok sc \<and> segments sc = segs \<and> length parts = length segs \<and> segs \<noteq> []
     \<and> (\<forall>k \<le> length segs. segOffsets sc ! k = start_of parts k)
     \<and> totalSize sc = start_of parts (length segs) \<and> [] \<notin> set parts
     \<and> start_of parts (length segs) < 2 ^ 61"

definition part_ok :: "byte list list \<Rightarrow> segCache \<Rightarrow> nat \<Rightarrow> bool" where
  "part_ok parts sc i \<longleftrightarrow> states sc ! i = StateEmpty
     \<or> states sc ! i = StateOnDisk \<and> onDisk sc ! i \<and> segLengths sc ! i = int (length (parts ! i))
       \<and> pread (diskFile sc) (start_of parts i) (int (length (parts ! i))) = parts ! i"

definition holds_file :: "SegmentMeta list \<Rightarrow> byte list list \<Rightarrow> segCache \<Rightarrow> bool" where
  "holds_file segs parts sc \<longleftrightarrow> frame segs parts sc \<and> (\<forall>i < length segs. part_ok parts sc i)"

text \<open>The providers deliver the file: for each segment one attempt succeeds, after any number that
  fail, and its stream has the segment's part after the header bytes.\<close>

definition fails :: "attempt \<Rightarrow> bool" where
  "fails a \<longleftrightarrow> body_error a \<noteq> None \<or> decoded a = 0"

definition serves :: "SegmentMeta list \<Rightarrow> byte list list \<Rightarrow> (int \<Rightarrow> attempt list) \<Rightarrow> bool" where
  "serves segs parts deliver \<longleftrightarrow> (\<forall>i < length segs. Bytes (segs ! i) = int (length (parts ! i))
     \<and> (\<exists>bad a. deliver (int i) = bad @ [a] \<and> (\<forall>b \<in> set bad. fails b) \<and> \<not> fails a
         \<and> payload (SegmentDataStart (segs ! i)) (Bytes (segs ! i)) (concat (chunks a)) = parts ! i))"

text \<open>Other goroutines may do to the cache what keeps it a cache of the file; of the segments of a read
  in progress they may evict the one that is about to be read (the window the pins leave), not
  others.\<close>

definition calm :: "SegmentMeta list \<Rightarrow> byte list list \<Rightarrow> (nat \<Rightarrow> segCache \<Rightarrow> segCache) \<Rightarrow> bool" where
  "calm segs parts w \<longleftrightarrow> (\<forall>i sc. holds_file segs parts sc \<longrightarrow> holds_file segs parts (w i sc)
     \<and> (\<forall>j < length segs. j \<noteq> i \<and> states sc ! j = StateOnDisk \<longrightarrow> states (w i sc) ! j = StateOnDisk))"

lemma start_of_Suc: "k < length parts \<Longrightarrow> start_of parts (Suc k) = start_of parts k + int (length (parts ! k))"
  by (simp add: start_of_def take_Suc_conv_app_nth)

lemma start_of_mono: "j \<le> k \<Longrightarrow> start_of parts j \<le> start_of parts k"
proof -
  assume "j \<le> k"
  then have "take k parts = take j parts @ take (k - j) (drop j parts)"
    by (metis le_add_diff_inverse take_add)
  then show ?thesis by (simp add: start_of_def)
qed

lemma start_of_0 [simp]: "start_of parts 0 = 0" "0 \<le> start_of parts k"
  by (simp_all add: start_of_def)

lemma start_of_all: "length parts \<le> k \<Longrightarrow> start_of parts k = int (length (concat parts))"
  by (simp add: start_of_def)

lemma part_slice:
  assumes "k < length parts" "d + c \<le> length (parts ! k)"
  shows "take c (drop d (parts ! k)) = take c (drop (nat (start_of parts k) + d) (concat parts))"
proof -
  have "concat parts = concat (take k parts) @ parts ! k @ concat (drop (Suc k) parts)"
    using assms(1) by (metis concat.simps(2) concat_append id_take_nth_drop)
  then show ?thesis using assms(2) by (simp add: start_of_def)
qed

lemma frame_count: "frame segs parts sc \<Longrightarrow> segCount sc = length segs"
  by (simp add: frame_def segCount_def)

lemma frame_lengths:
  assumes "frame segs parts sc"
  shows "length (states sc) = length segs" "length (onDisk sc) = length segs"
    "length (segLengths sc) = length segs" "length (segOffsets sc) = length segs + 1"
    "length (errors sc) = length segs" "length parts = length segs"
  using assms by (auto simp: frame_def layout_ok_def seg_wf_def segCount_def)

lemma frame_disk:
  assumes "frame segs parts sc" "k \<le> length segs"
  shows "nat (start_of parts k) \<le> length (diskFile sc)"
  using layout_offset(3)[of sc k] assms by (simp add: frame_def segCount_def)

lemma frame_wf: "frame segs parts sc \<Longrightarrow> seg_wf sc"
  by (simp add: frame_def layout_ok_def)

lemma frame_part: "frame segs parts sc \<Longrightarrow> i < length segs \<Longrightarrow> parts ! i \<noteq> []"
  by (metis frame_def nth_mem)

lemma frame_upd:
  assumes "frame segs parts sc" "segments sc' = segments sc" "segOffsets sc' = segOffsets sc"
    and "totalSize sc' = totalSize sc" "length (diskFile sc) \<le> length (diskFile sc')" "seg_wf sc'"
  shows "frame segs parts sc'"
  using assms unfolding frame_def layout_ok_def by (auto intro: order_trans)

lemma part_ok_upd:
  assumes "part_ok parts sc i" "states sc' ! i = states sc ! i" "onDisk sc' ! i = onDisk sc ! i"
    and "segLengths sc' ! i = segLengths sc ! i"
    and "pread (diskFile sc') (start_of parts i) (int (length (parts ! i)))
      = pread (diskFile sc) (start_of parts i) (int (length (parts ! i)))"
  shows "part_ok parts sc' i"
  using assms by (simp add: part_ok_def)

lemma put_elsewhere:
  assumes "frame segs parts sc" "i < length segs" "j < length segs" "j \<noteq> i" "length d \<le> length (parts ! i)"
  shows "pread (put_bytes (diskFile sc) (nat (start_of parts i)) d) (start_of parts j) (int (length (parts ! j)))
    = pread (diskFile sc) (start_of parts j) (int (length (parts ! j)))"
proof -
  have lp: "i < length parts" "j < length parts" using assms frame_lengths(6)[OF assms(1)] by simp_all
  have "start_of parts j + int (length (parts ! j)) \<le> start_of parts i
      \<or> start_of parts i + int (length d) \<le> start_of parts j"
  proof (cases "j < i")
    case True
    then show ?thesis using start_of_mono[of "Suc j" i parts] start_of_Suc[OF lp(2)] by simp
  next
    case False
    with assms(4) have "Suc i \<le> j" by simp
    then show ?thesis using start_of_mono[of "Suc i" j parts] start_of_Suc[OF lp(1)] assms(5) by simp
  qed
  moreover have "nat (start_of parts j + int (length (parts ! j))) \<le> length (diskFile sc)"
    using frame_disk[OF assms(1), of "Suc j"] assms(3) start_of_Suc[OF lp(2)] by simp
  ultimately show ?thesis
    using frame_disk[OF assms(1), of i] assms(2) by (intro pread_put_apart) simp_all
qed

section \<open>Fetching a segment of the file\<close>

text \<open>While a segment is being fetched: every other segment is as before.\<close>

definition fetching :: "SegmentMeta list \<Rightarrow> byte list list \<Rightarrow> segCache \<Rightarrow> nat \<Rightarrow> segCache \<Rightarrow> bool" where
  "fetching segs parts sc0 i sc \<longleftrightarrow> frame segs parts sc \<and> (\<forall>j < length segs. j \<noteq> i \<longrightarrow> part_ok parts sc j)
     \<and> states sc = (states sc0)[i := StateFetching] \<and> pinCounts sc = pinCounts sc0"

lemma fetching_put:
  assumes "fetching segs parts sc0 i sc" "i < length segs" "length d \<le> length (parts ! i)"
  shows "fetching segs parts sc0 i (sc\<lparr>diskFile := put_bytes (diskFile sc) (nat (segOffsets sc ! i)) d\<rparr>)"
    (is "fetching _ _ _ _ ?sc")
proof -
  have f: "frame segs parts sc" using assms(1) by (simp add: fetching_def)
  have off: "segOffsets sc ! i = start_of parts i" using f assms(2) by (simp add: frame_def)
  have "frame segs parts ?sc"
    by (rule frame_upd[OF f]) (use frame_wf[OF f] frame_disk[OF f, of i] assms(2) in
      \<open>simp_all add: off length_put_bytes seg_wf_def segCount_def\<close>)
  moreover have "part_ok parts ?sc j" if "j < length segs" "j \<noteq> i" for j
    using assms(1) that put_elsewhere[OF f assms(2) that(1,2) assms(3)]
    by - (rule part_ok_upd[of parts sc j], simp_all add: fetching_def off)
  ultimately show ?thesis using assms(1) by (simp add: fetching_def)
qed

lemma run_attempts_file:
  assumes "fetching segs parts sc0 i sc" "i < length segs" "\<forall>b \<in> set bad. fails b" "\<not> fails a"
    and "Bytes (segs ! i) = int (length (parts ! i))"
    and "payload (SegmentDataStart (segs ! i)) (Bytes (segs ! i)) (concat (chunks a)) = parts ! i"
  shows "\<exists>sc'. run_attempts (bad @ [a]) sc (int i) now = (None, sc') \<and> holds_file segs parts sc'
    \<and> states sc' = (states sc0)[i := StateOnDisk] \<and> pinCounts sc' = pinCounts sc0"
  using assms(1,3)
proof (induction bad arbitrary: sc)
  case (Cons b bs)
  have f: "frame segs parts sc" using Cons.prems by (simp add: fetching_def)
  then have l: "layout_ok sc" "i < segCount sc" "segments sc = segs"
    using assms(2) by (simp_all add: frame_def segCount_def)
  let ?d = "payload (SegmentDataStart (segs ! i)) (Bytes (segs ! i)) (concat (chunks b))"
  let ?sc = "sc\<lparr>diskFile := put_bytes (diskFile sc) (nat (segOffsets sc ! i)) ?d\<rparr>"
  have "length ?d \<le> length (parts ! i)" using assms(5) by (simp add: payload_def)
  then have f': "fetching segs parts sc0 i ?sc" using fetching_put Cons.prems(1) assms(2) by blast
  obtain e where "run_attempt sc (int i) now b = (Some e, ?sc)"
    using run_attempt_spec[OF l(1,2), of now b] Cons.prems(2) l(3) by (auto simp: fails_def split: option.splits)
  then show ?case using Cons.IH[OF f'] Cons.prems(2) by simp
next
  case Nil
  have f: "frame segs parts sc" using Nil by (simp add: fetching_def)
  then have l: "layout_ok sc" "i < segCount sc" "segments sc = segs" "segOffsets sc ! i = start_of parts i"
    using assms(2) by (simp_all add: frame_def segCount_def)
  have ne: "parts ! i \<noteq> []" by (rule frame_part[OF f assms(2)])
  let ?sc = "sc\<lparr>diskFile := put_bytes (diskFile sc) (nat (start_of parts i)) (parts ! i)\<rparr>"
  let ?sc' = "mark_on_disk i (int (length (parts ! i))) now ?sc"
  have fp: "fetching segs parts sc0 i ?sc" using fetching_put[OF Nil(1) assms(2), of "parts ! i"] l(4) by simp
  then have f2: "frame segs parts ?sc" by (simp add: fetching_def)
  note len = frame_lengths[OF f2]
  have "frame segs parts ?sc'"
    by (rule frame_upd[OF f2]) (use frame_wf[OF f2] in \<open>simp_all add: mark_on_disk_def touchSegment_def
      seg_wf_def segCount_def\<close>)
  moreover have "part_ok parts ?sc' j" if "j < length segs" for j
  proof (cases "j = i")
    case True
    then show ?thesis using len that frame_disk[OF f, of i] by (simp add: part_ok_def pread_put)
  next
    case False
    then have "part_ok parts ?sc j" using fp that by (simp add: fetching_def)
    then show ?thesis using False by (simp add: part_ok_def)
  qed
  ultimately have "holds_file segs parts ?sc'" by (simp add: holds_file_def)
  moreover have "run_attempt sc (int i) now a = (None, ?sc')"
    using run_attempt_spec[OF l(1,2), of now a] assms(4,6) l(3,4) ne by (auto simp: fails_def)
  ultimately show ?case using fp by (simp add: fetching_def)
qed

lemma Fetch_file:
  assumes "holds_file segs parts sc" "serves segs parts (net E)" "i < length segs"
  shows "\<exists>sc'. Fetch E sc (int i) = Some (None, sc') \<and> holds_file segs parts sc'
    \<and> states sc' = (states sc)[i := StateOnDisk] \<and> pinCounts sc' = pinCounts sc"
proof -
  have f: "frame segs parts sc" and ok: "part_ok parts sc i" using assms by (simp_all add: holds_file_def)
  have cnt: "i < segCount sc" using f assms(3) frame_count by simp
  from ok consider "states sc ! i = StateOnDisk" | "states sc ! i = StateEmpty" by (auto simp: part_ok_def)
  then show ?thesis
  proof cases
    case 1
    then have "Fetch E sc (int i) = Some (None, sc)" using cnt by (simp add: Fetch_def GetState_def)
    with assms(1) 1 show ?thesis by (metis list_update_id)
  next
    case 2
    let ?sc = "sc\<lparr>states := (states sc)[i := StateFetching]\<rparr>"
    have "frame segs parts ?sc"
      by (rule frame_upd[OF f]) (use frame_wf[OF f] in \<open>simp_all add: seg_wf_def segCount_def\<close>)
    moreover have "part_ok parts ?sc j" if "j < length segs" "j \<noteq> i" for j
      using assms(1) that by - (rule part_ok_upd[of parts sc j], simp_all add: holds_file_def)
    ultimately have fe: "fetching segs parts sc i ?sc" by (simp add: fetching_def)
    from assms(2,3) obtain bad a where net: "net E (int i) = bad @ [a]" "\<forall>b \<in> set bad. fails b" "\<not> fails a"
      "Bytes (segs ! i) = int (length (parts ! i))"
      "payload (SegmentDataStart (segs ! i)) (Bytes (segs ! i)) (concat (chunks a)) = parts ! i"
      by (auto simp: serves_def)
    from run_attempts_file[OF fe assms(3) net(2-5), of "clock E"] obtain sc' where
      run: "run_attempts (bad @ [a]) ?sc (int i) (clock E) = (None, sc')" and
      rest: "holds_file segs parts sc'" "states sc' = (states sc)[i := StateOnDisk]" "pinCounts sc' = pinCounts sc"
      by blast
    have "Fetch E sc (int i) = Some (None, sc')"
      using 2 cnt run net(1) by (simp add: Fetch_def GetState_def doFetch_def GetSegment_def MarkFetching_def)
    with rest show ?thesis by blast
  qed
qed

lemma EnsureSegments_file:
  assumes "serves segs parts (net E)"
  shows "holds_file segs parts sc \<Longrightarrow> set is \<subseteq> {..<length segs} \<Longrightarrow>
    \<exists>sc'. EnsureSegments E sc (is) = Some (None, sc') \<and> holds_file segs parts sc' \<and> pinCounts sc' = pinCounts sc
      \<and> (\<forall>j < length segs. j \<in> set is \<or> states sc ! j = StateOnDisk \<longrightarrow> states sc' ! j = StateOnDisk)"
proof (induction "is" arbitrary: sc)
  case (Cons i xs)
  have i: "i < length segs" using Cons.prems(2) by simp
  have f: "frame segs parts sc" using Cons.prems(1) by (simp add: holds_file_def)
  have gs: "GetState sc (int i) = states sc ! i" using i frame_count[OF f] by (simp add: GetState_def)
  show ?case
  proof (cases "states sc ! i = StateOnDisk")
    case True
    from Cons.IH[OF Cons.prems(1)] Cons.prems(2) obtain sc' where
      "EnsureSegments E sc xs = Some (None, sc')" "holds_file segs parts sc'" "pinCounts sc' = pinCounts sc"
      "\<forall>j < length segs. j \<in> set xs \<or> states sc ! j = StateOnDisk \<longrightarrow> states sc' ! j = StateOnDisk" by auto
    with True gs show ?thesis by (intro exI[of _ sc']) auto
  next
    case False
    with Cons.prems(1) i have e: "states sc ! i = StateEmpty" by (auto simp: holds_file_def part_ok_def)
    from Fetch_file[OF Cons.prems(1) assms i] obtain sc1 where
      sc1: "Fetch E sc (int i) = Some (None, sc1)" "holds_file segs parts sc1"
        "states sc1 = (states sc)[i := StateOnDisk]" "pinCounts sc1 = pinCounts sc" by blast
    from Cons.IH[OF sc1(2)] Cons.prems(2) obtain sc' where
      sc': "EnsureSegments E sc1 xs = Some (None, sc')" "holds_file segs parts sc'" "pinCounts sc' = pinCounts sc1"
        "\<forall>j < length segs. j \<in> set xs \<or> states sc1 ! j = StateOnDisk \<longrightarrow> states sc' ! j = StateOnDisk" by auto
    have "\<forall>j < length segs. j \<in> set (i # xs) \<or> states sc ! j = StateOnDisk \<longrightarrow> states sc' ! j = StateOnDisk"
      using sc'(4) frame_lengths(1)[OF f] unfolding sc1(3)
      by (metis list.set_cases nth_list_update_eq nth_list_update_neq set_ConsD)
    with sc1 sc' e gs show ?thesis by auto
  qed
qed simp

section \<open>Reading the file\<close>

lemma holds_file_upd:
  assumes "holds_file segs parts sc" "segments sc' = segments sc" "segOffsets sc' = segOffsets sc"
    and "totalSize sc' = totalSize sc" "diskFile sc' = diskFile sc" "states sc' = states sc"
    and "onDisk sc' = onDisk sc" "segLengths sc' = segLengths sc" "length (pinCounts sc') = length (pinCounts sc)"
    and "accessTime sc' = accessTime sc" "errors sc' = errors sc"
  shows "holds_file segs parts sc'"
proof -
  have f: "frame segs parts sc" using assms(1) by (simp add: holds_file_def)
  have "frame segs parts sc'"
    by (rule frame_upd[OF f]) (use frame_wf[OF f] assms in \<open>simp_all add: seg_wf_def segCount_def\<close>)
  with assms show ?thesis by (simp add: holds_file_def part_ok_def)
qed

lemma pread_part: "0 \<le> d \<Longrightarrow> 0 \<le> c \<Longrightarrow> d + c \<le> n \<Longrightarrow> 0 \<le> off \<Longrightarrow>
    pread f (off + d) c = take (nat c) (drop (nat d) (pread f off n))"
  by (simp add: pread_def nat_add_distrib drop_take ac_simps min_def nat_le_eq_zle flip: nat_diff_distrib')

lemma ReadRangeInto_hit:
  assumes "holds_file segs parts sc" "i < length segs" "states sc ! i = StateOnDisk"
    and "0 \<le> d" "0 \<le> c" "d + c \<le> int (length (parts ! i))"
  shows "\<exists>h. ReadRangeInto sc (int i) d c (nat c)
    = (Some (take (nat c) (drop (nat d) (parts ! i))), sc\<lparr>hits := h\<rparr>)"
proof -
  have f: "frame segs parts sc" and ok: "part_ok parts sc i" using assms by (simp_all add: holds_file_def)
  have cnt: "i < segCount sc" using frame_count[OF f] assms(2) by simp
  have ne: "parts ! i \<noteq> []" by (rule frame_part[OF f assms(2)])
  have on: "onDisk sc ! i" "segLengths sc ! i = int (length (parts ! i))"
    "pread (diskFile sc) (start_of parts i) (int (length (parts ! i))) = parts ! i"
    using ok assms(3) by (simp_all add: part_ok_def)
  have off: "segOffsets sc ! i = start_of parts i" using f assms(2) by (simp add: frame_def)
  have lp: "i < length parts" using frame_lengths(6)[OF f] assms(2) by simp
  have tot: "start_of parts (Suc i) \<le> start_of parts (length segs)" "start_of parts (length segs) < 2 ^ 62"
    using start_of_mono[of "Suc i" "length segs" parts] assms(2) f by (simp_all add: frame_def)
  then have small: "start_of parts i + int (length (parts ! i)) < 2 ^ 62" by (simp add: start_of_Suc[OF lp])
  have size: "SegmentDataSize sc (int i) = int (length (parts ! i))"
    using cnt on(2) ne by (simp add: SegmentDataSize_def)
  have i1: "i64 (d + c) = d + c" and i2: "i64 (start_of parts i + d) = start_of parts i + d"
  proof -
    have "i64 (d + c) = d + c \<and> i64 (z + d) = z + d" if "0 \<le> z" "z + int (length (parts ! i)) < 2 ^ 62" for z
      using that assms(4-6) by (simp add: i64_fits)
    then show "i64 (d + c) = d + c" "i64 (start_of parts i + d) = start_of parts i + d"
      using small start_of_0(2) by blast+
  qed
  have "loadRangeFromDiskInto sc i d c (nat c) = Inr (take (nat c) (drop (nat d) (parts ! i)))"
    using on(1) assms(4-6) pread_part[of d c "int (length (parts ! i))" "start_of parts i" "diskFile sc"]
    by (simp add: loadRangeFromDiskInto_def size i1 i2 off on(3) Let_def)
  with cnt assms(3) show ?thesis
    by (intro exI[of _ "i64 (hits sc + 1)"]) (simp add: ReadRangeInto_def count_read_def)
qed

text \<open>A segment that was evicted before its read: a counted miss.\<close>

lemma ReadRangeInto_miss:
  assumes "holds_file segs parts sc" "i < length segs" "states sc ! i = StateEmpty"
  shows "\<exists>h. ReadRangeInto sc (int i) d c n = (None, sc\<lparr>misses := h\<rparr>)"
  using assms frame_count[of segs parts sc] by (auto simp: ReadRangeInto_def count_read_def holds_file_def)

lemma holds_file_hits [simp]:
  "holds_file segs parts sc \<Longrightarrow> holds_file segs parts (sc\<lparr>hits := h\<rparr>)"
  "holds_file segs parts sc \<Longrightarrow> holds_file segs parts (sc\<lparr>misses := h\<rparr>)"
  by (erule holds_file_upd; simp)+

text \<open>One segment of a read: from the cache, or fetched again.\<close>

lemma read_segment:
  fixes E :: environment
  assumes "calm segs parts (world E)" "serves segs parts (net E)" "holds_file segs parts sc" "i < length segs"
    and "states sc ! i = StateOnDisk" "0 \<le> d" "0 \<le> c" "d + c \<le> int (length (parts ! i))"
  obtains sc' where "holds_file segs parts sc'"
    and "\<And>j. j < length segs \<Longrightarrow> j \<noteq> i \<Longrightarrow> states sc ! j = StateOnDisk \<Longrightarrow> states sc' ! j = StateOnDisk"
    and "(ReadRangeInto (world E i sc) (int i) d c (nat c) = (Some (take (nat c) (drop (nat d) (parts ! i))), sc'))
      \<or> (\<exists>sc1 sc2. ReadRangeInto (world E i sc) (int i) d c (nat c) = (None, sc1)
          \<and> Fetch E sc1 (int i) = Some (None, sc2)
          \<and> ReadRangeInto sc2 (int i) d c (nat c) = (Some (take (nat c) (drop (nat d) (parts ! i))), sc'))"
proof -
  let ?w = "world E i sc"
  have w: "holds_file segs parts ?w"
    "\<And>j. j < length segs \<Longrightarrow> j \<noteq> i \<Longrightarrow> states sc ! j = StateOnDisk \<Longrightarrow> states ?w ! j = StateOnDisk"
    using assms(1,3) by (auto simp: calm_def)
  from w(1) assms(4) consider "states ?w ! i = StateOnDisk" | "states ?w ! i = StateEmpty"
    by (auto simp: holds_file_def part_ok_def)
  then show thesis
  proof cases
    case 1
    with ReadRangeInto_hit[OF w(1) assms(4) _ assms(6-8)] obtain h where
      "ReadRangeInto ?w (int i) d c (nat c) = (Some (take (nat c) (drop (nat d) (parts ! i))), ?w\<lparr>hits := h\<rparr>)" by blast
    with w show thesis by (intro that[of "?w\<lparr>hits := h\<rparr>"]) simp_all
  next
    case 2
    with ReadRangeInto_miss[OF w(1) assms(4)] obtain h where
      miss: "ReadRangeInto ?w (int i) d c (nat c) = (None, ?w\<lparr>misses := h\<rparr>)" by blast
    have w1: "holds_file segs parts (?w\<lparr>misses := h\<rparr>)" using w(1) by simp
    from Fetch_file[OF w1 assms(2,4)] obtain sc2 where
      sc2: "Fetch E (?w\<lparr>misses := h\<rparr>) (int i) = Some (None, sc2)" "holds_file segs parts sc2"
        "states sc2 = (states ?w)[i := StateOnDisk]" by auto
    have len: "length (states ?w) = length segs" using w(1) frame_lengths(1)[of segs parts ?w] by (simp add: holds_file_def)
    have "states sc2 ! i = StateOnDisk" using sc2(3) len assms(4) by simp
    from ReadRangeInto_hit[OF sc2(2) assms(4) this assms(6-8)] obtain h' where
      "ReadRangeInto sc2 (int i) d c (nat c) = (Some (take (nat c) (drop (nat d) (parts ! i))), sc2\<lparr>hits := h'\<rparr>)"
      by blast
    with miss sc2 w(2) len show thesis by (intro that[of "sc2\<lparr>hits := h'\<rparr>"]) (auto simp: nth_list_update)
  qed
qed

text \<open>How many bytes of the buffer are filled when the segments before \<open>k\<close> have been read.\<close>

definition filled :: "byte list list \<Rightarrow> int \<Rightarrow> nat \<Rightarrow> nat \<Rightarrow> nat" where
  "filled parts off len k = nat (min (int len) (max 0 (start_of parts k - off)))"

definition buffer_at :: "byte list list \<Rightarrow> int \<Rightarrow> byte list \<Rightarrow> nat \<Rightarrow> byte list" where
  "buffer_at parts off p t = take t (drop (nat off) (concat parts)) @ drop t p"

lemma buffer_step:
  assumes "k < length parts" "0 \<le> off" "off + int (length p) \<le> int (length (concat parts))"
    and "max off (start_of parts k) < min (off + int (length p)) (start_of parts (Suc k))"
  defines "a \<equiv> max off (start_of parts k)" and "b \<equiv> min (off + int (length p)) (start_of parts (Suc k))"
  defines "d \<equiv> take (nat (b - a)) (drop (nat (a - start_of parts k)) (parts ! k))"
  shows "put_bytes (buffer_at parts off p (filled parts off (length p) k)) (nat (a - off)) d
      = buffer_at parts off p (filled parts off (length p) (Suc k))"
    and "int (filled parts off (length p) k) + int (length d) = int (filled parts off (length p) (Suc k))"
    and "a - start_of parts k + (b - a) \<le> int (length (parts ! k))"
proof -
  let ?F = "concat parts" and ?t = "filled parts off (length p) k" and ?t' = "filled parts off (length p) (Suc k)"
  note S = start_of_Suc[OF assms(1)]
  show fits: "a - start_of parts k + (b - a) \<le> int (length (parts ! k))" using S by (simp add: b_def)
  have ab: "a < b" using assms(4) by (simp add: a_def b_def)
  have t: "?t = nat (a - off)" "int ?t' = b - off" "?t \<le> ?t'" "?t' \<le> length p"
    using assms(2,4) S by (auto simp: filled_def a_def b_def)
  have ld: "length d = nat (b - a)" using fits ab by (auto simp: d_def a_def)
  have "start_of parts k \<le> a" by (simp add: a_def)
  then have "nat (a - start_of parts k) + nat (b - a) \<le> length (parts ! k)" using fits ab by linarith
  from part_slice[OF assms(1) this] have "d = take (nat (b - a)) (drop (nat (start_of parts k) + nat (a - start_of parts k)) ?F)"
    by (simp add: d_def)
  moreover have "nat (start_of parts k) + nat (a - start_of parts k) = nat a"
    using \<open>start_of parts k \<le> a\<close> by (simp flip: nat_add_distrib)
  ultimately have d: "d = take (nat (b - a)) (drop (nat a) ?F)" by simp
  show "int ?t + int (length d) = int ?t'" using t ld ab by (auto simp: a_def)
  have tt: "?t' = ?t + nat (b - a)" using t ab by (auto simp: a_def)
  have na: "nat a = nat off + ?t" using t(1) assms(2) by (simp add: a_def)
  have room: "nat off + ?t' \<le> length ?F" using assms(2,3) t(4) by linarith
  have "d \<noteq> []" using ld ab by auto
  moreover have "length (take ?t (drop (nat off) ?F)) = ?t" using room t(3) by simp
  ultimately have put: "put_bytes (buffer_at parts off p ?t) ?t d = take ?t (drop (nat off) ?F) @ d @ drop ?t' p"
    using ld tt by (simp add: put_bytes_def buffer_at_def add.commute)
  have "take ?t (drop (nat off) ?F) @ d = take ?t' (drop (nat off) ?F)"
    by (simp only: d na tt take_add drop_drop add.commute[of "nat off"])
  with put show "put_bytes (buffer_at parts off p ?t) (nat (a - off)) d = buffer_at parts off p ?t'"
    unfolding t(1)[symmetric] by (simp add: buffer_at_def)
qed

lemma filled_skip:
  "min (off + int len) (start_of parts (Suc k)) \<le> max off (start_of parts k) \<Longrightarrow>
   filled parts off len (Suc k) = filled parts off len k"
  using start_of_mono[of k "Suc k" parts] by (auto simp: filled_def min_def max_def)

lemma length_buffer_at [simp]:
  "t \<le> length p \<Longrightarrow> 0 \<le> off \<Longrightarrow> off + int (length p) \<le> int (length (concat parts)) \<Longrightarrow>
   length (buffer_at parts off p t) = length p"
  by (simp add: buffer_at_def)

lemma filled_le: "filled parts off len k \<le> len"
  by (auto simp: filled_def)

lemma readFromCache_file:
  assumes "calm segs parts (world E)" "serves segs parts (net E)"
    and "0 \<le> off" "off + int (length p) \<le> int (length (concat parts))"
  shows "holds_file segs parts sc \<Longrightarrow> k \<le> e \<Longrightarrow> e \<le> length segs \<Longrightarrow>
    \<forall>j. k \<le> j \<and> j < e \<longrightarrow> states sc ! j = StateOnDisk \<Longrightarrow>
    \<exists>sc'. holds_file segs parts sc' \<and>
      readFromCache E off [k..<e] (buffer_at parts off p (filled parts off (length p) k))
        (int (filled parts off (length p) k)) sc
      = Some (int (filled parts off (length p) e), None, buffer_at parts off p (filled parts off (length p) e), sc')"
proof (induction "e - k" arbitrary: k sc)
  case 0
  then show ?case by auto
next
  case (Suc m)
  have k: "k < e" "k < length segs" using Suc.hyps(2) Suc.prems(3) by simp_all
  have f: "frame segs parts sc" using Suc.prems(1) by (simp add: holds_file_def)
  have lp: "k < length parts" using k frame_lengths(6)[OF f] by simp
  have cnt: "segCount sc = length segs" by (rule frame_count[OF f])
  have offs: "SegmentOffset sc (int k) = start_of parts k" "SegmentOffset sc (int k + 1) = start_of parts (Suc k)"
    using f k cnt by (simp_all add: SegmentOffset_def frame_def nat_add_distrib)
  have small: "start_of parts (length segs) < 2 ^ 62" "start_of parts (length segs) = int (length (concat parts))"
    using f frame_lengths(6)[OF f] by (simp_all add: frame_def start_of_all)
  then have e64: "i64 (off + int (length p)) = off + int (length p)" using assms(3,4) by (simp add: i64_fits)
  have on: "states sc ! k = StateOnDisk" using Suc.prems(4) k by blast
  then have wait: "wait_poll sc (int k) = Some None" using k cnt by (simp add: wait_poll_def)
  let ?t = "filled parts off (length p)" and ?b = "buffer_at parts off p"
  have lb: "length (?b (?t k)) = length p" using assms(3,4) filled_le by simp
  have m: "m = e - Suc k" "Suc k \<le> e" using Suc.hyps(2) by simp_all
  have upt: "[k..<e] = k # [Suc k..<e]" using k by (simp add: upt_conv_Cons)
  show ?case
  proof (cases "min (off + int (length p)) (start_of parts (Suc k)) \<le> max off (start_of parts k)")
    case True
    from Suc.hyps(1)[OF m(1) Suc.prems(1) m(2) Suc.prems(3)] Suc.prems(4) show ?thesis
      by (simp add: upt wait offs e64 lb True filled_skip[OF True] Let_def)
  next
    case False
    define a where "a = max off (start_of parts k)"
    define b where "b = min (off + int (length p)) (start_of parts (Suc k))"
    have ab: "a < b" using False by (simp only: a_def b_def not_le)
    let ?d = "take (nat (b - a)) (drop (nat (a - start_of parts k)) (parts ! k))"
    note step = buffer_step[OF lp assms(3,4) False[unfolded not_le], folded a_def b_def]
    have "0 \<le> a - start_of parts k" "0 \<le> b - a" using ab by (simp_all add: a_def)
    from read_segment[OF assms(1,2) Suc.prems(1) k(2) on this step(3)] obtain sc' where
      sc': "holds_file segs parts sc'"
      "\<And>j. j < length segs \<Longrightarrow> j \<noteq> k \<Longrightarrow> states sc ! j = StateOnDisk \<Longrightarrow> states sc' ! j = StateOnDisk"
      and rd: "ReadRangeInto (world E k sc) (int k) (a - start_of parts k) (b - a) (nat (b - a)) = (Some ?d, sc')
      \<or> (\<exists>sc1 sc2. ReadRangeInto (world E k sc) (int k) (a - start_of parts k) (b - a) (nat (b - a)) = (None, sc1)
          \<and> Fetch E sc1 (int k) = Some (None, sc2)
          \<and> ReadRangeInto sc2 (int k) (a - start_of parts k) (b - a) (nat (b - a)) = (Some ?d, sc'))" by blast
    have "readFromCache E off [k..<e] (?b (?t k)) (int (?t k)) sc
        = readFromCache E off [Suc k..<e] (?b (?t (Suc k))) (int (?t (Suc k))) sc'"
      using rd ab step(1,2) by (auto simp: upt wait offs e64 lb Let_def simp flip: a_def b_def)
    moreover have "\<forall>j. Suc k \<le> j \<and> j < e \<longrightarrow> states sc' ! j = StateOnDisk"
      using sc'(2) Suc.prems(3,4) by simp
    ultimately show ?thesis using Suc.hyps(1)[OF m(1) sc'(1) m(2) Suc.prems(3)] by simp
  qed
qed

lemma holds_file_pins [simp]:
  "holds_file segs parts sc \<Longrightarrow> holds_file segs parts (PinRange sc a b)"
  "holds_file segs parts sc \<Longrightarrow> holds_file segs parts (UnpinRange sc a b)"
  by (erule holds_file_upd; simp add: PinRange_def UnpinRange_def)+

lemma QueuePrefetch_keeps [simp]:
  "r_cache (QueuePrefetch i sr) = r_cache sr" "r_encryption (QueuePrefetch i sr) = r_encryption sr"
  "r_readOffset (QueuePrefetch i sr) = r_readOffset sr" "r_closed (QueuePrefetch i sr) = r_closed sr"
  by (simp_all add: QueuePrefetch_def)

lemma QueuePrefetchRange_keeps [simp]:
  "r_cache (QueuePrefetchRange a b sr) = r_cache sr" "r_encryption (QueuePrefetchRange a b sr) = r_encryption sr"
  "r_readOffset (QueuePrefetchRange a b sr) = r_readOffset sr" "r_closed (QueuePrefetchRange a b sr) = r_closed sr"
proof -
  have "r_cache (fold QueuePrefetch xs sr) = r_cache sr \<and> r_encryption (fold QueuePrefetch xs sr) = r_encryption sr
    \<and> r_readOffset (fold QueuePrefetch xs sr) = r_readOffset sr \<and> r_closed (fold QueuePrefetch xs sr) = r_closed sr"
    for xs by (induction xs arbitrary: sr) simp_all
  then show "r_cache (QueuePrefetchRange a b sr) = r_cache sr" "r_encryption (QueuePrefetchRange a b sr) = r_encryption sr"
    "r_readOffset (QueuePrefetchRange a b sr) = r_readOffset sr" "r_closed (QueuePrefetchRange a b sr) = r_closed sr"
    by (simp_all add: QueuePrefetchRange_def)
qed

text \<open>The segments of a range inside the file: their first starts at or before it, their last ends at
  or after its end.\<close>

lemma range_segments:
  assumes "holds_file segs parts sc" "0 \<le> off" "0 < len" "off + len \<le> int (length (concat parts))"
  obtains a b where "SegmentsForRange sc off len = (a, b)" "a \<le> b" "b < length segs"
    "start_of parts a \<le> off" "off + len \<le> start_of parts (Suc b)"
proof -
  have f: "frame segs parts sc" using assms(1) by (simp add: holds_file_def)
  then have l: "layout_ok sc" "segCount sc = length segs" "0 < segCount sc"
    by (simp_all add: frame_def segCount_def)
  have off: "segOffsets sc ! k = start_of parts k" if "k \<le> length segs" for k using f that by (simp add: frame_def)
  have all: "start_of parts (length segs) = int (length (concat parts))"
    using frame_lengths(6)[OF f] by (simp add: start_of_all)
  obtain a b where ab: "SegmentsForRange sc off len = (a, b)" by fastforce
  from SegmentsForRange_spec[OF l(1,3) _ assms(3), of off] ab l(2) off all assms(2,4)
  have spec: "a \<le> b" "b < length segs"
    and mem: "\<And>i. i < length segs \<Longrightarrow> a \<le> i \<and> i \<le> b \<longleftrightarrow> start_of parts i < off + len \<and> off < start_of parts (Suc i)"
    by auto
  have "start_of parts a \<le> off"
  proof (cases a)
    case (Suc a')
    show ?thesis
    proof (rule ccontr)
      assume "\<not> start_of parts a \<le> off"
      moreover have "start_of parts a' \<le> start_of parts a" by (rule start_of_mono) (simp add: Suc)
      moreover have "start_of parts a < off + len" using mem[of a] spec by simp
      ultimately have "a \<le> a'" using mem[of a'] spec Suc by simp
      with Suc show False by simp
    qed
  qed (use assms(2) in simp)
  moreover have "off + len \<le> start_of parts (Suc b)"
  proof (rule ccontr)
    assume no: "\<not> off + len \<le> start_of parts (Suc b)"
    then have "Suc b < length segs" using spec(2) all assms(4) by (metis Suc_lessI)
    moreover have "off < start_of parts (Suc (Suc b))"
      using mem[of b] spec start_of_mono[of "Suc b" "Suc (Suc b)" parts] by simp
    ultimately show False using mem[of "Suc b"] no by simp
  qed
  ultimately show thesis using ab spec that by blast
qed

lemma readAtPlain_file:
  fixes E :: environment
  assumes "calm segs parts (world E)" "serves segs parts (net E)" "holds_file segs parts (r_cache sr)"
    and "0 \<le> off" "off < int (length (concat parts))" "p \<noteq> []" "int (length p) < 2 ^ 62"
  defines "n \<equiv> min (length p) (length (concat parts) - nat off)"
  shows "\<exists>sr'. readAtPlain E p off sr = Some (int n,
        if off + int (length p) > int (length (concat parts)) then Some EOF else None,
        take n (drop (nat off) (concat parts)) @ drop n p, sr')
      \<and> holds_file segs parts (r_cache sr') \<and> r_encryption sr' = r_encryption sr
      \<and> r_readOffset sr' = r_readOffset sr \<and> r_closed sr' = r_closed sr"
proof -
  let ?sc = "r_cache sr" and ?F = "concat parts"
  have f: "frame segs parts ?sc" using assms(3) by (simp add: holds_file_def)
  have tot: "totalSize ?sc = int (length ?F)" "int (length ?F) < 2 ^ 62"
    using f frame_lengths(6)[OF f] by (simp_all add: frame_def start_of_all)
  have e64: "i64 (off + int (length p)) = off + int (length p)" using assms(4,5,7) tot(2) by (simp add: i64_fits)
  define eof where "eof \<longleftrightarrow> off + int (length p) > int (length ?F)"
  have len: "(if eof then int (length ?F) - off else int (length p)) = int n"
    using assms(4,5) by (auto simp: n_def eof_def)
  have n: "0 < int n" "off + int n \<le> int (length ?F)" "n \<le> length p"
    using assms(4-6) by (auto simp: n_def)
  from range_segments[OF assms(3,4) n(1,2)] obtain a b where
    ab: "SegmentsForRange ?sc off (int n) = (a, b)" "a \<le> b" "b < length segs"
      "start_of parts a \<le> off" "off + int n \<le> start_of parts (Suc b)" by blast
  define sr1 where "sr1 = sr\<lparr>r_cache := PinRange ?sc a b\<rparr>"
  define pe where "pe = min (int b + r_prefetchAhead sr) (int (segCount ?sc) - 1)"
  define sr2 where "sr2 = (if pe > int b then QueuePrefetchRange (int b + 1) pe sr1 else sr1)"
  have sr2: "r_cache sr2 = PinRange ?sc a b" "r_encryption sr2 = r_encryption sr"
    "r_readOffset sr2 = r_readOffset sr" "r_closed sr2 = r_closed sr"
    by (simp_all add: sr2_def sr1_def)
  have pins: "holds_file segs parts (PinRange ?sc a b)" using assms(3) by simp
  from EnsureSegments_file[OF assms(2) pins, of "[a..<Suc b]"] ab(2,3) obtain sc1 where
    sc1: "EnsureSegments E (PinRange ?sc a b) [a..<Suc b] = Some (None, sc1)" "holds_file segs parts sc1"
      "\<forall>j < length segs. j \<in> set [a..<Suc b] \<longrightarrow> states sc1 ! j = StateOnDisk" by fastforce
  have on: "\<forall>j. a \<le> j \<and> j < Suc b \<longrightarrow> states sc1 ! j = StateOnDisk" using sc1(3) ab(3) by (metis atLeastLessThan_iff atLeastLessThan_upt less_Suc_eq_le order_le_less_trans)
  have lt: "length (take n p) = n" using n(3) by simp
  have start: "filled parts off n a = 0" "filled parts off n (Suc b) = n"
    using ab(4,5) by (auto simp: filled_def)
  from readFromCache_file[OF assms(1,2,4), of "take n p" sc1 a "Suc b"] n(2,3) sc1(2) ab(2,3) on obtain sc2 where
    sc2: "holds_file segs parts sc2"
      "readFromCache E off [a..<Suc b] (take n p) 0 sc1 = Some (int n, None, take n (drop (nat off) ?F), sc2)"
    by (auto simp: lt start buffer_at_def)
  have "readAtPlain E p off sr = Some (int n, if eof then Some EOF else None, take n (drop (nat off) ?F) @ drop n p,
      sr2\<lparr>r_cache := UnpinRange sc2 a b, BytesRead := i64 (BytesRead sr2 + int n)\<rparr>)"
    by (simp only: readAtPlain_def Let_def e64 tot(1) eof_def[symmetric] len ab(1) prod.case sr1_def[symmetric]
        pe_def[symmetric] sr2_def[symmetric] sr2(1) sc1(1)[unfolded Suc_eq_plus1] sc2(2)[unfolded Suc_eq_plus1]
        option.case nat_int simp_thms if_True refl)
  then show ?thesis using sr2 sc2(1) by (simp add: eof_def)
qed

section \<open>Random access into the decryption\<close>

definition block_cipher :: "(byte list \<Rightarrow> byte list) \<Rightarrow> bool" where
  "block_cipher D \<longleftrightarrow> (\<forall>b. length b = BlockSize \<longrightarrow> length (D b) = BlockSize)"

text \<open>The block that decryption after \<open>a\<close> starts from.\<close>

definition chain :: "byte list \<Rightarrow> byte list \<Rightarrow> byte list" where
  "chain iv a = (if a = [] then iv else drop (length a - BlockSize) a)"

lemma CryptBlocks_Nil [simp]: "CryptBlocks D iv [] = []"
  by (simp add: CryptBlocks.simps[of D iv "[]"] BlockSize_def)

lemma length_CryptBlocks:
  "block_cipher D \<Longrightarrow> length iv = BlockSize \<Longrightarrow> length data mod BlockSize = 0 \<Longrightarrow>
   length (CryptBlocks D iv data) = length data"
proof (induction D iv data rule: CryptBlocks.induct)
  case (1 D iv data)
  note assms = 1(2)
  show ?case
  proof (cases "length data < BlockSize")
    case True
    with 1(4) show ?thesis by (simp add: CryptBlocks.simps[of D iv data])
  next
    case False
    then have "length (drop BlockSize data) mod BlockSize = 0" using 1(4) by (simp add: mod_if[of "length data"] BlockSize_def)
    moreover have "length (D (take BlockSize data)) = BlockSize"
      using False assms by (simp add: block_cipher_def min_def)
    ultimately show ?thesis using 1 False by (simp add: CryptBlocks.simps[of D iv data])
  qed
qed

lemma CryptBlocks_append:
  "length a mod BlockSize = 0 \<Longrightarrow> CryptBlocks D iv (a @ b) = CryptBlocks D iv a @ CryptBlocks D (chain iv a) b"
proof (induction "length a" arbitrary: a iv rule: less_induct)
  case less
  show ?case
  proof (cases "a = []")
    case True
    then show ?thesis by (simp add: chain_def)
  next
    case False
    with less.prems have ge: "BlockSize \<le> length a" by (metis leI length_0_conv mod_less)
    let ?x = "take BlockSize a" and ?a = "drop BlockSize a"
    have "length ?a mod BlockSize = 0" "length ?a < length a"
      using ge less.prems False by (simp_all add: mod_if[of "length a"] BlockSize_def)
    note ih = less.hyps[OF this(2,1), of ?x]
    have "2 * BlockSize \<le> length a" if "length a \<noteq> BlockSize"
      using less.prems ge that by (simp add: BlockSize_def) presburger
    then have "chain ?x ?a = chain iv a"
      using False ge by (auto simp: chain_def mult_2)
    with ih ge show ?thesis
      by (simp add: CryptBlocks.simps[of D iv "a @ b"] CryptBlocks.simps[of D iv a])
  qed
qed

text \<open>Decrypting a run of whole blocks with the block before it gives that part of the whole decryption.\<close>

lemma CryptBlocks_random_access:
  assumes "block_cipher D" "length iv = BlockSize" "s mod BlockSize = 0" "m mod BlockSize = 0"
    and "length c mod BlockSize = 0" "s + m \<le> length c"
  shows "CryptBlocks D (if s = 0 then iv else take BlockSize (drop (s - BlockSize) c)) (take m (drop s c))
    = take m (drop s (CryptBlocks D iv c))"
proof -
  define a where "a = take s c"
  define b where "b = take m (drop s c)"
  define r where "r = drop (s + m) c"
  have c: "c = a @ b @ r" by (simp add: a_def b_def r_def add.commute flip: take_add drop_drop)
  have la: "length a = s" and lb: "length b = m" using assms(6) by (simp_all add: a_def b_def)
  have iv: "chain iv a = (if s = 0 then iv else take BlockSize (drop (s - BlockSize) c))"
  proof (cases "s = 0")
    case False
    then have "BlockSize \<le> s" using assms(3) by (metis leI mod_less)
    then show ?thesis using False la by (simp add: chain_def c) (auto simp: a_def)
  qed (use la in \<open>simp add: chain_def\<close>)
  have lc: "length (chain iv a) = BlockSize"
    using assms(2,3) la by (auto simp: chain_def dest: dvd_imp_le)
  have "CryptBlocks D iv c = CryptBlocks D iv a @ CryptBlocks D (chain iv a) b @ CryptBlocks D (chain (chain iv a) b) r"
    unfolding c using CryptBlocks_append[of a] CryptBlocks_append[of b] assms(3,4) la lb by simp
  moreover have "length (CryptBlocks D iv a) = s" "length (CryptBlocks D (chain iv a) b) = m"
    using length_CryptBlocks[OF assms(1)] assms(2-4) la lb lc by simp_all
  ultimately show ?thesis by (simp add: b_def[symmetric] iv)
qed

text \<open>The encrypted file, its last block filled with zeros, and its decryption as a whole.\<close>

definition cipher_blocks :: "byte list list \<Rightarrow> byte list" where
  "cipher_blocks parts = (let c = concat parts; r = length c mod BlockSize
     in if r = 0 then c else c @ replicate (BlockSize - r) 0)"

definition plaintext :: "environment \<Rightarrow> EncryptionConfig \<Rightarrow> byte list list \<Rightarrow> byte list" where
  "plaintext E enc parts = CryptBlocks (aes E (Key enc)) (IV enc) (cipher_blocks parts)"

lemma length_cipher_blocks:
  "length (cipher_blocks parts) mod BlockSize = 0" "length (concat parts) \<le> length (cipher_blocks parts)"
  "length (cipher_blocks parts) < length (concat parts) + BlockSize"
  by (auto simp: cipher_blocks_def BlockSize_def Let_def) presburger

lemma blocks_le: "a mod BlockSize = 0 \<Longrightarrow> c mod BlockSize = 0 \<Longrightarrow> a < c + BlockSize \<Longrightarrow> a \<le> c"
  unfolding BlockSize_def by presburger

lemma cipher_blocks_prefix:
  "s + m \<le> length (concat parts) \<Longrightarrow> take m (drop s (cipher_blocks parts)) = take m (drop s (concat parts))"
  by (simp add: cipher_blocks_def Let_def)

lemma aligned_start: "0 \<le> off \<Longrightarrow> (off sdiv int BlockSize) * int BlockSize = int (nat off div BlockSize * BlockSize)"
  by (simp add: signed_divide_int_def BlockSize_def sgn_if zdiv_int)

text \<open>The buffer to decrypt, after the plain read and the padding.\<close>

lemma padded_buffer:
  assumes "s mod BlockSize = 0" "length buf mod BlockSize = 0" "s < length (concat parts)"
    and "s + length buf \<le> length (cipher_blocks parts)" "buf \<noteq> []"
  defines "n \<equiv> min (length buf) (length (concat parts) - s)"
  shows "pad_block (take n (drop s (concat parts)) @ drop n buf) n
    = (length buf, take (length buf) (drop s (cipher_blocks parts)))"
proof (cases "s + length buf \<le> length (concat parts)")
  case True
  then have "n = length buf" by (simp add: n_def)
  with True assms(2) show ?thesis by (simp add: pad_block_def cipher_blocks_prefix)
next
  case False
  let ?c = "concat parts"
  define r where "r = length ?c mod BlockSize"
  have n: "n = length ?c - s" "n < length buf" "s + n = length ?c" using False assms(3) by (simp_all add: n_def)
  have r0: "r \<noteq> 0"
  proof
    assume "r = 0"
    then have "cipher_blocks parts = ?c" by (simp add: r_def cipher_blocks_def)
    with False assms(4) show False by simp
  qed
  then have cb: "cipher_blocks parts = ?c @ replicate (BlockSize - r) 0" by (simp add: cipher_blocks_def r_def Let_def)
  have nr: "n mod BlockSize = r"
    using n(3) assms(1) unfolding r_def by (metis add.left_neutral mod_add_left_eq)
  have "length buf = n + (BlockSize - r)"
  proof -
    have "length buf \<le> n + (BlockSize - r)" using assms(4) n(3) cb by simp
    moreover have "n + (BlockSize - r) \<le> length buf"
    proof (rule blocks_le[OF _ assms(2)])
      have "r < BlockSize" by (simp add: r_def BlockSize_def)
      moreover have "n = n div BlockSize * BlockSize + r" using div_mult_mod_eq[of n BlockSize] nr by simp
      ultimately have "n + (BlockSize - r) = (n div BlockSize + 1) * BlockSize" by (simp add: add_mult_distrib)
      then show "(n + (BlockSize - r)) mod BlockSize = 0" by simp
      show "n + (BlockSize - r) < length buf + BlockSize" using n(2) by simp
    qed
    ultimately show ?thesis by simp
  qed
  moreover have "length (drop s ?c) = n" "take n (drop s ?c) = drop s ?c" using n(1) by simp_all
  moreover have "r < BlockSize" by (simp add: r_def BlockSize_def)
  ultimately show ?thesis
    using nr r0 n(2,3) by (simp add: pad_block_def cb put_bytes_def)
qed

lemma computeIVForOffset_file:
  fixes E :: environment
  assumes "calm segs parts (world E)" "serves segs parts (net E)" "holds_file segs parts (r_cache sr)"
    and "s mod BlockSize = 0" "s < length (concat parts)" "length (IV (r_encryption sr)) = BlockSize"
  shows "\<exists>sr'. computeIVForOffset E (int s) sr = Some (Inr (if s = 0 then IV (r_encryption sr)
        else take BlockSize (drop (s - BlockSize) (cipher_blocks parts))), sr')
      \<and> holds_file segs parts (r_cache sr') \<and> r_encryption sr' = r_encryption sr
      \<and> r_readOffset sr' = r_readOffset sr \<and> r_closed sr' = r_closed sr"
proof (cases "s = 0")
  case True
  with assms(3,6) show ?thesis by (simp add: computeIVForOffset_def)
next
  case False
  with assms(4) have ge: "BlockSize \<le> s" by (metis leI mod_less)
  have "s div BlockSize * BlockSize = s" using assms(4) by (simp add: mod_eq_0_iff_dvd)
  then have "(int s sdiv int BlockSize) * int BlockSize = int s"
    using aligned_start[of "int s", OF of_nat_0_le_iff, unfolded nat_int] by (simp only:)
  note block = this
  have b: "int (length (replicate BlockSize (0 :: byte))) < 2 ^ 62" "replicate BlockSize (0 :: byte) \<noteq> []"
    by (simp_all add: BlockSize_def)
  have m: "min (length (replicate BlockSize (0 :: byte))) (length (concat parts) - (s - BlockSize)) = BlockSize"
    using ge assms(5) by simp
  have "int (s - BlockSize) < int (length (concat parts))"
    "\<not> int (s - BlockSize) + int (length (replicate BlockSize (0 :: byte))) > int (length (concat parts))"
    using ge assms(5) by simp_all
  from readAtPlain_file[OF assms(1-3) of_nat_0_le_iff this(1) b(2,1), unfolded m if_not_P[OF this(2)] nat_int]
  obtain sr' where rd: "readAtPlain E (replicate BlockSize 0) (int (s - BlockSize)) sr
      = Some (int BlockSize, None, take BlockSize (drop (s - BlockSize) (concat parts)) @ drop BlockSize (replicate BlockSize 0), sr')"
    "holds_file segs parts (r_cache sr')" "r_encryption sr' = r_encryption sr"
    "r_readOffset sr' = r_readOffset sr" "r_closed sr' = r_closed sr" by blast
  have prev: "int s - int BlockSize = int (s - BlockSize)" using ge by simp
  have same: "take BlockSize (drop (s - BlockSize) (cipher_blocks parts))
      = take BlockSize (drop (s - BlockSize) (concat parts))"
    using ge assms(5) by (intro cipher_blocks_prefix) simp
  have "computeIVForOffset E (int s) sr = Some (Inr (take BlockSize (drop (s - BlockSize) (concat parts))), sr')"
    unfolding computeIVForOffset_def Let_def block prev rd(1) using False by simp
  with rd(2-5) False same show ?thesis by simp
qed

lemma decryptInPlace_file:
  fixes E :: environment
  assumes "calm segs parts (world E)" "serves segs parts (net E)" "holds_file segs parts (r_cache sr)"
    and "s mod BlockSize = 0" "s < length (concat parts)" "length (IV (r_encryption sr)) = BlockSize"
    and "block_cipher (aes E (Key (r_encryption sr)))" "length (Key (r_encryption sr)) = 32"
    and "m mod BlockSize = 0" "m \<noteq> 0" "s + m \<le> length (cipher_blocks parts)"
  shows "\<exists>sr'. decryptInPlace E (take m (drop s (cipher_blocks parts))) (int s) sr
        = Some (Inr (take m (drop s (plaintext E (r_encryption sr) parts))), sr')
      \<and> holds_file segs parts (r_cache sr') \<and> r_encryption sr' = r_encryption sr
      \<and> r_readOffset sr' = r_readOffset sr \<and> r_closed sr' = r_closed sr"
proof -
  let ?C = "cipher_blocks parts"
  define iv where "iv = (if s = 0 then IV (r_encryption sr) else take BlockSize (drop (s - BlockSize) ?C))"
  from computeIVForOffset_file[OF assms(1-6), folded iv_def] obtain sr' where
    sr': "computeIVForOffset E (int s) sr = Some (Inr iv, sr')" "holds_file segs parts (r_cache sr')"
      "r_encryption sr' = r_encryption sr" "r_readOffset sr' = r_readOffset sr" "r_closed sr' = r_closed sr"
    by blast
  have ge: "BlockSize \<le> s" if "s \<noteq> 0" using that assms(4) by (metis leI mod_less)
  have "length iv = BlockSize" using assms(6,11) ge by (auto simp: iv_def)
  moreover have "length (take m (drop s ?C)) = m" using assms(11) by simp
  moreover note CryptBlocks_random_access[OF assms(7,6,4,9) length_cipher_blocks(1)[of parts] assms(11), folded iv_def]
  ultimately show ?thesis
    using sr' assms(8-10)
    by (auto simp: decryptInPlace_def DecryptBlock_def plaintext_def)
qed

lemma readAtEncrypted_file:
  fixes E :: environment
  assumes "calm segs parts (world E)" "serves segs parts (net E)" "holds_file segs parts (r_cache sr)"
    and "0 \<le> off" "off < int (length (concat parts))" "p \<noteq> []" "int (length p) < 2 ^ 62"
    and "block_cipher (aes E (Key (r_encryption sr)))" "length (Key (r_encryption sr)) = 32"
    and "length (IV (r_encryption sr)) = BlockSize"
  defines "n \<equiv> min (length p) (length (concat parts) - nat off)"
  shows "\<exists>sr'. readAtEncrypted E p off sr = Some (int n,
        if off + int (length p) > int (length (concat parts)) \<and> length (concat parts) mod BlockSize \<noteq> 0
        then Some EOF else None,
        take n (drop (nat off) (plaintext E (r_encryption sr) parts)) @ drop n p, sr')
      \<and> holds_file segs parts (r_cache sr') \<and> r_encryption sr' = r_encryption sr
      \<and> r_readOffset sr' = r_readOffset sr \<and> r_closed sr' = r_closed sr"
proof -
  let ?F = "concat parts" and ?C = "cipher_blocks parts" and ?enc = "r_encryption sr"
  have f: "frame segs parts (r_cache sr)" using assms(3) by (simp add: holds_file_def)
  have tot: "totalSize (r_cache sr) = int (length ?F)" "int (length ?F) < 2 ^ 61"
    using f frame_lengths(6)[OF f] by (simp_all add: frame_def start_of_all)
  have e64: "i64 (off + int (length p)) = off + int (length p)" using assms(4,5,7) tot(2) by (simp add: i64_fits)
  define s where "s = nat off div BlockSize * BlockSize"
  define q where "q = nat off + n"
  define e where "e = (if q mod BlockSize = 0 then q else q + (BlockSize - q mod BlockSize))"
  have s: "s mod BlockSize = 0" "s \<le> nat off" "nat off < s + BlockSize" "s < length ?F"
    using assms(4,5) by (auto simp: s_def BlockSize_def)
  have q: "nat off < q" "q \<le> length ?F" using assms(4-6) by (auto simp: q_def n_def)
  have e: "e mod BlockSize = 0" "q \<le> e" "e < q + BlockSize"
    by (auto simp: e_def BlockSize_def) presburger
  have "e \<le> length ?C"
    using e q(2) length_cipher_blocks(1,2)[of parts] by (intro blocks_le) simp_all
  note eC = this
  define buf where "buf = acquireDecryptionBuffer (pooled E) (e - s)"
  have lb: "length buf = e - s" by (simp add: buf_def acquireDecryptionBuffer_def)
  have se: "s < e" using s(2) q(1) e(2) by simp
  have bm: "length buf mod BlockSize = 0" unfolding lb using s(1) e(1) se by (simp add: mod_eq_0_iff_dvd)
  have bne: "buf \<noteq> []" "s + length buf \<le> length ?C" "int (length buf) < 2 ^ 62"
    using lb se eC length_cipher_blocks(3)[of parts] tot(2) by (auto simp: BlockSize_def)
  define k where "k = min (length buf) (length ?F - s)"
  from readAtPlain_file[OF assms(1-3), of "int s" buf] s(4) bne obtain sr1 where
    plain: "readAtPlain E buf (int s) sr = Some (int k,
        if int s + int (length buf) > int (length ?F) then Some EOF else None,
        take k (drop s ?F) @ drop k buf, sr1)"
      "holds_file segs parts (r_cache sr1)" "r_encryption sr1 = ?enc"
      "r_readOffset sr1 = r_readOffset sr" "r_closed sr1 = r_closed sr"
    by (auto simp: k_def)
  note pad = padded_buffer[OF s(1) bm s(4) bne(2,1), folded k_def]
  have k: "0 < k" using bne(1) s(4) by (simp add: k_def)
  let ?P = "plaintext E ?enc parts"
  from decryptInPlace_file[OF assms(1,2) plain(2) s(1) s(4), of "length buf"] assms(8-10) bm bne(1,2) plain(3)
  obtain sr2 where
    dec: "decryptInPlace E (take (length buf) (drop s ?C)) (int s) sr1
        = Some (Inr (take (length buf) (drop s ?P)), sr2)"
      "holds_file segs parts (r_cache sr2)" "r_encryption sr2 = ?enc"
      "r_readOffset sr2 = r_readOffset sr" "r_closed sr2 = r_closed sr"
    using plain(4,5) by auto
  define over where "over \<longleftrightarrow> off + int (length p) > int (length ?F)"
  have req: "(if over then int (length ?F) else off + int (length p)) = int q"
    using assms(4,5) by (auto simp: q_def n_def over_def)
  have al: "(if int q smod int BlockSize \<noteq> 0 then int q + (int BlockSize - int q smod int BlockSize) else int q) = int e"
  proof -
    have "int q smod int BlockSize = int (q mod BlockSize)"
      by (simp add: signed_modulo_int_def BlockSize_def sgn_if zmod_int)
    moreover have "q mod BlockSize < BlockSize" by (simp add: BlockSize_def)
    ultimately show ?thesis by (simp add: e_def of_nat_diff)
  qed
  have es: "nat (int e - int s) = e - s" using se by simp
  define err where "err = (if int s + int (length buf) > int (length ?F) then Some EOF else None)"
  have off: "off = int (nat off)" using assms(4) by simp
  have vk: "min (int k) (int q - int s) = int q - int s"
    using q(2) e(2) lb se by (auto simp: k_def)
  have "take (length p) (take (nat (int q - int s - (off - int s))) (drop (nat (off - int s)) (take (length buf) (drop s ?P))))
      = take n (drop (nat off) ?P)"
  proof -
    have a: "nat (int q - int s - (off - int s)) = n" "nat (off - int s) = nat off - s"
      using q(1) assms(4) by (auto simp: q_def)
    have "n + (nat off - s) \<le> length buf" using lb e(2) s(2) by (simp add: q_def)
    then have "take n (drop (nat off - s) (take (length buf) (drop s ?P))) = take n (drop (nat off - s) (drop s ?P))"
      by (simp add: take_drop_take add.commute)
    moreover have "n \<le> length p" by (simp add: n_def)
    ultimately show ?thesis using s(2) by (simp only: a take_take min_absorb2 drop_drop le_add_diff_inverse2)
  qed
  note data = this
  have lP: "length ?P = length ?C"
    unfolding plaintext_def by (rule length_CryptBlocks[OF assms(8,10) length_cipher_blocks(1)])
  have ld: "length (take n (drop (nat off) ?P)) = n"
    using q(2) length_cipher_blocks(2)[of parts] by (simp add: lP q_def)
  have "readAtEncrypted E p off sr = (if err = Some EOF \<and> n = length p
      then Some (int n, None, take n (drop (nat off) ?P) @ drop n p, sr2)
      else Some (int n, err, take n (drop (nat off) ?P) @ drop n p, sr2))"
  proof -
    have key: "int k > 0 \<and> length (Key (r_encryption sr1)) > 0" using k plain(3) assms(9) by simp
    have buf2: "take (length buf) (take (length buf) (drop s ?C)) = take (length buf) (drop s ?C)"
      "take (length buf) (drop s ?P) @ drop (length buf) (take (length buf) (drop s ?C)) = take (length buf) (drop s ?P)"
      by simp_all
    have ok: "\<not> (err \<noteq> None \<and> err \<noteq> Some EOF)" "\<not> off - int s \<ge> int q - int s"
      using q(1) assms(4) by (auto simp: err_def)
    show ?thesis
      unfolding readAtEncrypted_def Let_def aligned_start[OF assms(4), folded s_def] e64 tot(1) over_def[symmetric]
        req al es buf_def[symmetric] plain(1) err_def[symmetric]
      by (simp only: option.case prod.case key if_True nat_int pad dec(1) buf2 sum.case ok if_False vk data ld
          simp_thms)
  qed
  moreover have "(if err = Some EOF \<and> n = length p then None else err) =
      (if over \<and> length ?F mod BlockSize \<noteq> 0 then Some EOF else None)"
  proof (cases over)
    case True
    then have "q = length ?F" "n \<noteq> length p" using assms(4,5) by (auto simp: over_def q_def n_def)
    moreover have "int s + int (length buf) = int e" using lb se by simp
    ultimately show ?thesis using True by (auto simp: err_def e_def BlockSize_def)
  next
    case False
    then have "n = length p" using assms(4,5) by (auto simp: over_def n_def)
    with False show ?thesis by (simp add: err_def)
  qed
  ultimately show ?thesis using dec(2-5) by (auto simp: over_def)
qed

section \<open>A reader of a file\<close>

definition key_ok :: "environment \<Rightarrow> EncryptionConfig \<Rightarrow> bool" where
  "key_ok E enc \<longleftrightarrow> (Enabled enc \<longrightarrow> length (Key enc) = 32 \<and> length (IV enc) = BlockSize
     \<and> block_cipher (aes E (Key enc)))"

text \<open>What the reader shows: the file, or its decryption cut at the file's size.\<close>

definition visible :: "environment \<Rightarrow> EncryptionConfig \<Rightarrow> byte list list \<Rightarrow> byte list" where
  "visible E enc parts =
     (if Enabled enc then take (length (concat parts)) (plaintext E enc parts) else concat parts)"

definition reads_file :: "environment \<Rightarrow> SegmentMeta list \<Rightarrow> byte list list \<Rightarrow> StreamingReader \<Rightarrow> bool" where
  "reads_file E segs parts sr \<longleftrightarrow> calm segs parts (world E) \<and> serves segs parts (net E)
     \<and> holds_file segs parts (r_cache sr) \<and> key_ok E (r_encryption sr) \<and> \<not> r_closed sr"

lemma length_visible:
  assumes "key_ok E enc"
  shows "length (visible E enc parts) = length (concat parts)"
proof (cases "Enabled enc")
  case True
  with assms have "block_cipher (aes E (Key enc))" "length (IV enc) = BlockSize" by (simp_all add: key_ok_def)
  then have "length (plaintext E enc parts) = length (cipher_blocks parts)"
    unfolding plaintext_def by (rule length_CryptBlocks) (rule length_cipher_blocks(1))
  with True length_cipher_blocks(2)[of parts] show ?thesis by (simp add: visible_def)
qed (simp add: visible_def)

lemma holds_total: "holds_file segs parts sc \<Longrightarrow> totalSize sc = int (length (concat parts)) \<and> int (length (concat parts)) < 2 ^ 61"
proof -
  assume "holds_file segs parts sc"
  then have f: "frame segs parts sc" by (simp add: holds_file_def)
  have "start_of parts (length segs) = int (length (concat parts))"
    by (rule start_of_all) (simp add: frame_lengths(6)[OF f])
  moreover have "totalSize sc = start_of parts (length segs) \<and> start_of parts (length segs) < 2 ^ 61"
    using f unfolding frame_def by blast
  ultimately show ?thesis by simp
qed

lemma ReadAt_file:
  fixes E :: environment
  assumes "reads_file E segs parts sr" "0 \<le> off" "off < int (length (concat parts))" "p \<noteq> []"
    and "int (length p) < 2 ^ 62"
  defines "n \<equiv> min (length p) (length (concat parts) - nat off)"
  shows "\<exists>sr'. ReadAt E p off sr = Some (int n,
        if off + int (length p) > int (length (concat parts))
          \<and> (Enabled (r_encryption sr) \<longrightarrow> length (concat parts) mod BlockSize \<noteq> 0) then Some EOF else None,
        take n (drop (nat off) (visible E (r_encryption sr) parts)) @ drop n p, sr')
      \<and> reads_file E segs parts sr' \<and> r_encryption sr' = r_encryption sr \<and> r_readOffset sr' = r_readOffset sr"
proof -
  let ?sr = "sr\<lparr>Reads := i64 (Reads sr + 1)\<rparr>"
  have h: "calm segs parts (world E)" "serves segs parts (net E)" "holds_file segs parts (r_cache ?sr)"
    and k: "key_ok E (r_encryption ?sr)" and opn: "\<not> r_closed sr" using assms(1) by (simp_all add: reads_file_def)
  have RA: "ReadAt E p off sr = (if Enabled (r_encryption sr) then readAtEncrypted E p off ?sr else readAtPlain E p off ?sr)"
    using opn assms(3,4) holds_total[of segs parts "r_cache sr"] h(3) by (simp add: ReadAt_def)
  show ?thesis
  proof (cases "Enabled (r_encryption sr)")
    case False
    with readAtPlain_file[OF h assms(2-5)] RA h k opn show ?thesis
      by (auto simp: visible_def n_def reads_file_def)
  next
    case True
    with k have kk: "block_cipher (aes E (Key (r_encryption ?sr)))" "length (Key (r_encryption ?sr)) = 32"
      "length (IV (r_encryption ?sr)) = BlockSize" by (simp_all add: key_ok_def)
    have "take n (drop (nat off) (visible E (r_encryption sr) parts)) = take n (drop (nat off) (plaintext E (r_encryption sr) parts))"
      using True assms(2,3) by (simp add: visible_def drop_take n_def min_def)
    with readAtEncrypted_file[OF h assms(2-5) kk] RA h k opn True show ?thesis
      by (auto simp: n_def reads_file_def)
  qed
qed

lemma Read_file:
  fixes E :: environment
  assumes "reads_file E segs parts sr" "0 \<le> r_readOffset sr" "r_readOffset sr \<le> int (length (concat parts))"
    and "int (length p) < 2 ^ 62"
  defines "n \<equiv> min (length p) (length (concat parts) - nat (r_readOffset sr))"
  shows "\<exists>err p' sr'. Read E p sr = Some (int n, err, p', sr')
      \<and> take n p' = take n (drop (nat (r_readOffset sr)) (visible E (r_encryption sr) parts))
      \<and> reads_file E segs parts sr' \<and> r_encryption sr' = r_encryption sr
      \<and> r_readOffset sr' = r_readOffset sr + int n"
proof -
  have opn: "\<not> r_closed sr" and tot: "totalSize (r_cache sr) = int (length (concat parts))"
    "int (length (concat parts)) < 2 ^ 61"
    using assms(1) holds_total by (auto simp: reads_file_def)
  show ?thesis
  proof (cases "p = [] \<or> r_readOffset sr = int (length (concat parts))")
    case True
    with opn tot assms(1) show ?thesis by (auto simp: Read_def n_def)
  next
    case False
    with assms(3) have lt: "r_readOffset sr < int (length (concat parts))" and p: "p \<noteq> []" by simp_all
    from ReadAt_file[OF assms(1,2) lt p assms(4), folded n_def] obtain err p' sr' where
      ra: "ReadAt E p (r_readOffset sr) sr = Some (int n, err, p', sr')"
        "p' = take n (drop (nat (r_readOffset sr)) (visible E (r_encryption sr) parts)) @ drop n p"
        "reads_file E segs parts sr'" "r_encryption sr' = r_encryption sr" "r_readOffset sr' = r_readOffset sr" by blast
    have "length (visible E (r_encryption sr) parts) = length (concat parts)"
      using assms(1) by (simp add: reads_file_def length_visible)
    then have "take n p' = take n (drop (nat (r_readOffset sr)) (visible E (r_encryption sr) parts))"
      using ra(2) by (simp add: n_def)
    moreover have "0 < n" using lt p assms(2) by (simp add: n_def)
    moreover have "i64 (r_readOffset sr + int n) = r_readOffset sr + int n"
      using assms(2) lt tot(2) by (intro i64_fits) (auto simp: n_def)
    moreover have "reads_file E segs parts (sr'\<lparr>r_readOffset := z\<rparr>)" for z using ra(3) by (simp add: reads_file_def)
    ultimately show ?thesis using opn tot(1) lt p ra(1,4,5) by (simp add: Read_def)
  qed
qed

text \<open>Reading into one buffer after the other: the bytes delivered.\<close>

primrec reads :: "environment \<Rightarrow> byte list list \<Rightarrow> StreamingReader \<Rightarrow> (byte list \<times> StreamingReader) option" where
  "reads E [] sr = Some ([], sr)"
| "reads E (p # ps) sr =
     (case Read E p sr of
        None \<Rightarrow> None
      | Some (n, err, p', sr1) \<Rightarrow>
          (case reads E ps sr1 of
             None \<Rightarrow> None
           | Some (d, sr2) \<Rightarrow> Some (take (nat n) p' @ d, sr2)))"

lemma reads_file:
  fixes E :: environment
  shows "reads_file E segs parts sr \<Longrightarrow> 0 \<le> r_readOffset sr \<Longrightarrow> r_readOffset sr \<le> int (length (concat parts)) \<Longrightarrow>
    \<forall>p \<in> set ps. int (length p) < 2 ^ 62 \<Longrightarrow>
    \<exists>sr'. reads E ps sr = Some (take (sum_list (map length ps))
        (drop (nat (r_readOffset sr)) (visible E (r_encryption sr) parts)), sr')
      \<and> r_readOffset sr' = min (int (length (concat parts))) (r_readOffset sr + int (sum_list (map length ps)))"
proof (induction ps arbitrary: sr)
  case (Cons p ps)
  let ?v = "visible E (r_encryption sr) parts" and ?pos = "nat (r_readOffset sr)"
  define n where "n = min (length p) (length (concat parts) - ?pos)"
  from Read_file[OF Cons.prems(1-3), of p, folded n_def] Cons.prems(4) obtain err p' sr1 where
    rd: "Read E p sr = Some (int n, err, p', sr1)" "take n p' = take n (drop ?pos ?v)"
      "reads_file E segs parts sr1" "r_encryption sr1 = r_encryption sr" "r_readOffset sr1 = r_readOffset sr + int n"
    by auto
  have n: "r_readOffset sr + int n \<le> int (length (concat parts))" using Cons.prems(2,3) by (simp add: n_def)
  from Cons.IH[OF rd(3)] rd(4,5) n Cons.prems(2,4) obtain sr2 where
    sr2: "reads E ps sr1 = Some (take (sum_list (map length ps)) (drop (nat (r_readOffset sr + int n)) ?v), sr2)"
      "r_readOffset sr2 = min (int (length (concat parts))) (r_readOffset sr + int n + int (sum_list (map length ps)))"
    by auto
  have lv: "length ?v = length (concat parts)" using Cons.prems(1) by (simp add: reads_file_def length_visible)
  have "take n (drop ?pos ?v) @ take m (drop (?pos + n) ?v) = take (length p + m) (drop ?pos ?v)" for m
  proof (cases "n = length p")
    case True
    then show ?thesis by (simp only: take_add drop_drop add.commute[of ?pos])
  next
    case False
    then have "?pos + n = length ?v" "n \<le> length p" using Cons.prems(2,3) lv by (auto simp: n_def)
    then show ?thesis by simp
  qed
  moreover have "nat (r_readOffset sr + int n) = ?pos + n" using Cons.prems(2) by simp
  moreover have "r_readOffset sr2 = min (int (length (concat parts))) (r_readOffset sr + int (length p) + int (sum_list (map length ps)))"
    using sr2(2) Cons.prems(2,3) by (auto simp: n_def)
  ultimately show ?case using rd(1,2) sr2(1) by (simp add: add.assoc)
qed (simp add: min_def)

section \<open>Properties\<close>

text \<open>C25. A read at an offset inside the file returns the bytes of the file there (of its decryption, when
  the reader has a key), as many as the buffer holds or the file has left, leaves the rest of the
  buffer alone, and reports the end of the file when the buffer reaches beyond it, except with a
  key and a file of whole blocks: there it returns fewer bytes than asked for and no error, against
  the contract of \<open>io.ReaderAt\<close>. This holds whatever is cached, whatever attempts fail before one succeeds, and even if another goroutine evicts each segment
  just before it is read.\<close>

theorem ReadAt_exact:
  fixes E :: environment
  assumes "reads_file E segs parts sr" "0 \<le> off" "off < int (length (concat parts))" "p \<noteq> []"
    and "int (length p) < 2 ^ 62"
  defines "n \<equiv> min (length p) (length (concat parts) - nat off)"
  shows "\<exists>sr'. ReadAt E p off sr = Some (int n,
        if off + int (length p) > int (length (concat parts))
          \<and> (Enabled (r_encryption sr) \<longrightarrow> length (concat parts) mod BlockSize \<noteq> 0) then Some EOF else None,
        take n (drop (nat off) (visible E (r_encryption sr) parts)) @ drop n p, sr')
      \<and> reads_file E segs parts sr' \<and> r_encryption sr' = r_encryption sr \<and> r_readOffset sr' = r_readOffset sr"
  unfolding n_def by (rule ReadAt_file[OF assms(1-5)])

lemma drop_keeps_file:
  assumes "holds_file segs parts sc" "i < length segs"
  shows "holds_file segs parts (drop_segment i sc)"
proof -
  have f: "frame segs parts sc" using assms(1) by (simp add: holds_file_def)
  have "frame segs parts (drop_segment i sc)"
    by (rule frame_upd[OF f]) (use frame_wf[OF f] in
      \<open>simp_all add: seg_wf_def drop_segment_def segCount_def Let_def\<close>)
  moreover have "part_ok parts (drop_segment i sc) j" if "j < length segs" for j
  proof (cases "j = i")
    case True
    then show ?thesis using frame_lengths(1)[OF f] assms(2) by (simp add: part_ok_def)
  next
    case False
    have "part_ok parts sc j" using assms(1) that by (simp add: holds_file_def)
    then show ?thesis using False by (simp add: part_ok_def drop_segment_def Let_def)
  qed
  ultimately show ?thesis by (simp add: holds_file_def)
qed

text \<open>Another goroutine that evicts the very segment about to be read.\<close>

definition evict_window :: "nat \<Rightarrow> segCache \<Rightarrow> segCache" where
  "evict_window i sc = (if i < segCount sc \<and> states sc ! i = StateOnDisk then drop_segment i sc else sc)"

lemma calm_evict_window: "calm segs parts evict_window"
  unfolding calm_def
proof (intro allI impI)
  fix i sc
  assume h: "holds_file segs parts sc"
  then have c: "segCount sc = length segs" using frame_count[of segs parts sc] by (simp add: holds_file_def)
  show "holds_file segs parts (evict_window i sc)
    \<and> (\<forall>j < length segs. j \<noteq> i \<and> states sc ! j = StateOnDisk \<longrightarrow> states (evict_window i sc) ! j = StateOnDisk)"
    using h drop_keeps_file[OF h] c by (simp add: evict_window_def)
qed

definition demo_parts :: "byte list list" where
  "demo_parts = [[10, 11, 12, 13], [2, 3, 4]]"

definition demo_env :: environment where
  "demo_env = \<lparr>net = (\<lambda>i. if i = 0
       then [\<lparr>chunks = [[9]], decoded = 1, body_error = Some ErrClosedPipe\<rparr>,
             \<lparr>chunks = [[10, 11], [12, 13]], decoded = 4, body_error = None\<rparr>]
       else [demo_attempt]),
     clock = 9, world = evict_window, aes = (\<lambda>k b. b), pooled = []\<rparr>"

definition demo_reader :: StreamingReader where
  "demo_reader = \<lparr>r_cache = demo_cache, r_prefetchAhead = 1,
     r_encryption = \<lparr>Enabled = False, Key = [], IV = []\<rparr>, r_readOffset = 0, r_closed = False, prefetchCh = [],
     Reads = 0, BytesRead = 0, ReadErrors = 0, PrefetchHits = 0, PrefetchMisses = 0\<rparr>"

lemma demo_reader_new: "NewStreamingReader demo_segs 5 1 = Some demo_reader"
  by (simp add: NewStreamingReader_def demo_reader_def demo_cache_def demo_segs_def)

lemma all_below_2: "(\<forall>i < Suc (Suc 0). P i) \<longleftrightarrow> P 0 \<and> P (Suc 0)"
  by (auto simp: less_Suc_eq)

lemma demo_reads_file: "reads_file demo_env demo_segs demo_parts demo_reader"
proof -
  note d = demo_cache_layout
  have tot: "totalSize demo_cache = 7"
    by (simp add: demo_cache_def NewSegmentCache_def demo_segs_def computeOffsets_def i64_fits Let_def)
  have le: "k \<le> 2 \<longleftrightarrow> k = 0 \<or> k = 1 \<or> k = (2 :: nat)" for k by auto
  have n: "length demo_segs = Suc (Suc 0)" by (simp add: demo_segs_def)
  have "frame demo_segs demo_parts demo_cache"
    using d tot by (auto simp: frame_def demo_parts_def start_of_def n le simp flip: numeral_2_eq_2)
      (simp_all add: demo_segs_def)
  then have "holds_file demo_segs demo_parts demo_cache"
    using d by (simp add: holds_file_def part_ok_def n all_below_2)
  moreover have "serves demo_segs demo_parts (net demo_env)"
  proof -
    have "net demo_env 0 = [\<lparr>chunks = [[9]], decoded = 1, body_error = Some ErrClosedPipe\<rparr>]
        @ [\<lparr>chunks = [[10, 11], [12, 13]], decoded = 4, body_error = None\<rparr>]"
      "net demo_env 1 = [] @ [demo_attempt]" by (simp_all add: demo_env_def)
    then show ?thesis
      unfolding serves_def n all_below_2
      by (simp add: demo_segs_def demo_parts_def fails_def demo_attempt_def payload_def)
  qed
  ultimately show ?thesis
    using calm_evict_window by (simp add: reads_file_def demo_reader_def key_ok_def demo_env_def)
qed

theorem ReadAt_exact_witness:
  "\<exists>sr'. ReadAt demo_env [0, 0, 0, 0, 0, 0] 2 demo_reader = Some (5, Some EOF, [12, 13, 2, 3, 4, 0], sr')"
proof -
  have off: "(0 :: int) \<le> 2" "(2 :: int) < int (length (concat demo_parts))" "[0, 0, 0, 0, 0, 0 :: byte] \<noteq> []"
    "int (length [0, 0, 0, 0, 0, 0 :: byte]) < 2 ^ 62" by (simp_all add: demo_parts_def)
  from ReadAt_exact[OF demo_reads_file off] show ?thesis
    by (auto simp: demo_parts_def demo_reader_def visible_def)
qed

text \<open>C26. Reading one buffer after the other delivers the file as a stream: the bytes handed out are
  the file from the reader's position on, without gap or repetition, and the position moves by
  their number.\<close>

theorem Read_streams_file:
  fixes E :: environment
  assumes "reads_file E segs parts sr" "0 \<le> r_readOffset sr" "r_readOffset sr \<le> int (length (concat parts))"
    and "\<forall>p \<in> set ps. int (length p) < 2 ^ 62"
  shows "\<exists>sr'. reads E ps sr = Some (take (sum_list (map length ps))
        (drop (nat (r_readOffset sr)) (visible E (r_encryption sr) parts)), sr')
      \<and> r_readOffset sr' = min (int (length (concat parts))) (r_readOffset sr + int (sum_list (map length ps)))"
  by (rule reads_file[OF assms])

theorem Read_streams_file_witness:
  "\<exists>sr'. reads demo_env [[0, 0, 0], [0], [0, 0, 0, 0, 0]] demo_reader = Some ([10, 11, 12, 13, 2, 3, 4], sr')
    \<and> r_readOffset sr' = 7"
proof -
  have a: "0 \<le> r_readOffset demo_reader" "r_readOffset demo_reader \<le> int (length (concat demo_parts))"
    "\<forall>p \<in> set [[0, 0, 0], [0], [0, 0, 0, 0, 0 :: byte]]. int (length p) < 2 ^ 62"
    by (simp_all add: demo_reader_def demo_parts_def)
  from Read_streams_file[OF demo_reads_file a] show ?thesis
    by (auto simp: demo_parts_def demo_reader_def visible_def)
qed

text \<open>With a key and a file of whole blocks, a read that reaches beyond the end returns fewer bytes
  than asked for and no error, against the contract of \<open>io.ReaderAt\<close>.\<close>

lemma encrypted_end_is_silent:
  fixes E :: environment
  assumes "reads_file E segs parts sr" "Enabled (r_encryption sr)" "length (concat parts) mod BlockSize = 0"
    and "0 \<le> off" "off < int (length (concat parts))" "int (length (concat parts)) < off + int (length p)"
    and "int (length p) < 2 ^ 62"
  shows "\<exists>n p' sr'. ReadAt E p off sr = Some (n, None, p', sr') \<and> n < int (length p)
    \<and> n = int (length (concat parts)) - off"
proof -
  have "p \<noteq> []" using assms(5,6) by auto
  from ReadAt_file[OF assms(1,4,5) this assms(7)] assms(2,3) obtain sr' p' where
    "ReadAt E p off sr = Some (int (min (length p) (length (concat parts) - nat off)), None, p', sr')" by auto
  moreover have "int (min (length p) (length (concat parts) - nat off)) = int (length (concat parts)) - off"
    using assms(4-6) by auto
  ultimately show ?thesis using assms(6) by auto
qed

definition locked_segs :: "SegmentMeta list" where
  "locked_segs = [\<lparr>MessageID = [1], Number = 1, Bytes = 16, StartOffset = 0, EndOffset = 0, SegmentDataStart = 0\<rparr>]"

definition locked_reader :: StreamingReader where
  "locked_reader = demo_reader\<lparr>r_cache := NewSegmentCache locked_segs 99,
     r_encryption := \<lparr>Enabled = True, Key = replicate 32 7, IV = replicate 16 0\<rparr>\<rparr>"

definition locked_env :: environment where
  "locked_env = demo_env\<lparr>net := (\<lambda>i. [\<lparr>chunks = [replicate 16 5], decoded = 16, body_error = None\<rparr>])\<rparr>"

lemma locked_reads_file: "reads_file locked_env locked_segs [replicate 16 5] locked_reader"
proof -
  let ?sc = "NewSegmentCache locked_segs 99"
  have l: "segments ?sc = locked_segs" "segOffsets ?sc = [0, 16]" "totalSize ?sc = 16" "states ?sc = [StateEmpty]"
    "layout_ok ?sc"
    by (simp_all add: NewSegmentCache_def locked_segs_def computeOffsets_def i64_fits Let_def
        layout_ok_def seg_wf_def segCount_def)
  have le: "k \<le> 1 \<longleftrightarrow> k = 0 \<or> k = (1 :: nat)" for k by auto
  have n: "length locked_segs = 1" by (simp add: locked_segs_def)
  have "frame locked_segs [replicate 16 5] ?sc"
    unfolding frame_def n le using l(2,3,5) by (auto simp: l(1) start_of_def) (simp_all add: locked_segs_def)
  then have "holds_file locked_segs [replicate 16 5] ?sc"
    by (simp add: holds_file_def part_ok_def n l(4))
  moreover have "serves locked_segs [replicate 16 5] (net locked_env)"
    unfolding serves_def by (simp add: n) (simp add: locked_env_def locked_segs_def fails_def payload_def)
  ultimately show ?thesis
    using calm_evict_window
    by (simp add: reads_file_def locked_reader_def locked_env_def demo_reader_def demo_env_def key_ok_def
        BlockSize_def block_cipher_def)
qed

lemma encrypted_end_is_silent_witness:
  "\<exists>n p' sr'. ReadAt locked_env (replicate 20 0) 10 locked_reader = Some (n, None, p', sr') \<and> n < 20 \<and> n = 6"
proof -
  have a: "Enabled (r_encryption locked_reader)" by (simp add: locked_reader_def)
  show ?thesis
    using encrypted_end_is_silent[OF locked_reads_file a, of 10 "replicate 20 0"] by (simp add: BlockSize_def)
qed

text \<open>A failed download is final: once a segment has failed, a read that starts in it returns no byte
  and the remembered error, whatever the providers would deliver now, and the segment stays failed.\<close>

lemma failed_segment_stays_failed:
  fixes E :: environment
  assumes "layout_ok (r_cache sr)" "segOffsets (r_cache sr) ! 0 = 0"
    and "totalSize (r_cache sr) = segOffsets (r_cache sr) ! segCount (r_cache sr)" "totalSize (r_cache sr) < 2 ^ 62"
    and "i < segCount (r_cache sr)" "states (r_cache sr) ! i = StateFailed" "errors (r_cache sr) ! i = Some e"
    and "segOffsets (r_cache sr) ! i \<le> off" "off < segOffsets (r_cache sr) ! (i + 1)"
    and "\<not> r_closed sr" "\<not> Enabled (r_encryption sr)" "p \<noteq> []" "int (length p) < 2 ^ 62"
  shows "\<exists>sr'. ReadAt E p off sr = Some (0, Some (SegFailed e), p, sr')
    \<and> states (r_cache sr') ! i = StateFailed \<and> errors (r_cache sr') ! i = Some e"
proof -
  let ?sc = "r_cache sr" and ?sr = "sr\<lparr>Reads := i64 (Reads sr + 1)\<rparr>"
  note off = layout_offset[OF assms(1)]
  have srt: "sorted (segOffsets ?sc)" "length (segOffsets ?sc) = segCount ?sc + 1"
    using assms(1) by (simp_all add: layout_ok_def seg_wf_def)
  have o: "0 \<le> off" using off(1)[of i] assms(5,8) by simp
  have "segOffsets ?sc ! (i + 1) \<le> totalSize ?sc"
    unfolding assms(3) using srt assms(5) by (intro sorted_nth_mono) simp_all
  then have lt: "off < totalSize ?sc" using assms(9) by simp
  then have e64: "i64 (off + int (length p)) = off + int (length p)" using o assms(4,13) by (simp add: i64_fits)
  define len where "len = (if off + int (length p) > totalSize ?sc then totalSize ?sc - off else int (length p))"
  have len: "0 < len" "off + len \<le> totalSize ?sc" using lt assms(12) by (auto simp: len_def)
  obtain a b where ab: "SegmentsForRange ?sc off len = (a, b)" by fastforce
  from SegmentsForRange_spec[OF assms(1) _ _ len(1), of off] ab assms(2,3,5) o len(2)
  have spec: "a \<le> b" "b < segCount ?sc" and
    mem: "\<And>j. j < segCount ?sc \<Longrightarrow> a \<le> j \<and> j \<le> b \<longleftrightarrow>
      segOffsets ?sc ! j < off + len \<and> off < segOffsets ?sc ! (j + 1)" by auto
  have "a \<le> i" using mem[of i] assms(5,8,9) len(1) by simp
  moreover have "\<not> a < i"
  proof
    assume "a < i"
    then have "segOffsets ?sc ! (a + 1) \<le> segOffsets ?sc ! i"
      using srt assms(5) by (intro sorted_nth_mono) simp_all
    with mem[of a] spec assms(8) show False by simp
  qed
  ultimately have a: "a = i" by simp
  define sr1 where "sr1 = ?sr\<lparr>r_cache := PinRange ?sc i b\<rparr>"
  define pe where "pe = min (int b + r_prefetchAhead sr) (int (segCount ?sc) - 1)"
  define sr2 where "sr2 = (if pe > int b then QueuePrefetchRange (int b + 1) pe sr1 else sr1)"
  have sr2: "r_cache sr2 = PinRange ?sc i b" by (simp add: sr2_def sr1_def)
  have "EnsureSegments E (PinRange ?sc i b) [i..<b + 1] = Some (Some e, PinRange ?sc i b)"
    using spec(1) a assms(5-7)
    by (simp add: upt_conv_Cons GetState_def Fetch_def GetError_def PinRange_def in_range_def segCount_def del: upt_Suc)
  moreover have rf: "r_cache ?sr = ?sc" "r_prefetchAhead ?sr = r_prefetchAhead sr" by simp_all
  ultimately have "readAtPlain E p off ?sr = Some (0, Some (SegFailed e), p,
      sr2\<lparr>r_cache := UnpinRange (PinRange ?sc i b) i b, ReadErrors := i64 (ReadErrors sr2 + 1)\<rparr>)"
    by (simp only: readAtPlain_def Let_def rf e64 len_def[symmetric] ab[unfolded a] prod.case
        sr1_def[symmetric] pe_def[symmetric] sr2_def[symmetric] sr2 option.case)
  moreover have "ReadAt E p off sr = readAtPlain E p off ?sr" using lt assms(10-12) by (simp add: ReadAt_def)
  ultimately show ?thesis using assms(6,7) by (simp add: PinRange_def UnpinRange_def)
qed

definition failed_reader :: StreamingReader where
  "failed_reader = demo_reader\<lparr>r_cache := MarkFailed demo_cache 1 ArticleNotFound\<rparr>"

lemma failed_segment_stays_failed_witness:
  "\<exists>sr'. ReadAt demo_env [0, 0] 5 failed_reader = Some (0, Some (SegFailed ArticleNotFound), [0, 0], sr')"
proof -
  have "r_cache failed_reader = demo_cache\<lparr>errors := [None, Some ArticleNotFound],
      states := [StateEmpty, StateFailed]\<rparr>"
    by (simp add: failed_reader_def demo_reader_def MarkFailed_def in_range_def demo_cache_def NewSegmentCache_def
        demo_segs_def segCount_def Let_def)
  moreover have "totalSize demo_cache = 7"
    by (simp add: demo_cache_def NewSegmentCache_def demo_segs_def computeOffsets_def i64_fits Let_def)
  ultimately have c: "segCount (r_cache failed_reader) = 2" "segOffsets (r_cache failed_reader) = [0, 4, 7]"
    "totalSize (r_cache failed_reader) = 7" "states (r_cache failed_reader) ! 1 = StateFailed"
    "errors (r_cache failed_reader) ! 1 = Some ArticleNotFound" "layout_ok (r_cache failed_reader)"
    using demo_cache_layout by (simp_all add: layout_ok_def seg_wf_def segCount_def demo_segs_def)
  have r: "\<not> r_closed failed_reader" "\<not> Enabled (r_encryption failed_reader)"
    by (simp_all add: failed_reader_def demo_reader_def)
  from failed_segment_stays_failed[OF c(6) _ _ _ _ c(4,5), of 5 "[0, 0]" demo_env] c(1-3) r show ?thesis by auto
qed

text \<open>An article that decodes to less than its segment's size leaves a gap: the read puts the bytes
  that are there and the bytes of the next segment at their places, returns the number of bytes put
  and no error, so that the caller takes the gap for data and the last bytes for unread.\<close>

lemma short_article_leaves_gap:
  "(case ReadAt (demo_env\<lparr>net := (\<lambda>i. [if i = 0 then \<lparr>chunks = [[10, 11]], decoded = 2, body_error = None\<rparr>
         else demo_attempt])\<rparr>) [99, 99, 99, 99, 99, 99, 99] 0 demo_reader of
      None \<Rightarrow> False
    | Some (n, err, p, sr) \<Rightarrow> n = 5 \<and> err = None \<and> p = [10, 11, 99, 99, 2, 3, 4])"
  by code_simp

end
