(* ===== verification/Fetch_Dedup.thy ===== *)
theory Fetch_Dedup
  imports Segment_Cache
begin

text \<open>
  \<open>Fetch\<close> and \<open>doFetch\<close> of \<open>pkg/usenet/fs/reader/fetcher.go\<close> as they run on many goroutines at once. Each
  step is one atomic operation of the code: a load or compare-and-swap of a segment's state, a
  critical section of \<open>inFlightMu\<close>, the closing of a promise. The steps of \<open>world\<close> are those of the
  evictor. Goroutines are numbered, and so are promises.
\<close>

section \<open>State\<close>

text \<open>Where a goroutine stands in \<open>Fetch segIdx\<close>; the promise is the one it made or waits for.\<close>

datatype fetch_pc =
    Outside
  | AtState nat
  | AtTable nat
  | Waiting nat nat
  | AtMark nat nat
  | MarkLost nat nat
  | Downloading nat nat
  | WaitSegment nat nat
  | Fetched nat nat "seg_error option"
  | Published nat nat "seg_error option"
  | Returned nat "seg_error option"

record fetcher =
  seg_state :: "nat \<Rightarrow> SegmentState"
  seg_err :: "nat \<Rightarrow> seg_error option"
  inFlight :: "nat \<rightharpoonup> nat"
  promises :: "nat \<rightharpoonup> seg_error option"
  next_promise :: nat
  at :: "nat \<Rightarrow> fetch_pc"

definition fetcher_init :: "fetcher \<Rightarrow> bool" where
  "fetcher_init f \<longleftrightarrow> inFlight f = Map.empty \<and> promises f = Map.empty
     \<and> at f = (\<lambda>g. Outside) \<and> (\<forall>s. seg_state f s = StateEmpty)"

definition moves :: "nat \<Rightarrow> fetch_pc \<Rightarrow> fetcher \<Rightarrow> fetcher" where
  "moves g l f = f\<lparr>at := (at f)(g := l)\<rparr>"

definition marks :: "nat \<Rightarrow> SegmentState \<Rightarrow> fetcher \<Rightarrow> fetcher" where
  "marks s st f = f\<lparr>seg_state := (seg_state f)(s := st)\<rparr>"

section \<open>Steps\<close>

inductive fetch_step :: "fetcher \<Rightarrow> fetcher \<Rightarrow> bool" where
  call: "at f g = Outside \<Longrightarrow> fetch_step f (moves g (AtState s) f)"
| again: "at f g = Returned s e \<Longrightarrow> fetch_step f (moves g Outside f)"
| cached: "at f g = AtState s \<Longrightarrow> seg_state f s \<in> {StateInMemory, StateOnDisk} \<Longrightarrow>
    fetch_step f (moves g (Returned s None) f)"
| failed: "at f g = AtState s \<Longrightarrow> seg_state f s = StateFailed \<Longrightarrow>
    fetch_step f (moves g (Returned s (seg_err f s)) f)"
| missing: "at f g = AtState s \<Longrightarrow> seg_state f s \<in> {StateEmpty, StateFetching} \<Longrightarrow>
    fetch_step f (moves g (AtTable s) f)"
| join: "at f g = AtTable s \<Longrightarrow> inFlight f s = Some p \<Longrightarrow> fetch_step f (moves g (Waiting s p) f)"
| lead: "at f g = AtTable s \<Longrightarrow> inFlight f s = None \<Longrightarrow> p = next_promise f \<Longrightarrow>
    fetch_step f (moves g (AtMark s p) (f\<lparr>inFlight := (inFlight f)(s \<mapsto> p), next_promise := Suc p\<rparr>))"
| woken: "at f g = Waiting s p \<Longrightarrow> promises f p = Some e \<Longrightarrow> fetch_step f (moves g (Returned s e) f)"
| cancelled: "at f g = Waiting s p \<Longrightarrow> fetch_step f (moves g (Returned s (Some e)) f)"
| mark: "at f g = AtMark s p \<Longrightarrow> seg_state f s = StateEmpty \<Longrightarrow>
    fetch_step f (moves g (Downloading s p) (marks s StateFetching f))"
| mark_lost: "at f g = AtMark s p \<Longrightarrow> seg_state f s \<noteq> StateEmpty \<Longrightarrow> fetch_step f (moves g (MarkLost s p) f)"
| lost_cached: "at f g = MarkLost s p \<Longrightarrow> seg_state f s \<in> {StateInMemory, StateOnDisk} \<Longrightarrow>
    fetch_step f (moves g (Fetched s p None) f)"
| lost_failed: "at f g = MarkLost s p \<Longrightarrow> seg_state f s = StateFailed \<Longrightarrow>
    fetch_step f (moves g (Fetched s p (seg_err f s)) f)"
| lost_wait: "at f g = MarkLost s p \<Longrightarrow> seg_state f s = StateFetching \<Longrightarrow>
    fetch_step f (moves g (WaitSegment s p) f)"
| lost_through: "at f g = MarkLost s p \<Longrightarrow> seg_state f s = StateEmpty \<Longrightarrow>
    fetch_step f (moves g (Downloading s p) f)"
| seen: "at f g = WaitSegment s p \<Longrightarrow> seg_state f s \<in> {StateInMemory, StateOnDisk} \<Longrightarrow>
    fetch_step f (moves g (Fetched s p None) f)"
| seen_failed: "at f g = WaitSegment s p \<Longrightarrow> seg_state f s = StateFailed \<Longrightarrow>
    fetch_step f (moves g (Fetched s p (seg_err f s)) f)"
| stored: "at f g = Downloading s p \<Longrightarrow> fetch_step f (moves g (Fetched s p None) (marks s StateOnDisk f))"
| nothing_stored: "at f g = Downloading s p \<Longrightarrow> fetch_step f (moves g (Fetched s p None) f)"
| broken: "at f g = Downloading s p \<Longrightarrow>
    fetch_step f (moves g (Fetched s p (Some e)) (marks s StateFailed (f\<lparr>seg_err := (seg_err f)(s := Some e)\<rparr>)))"
| no_slot: "at f g = Downloading s p \<Longrightarrow>
    fetch_step f (moves g (Fetched s p (Some e)) (marks s StateEmpty (f\<lparr>seg_err := (seg_err f)(s := None)\<rparr>)))"
| publish: "at f g = Fetched s p e \<Longrightarrow>
    fetch_step f (moves g (Published s p e) (f\<lparr>promises := (promises f)(p \<mapsto> e)\<rparr>))"
| cleanup: "at f g = Published s p e \<Longrightarrow>
    fetch_step f (moves g (Returned s e) (f\<lparr>inFlight := (inFlight f)(s := None)\<rparr>))"
| evict: "seg_state f s = StateOnDisk \<Longrightarrow> fetch_step f (marks s StateEmpty f)"

inductive fetch_runs :: "fetcher \<Rightarrow> fetcher \<Rightarrow> bool" where
  fetch_refl: "fetch_runs f f"
| fetch_trans: "fetch_runs f f' \<Longrightarrow> fetch_step f' f'' \<Longrightarrow> fetch_runs f f''"

section \<open>Invariant\<close>

text \<open>The promise of a goroutine that leads a fetch, with its segment.\<close>

fun leads :: "fetch_pc \<Rightarrow> (nat \<times> nat) option" where
  "leads (AtMark s p) = Some (s, p)"
| "leads (MarkLost s p) = Some (s, p)"
| "leads (Downloading s p) = Some (s, p)"
| "leads (WaitSegment s p) = Some (s, p)"
| "leads (Fetched s p e) = Some (s, p)"
| "leads (Published s p e) = Some (s, p)"
| "leads _ = None"

text \<open>The table names the one goroutine that leads each fetch, a promise is answered by its leader
  just before it gives up the lead, and whoever waits has a leader or an answer.\<close>

definition fetch_inv :: "fetcher \<Rightarrow> bool" where
  "fetch_inv f \<longleftrightarrow>
     (\<forall>g s p. leads (at f g) = Some (s, p) \<longrightarrow> inFlight f s = Some p)
     \<and> (\<forall>g h x. leads (at f g) = Some x \<longrightarrow> leads (at f h) = Some x \<longrightarrow> g = h)
     \<and> (\<forall>s p. inFlight f s = Some p \<longrightarrow> p < next_promise f \<and> (\<exists>g. leads (at f g) = Some (s, p)))
     \<and> (\<forall>s t p. inFlight f s = Some p \<longrightarrow> inFlight f t = Some p \<longrightarrow> s = t)
     \<and> (\<forall>p e. promises f p = Some e \<longrightarrow> p < next_promise f)
     \<and> (\<forall>g s p. at f g = Waiting s p \<longrightarrow> inFlight f s = Some p \<or> promises f p \<noteq> None)
     \<and> (\<forall>g s p e. at f g = Published s p e \<longrightarrow> promises f p = Some e)
     \<and> (\<forall>g s p. leads (at f g) = Some (s, p) \<longrightarrow> (\<forall>e. at f g \<noteq> Published s p e) \<longrightarrow> promises f p = None)"

lemma moves_simps [simp]:
  "at (moves g l f) = (at f)(g := l)" "inFlight (moves g l f) = inFlight f" "promises (moves g l f) = promises f"
  "next_promise (moves g l f) = next_promise f" "seg_state (moves g l f) = seg_state f"
  "at (marks s st f) = at f" "inFlight (marks s st f) = inFlight f" "promises (marks s st f) = promises f"
  "next_promise (marks s st f) = next_promise f" "at (f\<lparr>inFlight := m\<rparr>) = at f" "at (f\<lparr>promises := pr\<rparr>) = at f"
  by (simp_all add: moves_def marks_def)

lemma fetch_invD:
  assumes "fetch_inv f"
  shows "leads (at f g) = Some (s, p) \<Longrightarrow> inFlight f s = Some p"
    and "leads (at f g) = Some x \<Longrightarrow> leads (at f h) = Some x \<Longrightarrow> g = h"
    and "inFlight f s = Some p \<Longrightarrow> p < next_promise f"
    and "inFlight f s = Some p \<Longrightarrow> \<exists>g. leads (at f g) = Some (s, p)"
    and "inFlight f s = Some p \<Longrightarrow> inFlight f t = Some p \<Longrightarrow> s = t"
    and "promises f p = Some e \<Longrightarrow> p < next_promise f"
    and "at f g = Waiting s p \<Longrightarrow> inFlight f s = Some p \<or> promises f p \<noteq> None"
    and "at f g = Published s p e \<Longrightarrow> promises f p = Some e"
    and "leads (at f g) = Some (s, p) \<Longrightarrow> (\<And>e. at f g \<noteq> Published s p e) \<Longrightarrow> promises f p = None"
proof -
  note i = assms[unfolded fetch_inv_def]
  show "leads (at f g) = Some (s, p) \<Longrightarrow> inFlight f s = Some p" using i by (elim conjE) simp
  show "leads (at f g) = Some x \<Longrightarrow> leads (at f h) = Some x \<Longrightarrow> g = h" using i by (elim conjE) metis
  show "inFlight f s = Some p \<Longrightarrow> p < next_promise f" using i by (elim conjE) simp
  show "inFlight f s = Some p \<Longrightarrow> \<exists>g. leads (at f g) = Some (s, p)" using i by (elim conjE) simp
  show "inFlight f s = Some p \<Longrightarrow> inFlight f t = Some p \<Longrightarrow> s = t" using i by (elim conjE) metis
  show "promises f p = Some e \<Longrightarrow> p < next_promise f" using i by (elim conjE) metis
  show "at f g = Waiting s p \<Longrightarrow> inFlight f s = Some p \<or> promises f p \<noteq> None" using i by (elim conjE) metis
  show "at f g = Published s p e \<Longrightarrow> promises f p = Some e" using i by (elim conjE) metis
  show "leads (at f g) = Some (s, p) \<Longrightarrow> (\<And>e. at f g \<noteq> Published s p e) \<Longrightarrow> promises f p = None"
    using i by (elim conjE) metis
qed

lemma fetch_invI:
  assumes "\<And>g s p. leads (at f g) = Some (s, p) \<Longrightarrow> inFlight f s = Some p"
    and "\<And>g h s p. leads (at f g) = Some (s, p) \<Longrightarrow> leads (at f h) = Some (s, p) \<Longrightarrow> g = h"
    and "\<And>s p. inFlight f s = Some p \<Longrightarrow> p < next_promise f \<and> (\<exists>g. leads (at f g) = Some (s, p))"
    and "\<And>s t p. inFlight f s = Some p \<Longrightarrow> inFlight f t = Some p \<Longrightarrow> s = t"
    and "\<And>p e. promises f p = Some e \<Longrightarrow> p < next_promise f"
    and "\<And>g s p. at f g = Waiting s p \<Longrightarrow> inFlight f s = Some p \<or> promises f p \<noteq> None"
    and "\<And>g s p e. at f g = Published s p e \<Longrightarrow> promises f p = Some e"
    and "\<And>g s p. leads (at f g) = Some (s, p) \<Longrightarrow> \<forall>e. at f g \<noteq> Published s p e \<Longrightarrow> promises f p = None"
  shows "fetch_inv f"
proof -
  have "\<forall>g h x. leads (at f g) = Some x \<longrightarrow> leads (at f h) = Some x \<longrightarrow> g = h" using assms(2) by (metis surj_pair)
  with assms(1,3-8) show ?thesis unfolding fetch_inv_def by (intro conjI) blast+
qed

text \<open>A step that changes neither the table nor who leads.\<close>

lemma fetch_inv_keep:
  assumes "fetch_inv f" "leads l = leads (at f g)" "at f' = at f" "inFlight f' = inFlight f"
    and "promises f' = promises f" "next_promise f' = next_promise f"
    and "\<And>s p. l = Waiting s p \<Longrightarrow> inFlight f s = Some p" "\<And>s p e. l \<noteq> Published s p e"
    and "\<And>s p e. at f g \<noteq> Published s p e"
  shows "fetch_inv (moves g l f')"
proof -
  have l: "leads (at (moves g l f') h) = leads (at f h)" for h using assms(2,3) by simp
  have w: "at (moves g l f') h = Waiting s p \<Longrightarrow> inFlight f s = Some p \<or> promises f p \<noteq> None" for h s p
    using fetch_invD(7)[OF assms(1)] assms(3,7) by (cases "h = g") simp_all
  have pb: "at (moves g l f') h = Published s p e \<longleftrightarrow> at f h = Published s p e" for h s p e
    using assms(3,8,9) by (cases "h = g") simp_all
  note d = fetch_invD[OF assms(1)]
  show ?thesis
    by (rule fetch_invI, unfold l pb moves_simps(2-4) assms(4-6))
      (use d(1-6,8,9) w in \<open>(simp add: assms(5); fail | metis)+\<close>)
qed

lemma fetch_inv_lead:
  assumes "fetch_inv f" "leads (at f g) = None" "inFlight f s = None" "p = next_promise f"
  shows "fetch_inv (moves g (AtMark s p) (f\<lparr>inFlight := (inFlight f)(s \<mapsto> p), next_promise := Suc p\<rparr>))"
    (is "fetch_inv ?f")
proof -
  have p: "promises f p = None" using fetch_invD(6)[OF assms(1)] assms(4) by (metis less_irrefl not_None_eq)
  have fresh: "inFlight f t \<noteq> Some p" for t using fetch_invD(3)[OF assms(1)] assms(4) by blast
  have l: "leads (at ?f h) = (if h = g then Some (s, p) else leads (at f h))" for h by simp
  note old = fetch_invD(1)[OF assms(1)] and d = fetch_invD[OF assms(1)]
  show ?thesis
  proof (rule fetch_invI)
    show "inFlight ?f t = Some q" if "leads (at ?f h) = Some (t, q)" for h t q
      using that old[of h t q] assms(3) by (auto simp: l split: if_splits)
    show "h = k" if "leads (at ?f h) = Some (t, q)" "leads (at ?f k) = Some (t, q)" for h k t q
      using that d(2)[of h "(t, q)" k] old[of h t q] old[of k t q] assms(3) fresh[of t]
      unfolding l by (auto split: if_splits)
    show "q < next_promise ?f \<and> (\<exists>h. leads (at ?f h) = Some (t, q))" if "inFlight ?f t = Some q" for t q
    proof (cases "t = s")
      case True
      then show ?thesis using that assms(4) by auto
    next
      case False
      with that have "inFlight f t = Some q" by simp
      with d(3,4) obtain h where h: "leads (at f h) = Some (t, q)" "q < next_promise f" by blast
      then have "h \<noteq> g" using assms(2) by auto
      with h assms(4) show ?thesis using l[of h] by auto
    qed
    show "t = u" if "inFlight ?f t = Some q" "inFlight ?f u = Some q" for t u q
      using that d(5) fresh by (auto split: if_splits)
    show "q < next_promise ?f" if "promises ?f q = Some e" for q e
      using that d(6) assms(4) by (simp add: less_SucI)
    show "inFlight ?f t = Some q \<or> promises ?f q \<noteq> None" if "at ?f h = Waiting t q" for h t q
      using that d(7)[of h t q] assms(3) by (auto split: if_splits)
    show "promises ?f q = Some e" if "at ?f h = Published t q e" for h t q e
      using that d(8)[of h t q e] by (auto split: if_splits)
    show "promises ?f q = None" if "leads (at ?f h) = Some (t, q)" "\<forall>e. at ?f h \<noteq> Published t q e" for h t q
      using that d(9)[of h t q] p by (cases "h = g") auto
  qed
qed

lemma fetch_inv_publish:
  assumes "fetch_inv f" "at f g = Fetched s p e"
  shows "fetch_inv (moves g (Published s p e) (f\<lparr>promises := (promises f)(p \<mapsto> e)\<rparr>))" (is "fetch_inv ?f")
proof -
  note d = fetch_invD[OF assms(1)]
  have l: "leads (at ?f h) = leads (at f h)" for h using assms(2) by simp
  have own: "leads (at f g) = Some (s, p)" "inFlight f s = Some p" using assms(2) d(1)[of g s p] by simp_all
  have only: "leads (at f h) = Some (t, p) \<Longrightarrow> h = g" for h t
    using d(1)[of h t p] d(5)[of t p s] d(2)[of h "(t, p)" g] own by auto
  have same: "inFlight ?f = inFlight f" "next_promise ?f = next_promise f" by simp_all
  show ?thesis
  proof (rule fetch_invI, unfold l same)
    show "q < next_promise f" if "promises ?f q = Some x" for q x
      using that d(3)[OF own(2)] d(6)[of q x] by (auto split: if_splits)
    show "inFlight f t = Some q \<or> promises ?f q \<noteq> None" if "at ?f h = Waiting t q" for h t q
      using that d(7)[of h t q] by (auto split: if_splits)
    show "promises ?f q = Some x" if "at ?f h = Published t q x" for h t q x
    proof (cases "h = g")
      case False
      with that have "at f h = Published t q x" by simp
      moreover from this have "q \<noteq> p" using only[of h t] False by auto
      ultimately show ?thesis using d(8)[of h t q x] by simp
    qed (use that in simp)
    show "promises ?f q = None" if "leads (at f h) = Some (t, q)" "\<forall>x. at ?f h \<noteq> Published t q x" for h t q
    proof -
      have "h \<noteq> g" using that assms(2) by auto
      moreover from this have "q \<noteq> p" using only[of h t] that(1) by auto
      ultimately show ?thesis using that d(9)[of h t q] by simp
    qed
  qed (use d in \<open>blast+\<close>)
qed

lemma fetch_inv_cleanup:
  assumes "fetch_inv f" "at f g = Published s p e"
  shows "fetch_inv (moves g (Returned s e) (f\<lparr>inFlight := (inFlight f)(s := None)\<rparr>))" (is "fetch_inv ?f")
proof -
  note d = fetch_invD[OF assms(1)]
  have own: "leads (at f g) = Some (s, p)" "inFlight f s = Some p" "promises f p = Some e"
    using assms(2) d(1)[of g s p] d(8)[of g s p e] by simp_all
  have l: "leads (at ?f h) = (if h = g then None else leads (at f h))" for h by simp
  have other: "t \<noteq> s \<and> inFlight f t = Some q" if "leads (at f h) = Some (t, q)" "h \<noteq> g" for h t q
    using that d(1)[of h t q] d(2)[of h "(t, q)" g] own by auto
  have same: "promises ?f = promises f" "next_promise ?f = next_promise f" by simp_all
  show ?thesis
  proof (rule fetch_invI, unfold same)
    show "inFlight ?f t = Some q" if "leads (at ?f h) = Some (t, q)" for h t q
      using that other[of h t q] by (auto simp: l split: if_splits)
    show "h = k" if "leads (at ?f h) = Some (t, q)" "leads (at ?f k) = Some (t, q)" for h k t q
      using that d(2)[of h "(t, q)" k] unfolding l by (auto split: if_splits)
    show "q < next_promise f \<and> (\<exists>h. leads (at ?f h) = Some (t, q))" if "inFlight ?f t = Some q" for t q
    proof -
      from that have t: "t \<noteq> s" "inFlight f t = Some q" by (auto split: if_splits)
      with d(3,4) obtain h where h: "leads (at f h) = Some (t, q)" "q < next_promise f" by blast
      moreover have "h \<noteq> g" using h(1) t(1) assms(2) by auto
      ultimately show ?thesis using l[of h] by auto
    qed
    show "t = u" if "inFlight ?f t = Some q" "inFlight ?f u = Some q" for t u q
      using that d(5) by (auto split: if_splits)
    show "inFlight ?f t = Some q \<or> promises f q \<noteq> None" if "at ?f h = Waiting t q" for h t q
      using that d(7)[of h t q] own by (auto split: if_splits)
    show "promises f q = Some x" if "at ?f h = Published t q x" for h t q x
      using that d(8)[of h t q x] by (auto split: if_splits)
    show "promises f q = None" if "leads (at ?f h) = Some (t, q)" "\<forall>x. at ?f h \<noteq> Published t q x" for h t q
      using that d(9)[of h t q] by (cases "h = g") auto
  qed (use d in blast)
qed

lemma fetch_inv_step: "fetch_step f f' \<Longrightarrow> fetch_inv f \<Longrightarrow> fetch_inv f'"
proof (induction rule: fetch_step.induct)
  case (lead f g s p)
  then show ?case by (intro fetch_inv_lead) simp_all
next
  case (publish f g s p e)
  from fetch_inv_publish[OF publish(2,1)] show ?case .
next
  case (cleanup f g s p e)
  from fetch_inv_cleanup[OF cleanup(2,1)] show ?case .
next
  case (evict f s)
  then show ?case by (simp add: fetch_inv_def)
qed (rule fetch_inv_keep, assumption, simp_all)+

lemma fetch_inv_init: "fetcher_init f \<Longrightarrow> fetch_inv f"
  by (simp add: fetcher_init_def fetch_inv_def)

lemma fetch_inv_runs: "fetch_runs f f' \<Longrightarrow> fetch_inv f \<Longrightarrow> fetch_inv f'"
  by (induction rule: fetch_runs.induct) (auto intro: fetch_inv_step)

lemma answer_step: "fetch_step f f' \<Longrightarrow> fetch_inv f \<Longrightarrow> promises f p = Some e \<Longrightarrow> promises f' p = Some e"
proof (induction rule: fetch_step.induct)
  case (publish f g s q x)
  have "promises f q = None"
    using publish(1) fetch_invD(9)[OF publish(2), of g s q] by simp
  with publish show ?case by auto
qed (simp_all add: moves_def marks_def)

lemma answer_runs: "fetch_runs f f' \<Longrightarrow> fetch_inv f \<Longrightarrow> promises f p = Some e \<Longrightarrow> promises f' p = Some e"
  by (induction rule: fetch_runs.induct) (auto intro: answer_step fetch_inv_runs)

section \<open>Properties\<close>

text \<open>C27. However many goroutines ask for however many segments, in every order of their atomic steps and
  with evictions in between, at most one of them downloads a given segment; a goroutine that waits
  for another's download has one to wait for, or its answer is there; and an answer, once given, is
  the same for all who wait.\<close>

theorem one_download_per_segment:
  assumes "fetcher_init f0" "fetch_runs f0 f"
  shows "(at f g = Downloading s p \<longrightarrow> at f h = Downloading s q \<longrightarrow> g = h)
    \<and> (at f g = Waiting s p \<longrightarrow> promises f p \<noteq> None \<or> (\<exists>h. leads (at f h) = Some (s, p)))
    \<and> (promises f p = Some e \<longrightarrow> fetch_runs f f' \<longrightarrow> promises f' p = Some e)"
proof -
  have inv: "fetch_inv f" using fetch_inv_runs[OF assms(2)] fetch_inv_init[OF assms(1)] by simp
  have "g = h" if "at f g = Downloading s p" "at f h = Downloading s q"
    using that fetch_invD(1)[OF inv, of g s p] fetch_invD(1)[OF inv, of h s q] fetch_invD(2)[OF inv, of g "(s, p)" h]
    by simp
  moreover have "promises f p \<noteq> None \<or> (\<exists>h. leads (at f h) = Some (s, p))" if "at f g = Waiting s p"
    using fetch_invD(7)[OF inv that] fetch_invD(4)[OF inv] by blast
  ultimately show ?thesis using answer_runs[OF _ inv] by blast
qed

definition quiet :: fetcher where
  "quiet = \<lparr>seg_state = (\<lambda>s. StateEmpty), seg_err = (\<lambda>s. None), inFlight = Map.empty, promises = Map.empty,
     next_promise = 0, at = (\<lambda>g. Outside)\<rparr>"

text \<open>Goroutine 0 downloads segment 5 while goroutine 1 waits for it.\<close>

definition two_readers :: fetcher where
  "two_readers = quiet\<lparr>seg_state := (\<lambda>s. StateEmpty)(5 := StateFetching), inFlight := [5 \<mapsto> 0], next_promise := 1,
     at := (\<lambda>g. Outside)(0 := Downloading 5 0, 1 := Waiting 5 0)\<rparr>"

lemma two_readers_reached: "fetch_runs quiet two_readers"
proof -
  let ?lead = "\<lambda>l. quiet\<lparr>inFlight := [5 \<mapsto> 0], next_promise := 1, at := (\<lambda>g. Outside)(0 := l)\<rparr>"
  let ?m = "\<lambda>l. two_readers\<lparr>at := (\<lambda>g. Outside)(0 := Downloading 5 0, 1 := l)\<rparr>"
  have s1: "fetch_step quiet (quiet\<lparr>at := (\<lambda>g. Outside)(0 := AtState 5)\<rparr>)"
    using call[of quiet 0 5] by (simp add: moves_def quiet_def)
  have s2: "fetch_step (quiet\<lparr>at := (\<lambda>g. Outside)(0 := AtState 5)\<rparr>) (quiet\<lparr>at := (\<lambda>g. Outside)(0 := AtTable 5)\<rparr>)"
    using missing[of "quiet\<lparr>at := (\<lambda>g. Outside)(0 := AtState 5)\<rparr>" 0 5] by (simp add: moves_def quiet_def)
  have s3: "fetch_step (quiet\<lparr>at := (\<lambda>g. Outside)(0 := AtTable 5)\<rparr>) (?lead (AtMark 5 0))"
    using lead[of "quiet\<lparr>at := (\<lambda>g. Outside)(0 := AtTable 5)\<rparr>" 0 5 0] by (simp add: moves_def quiet_def)
  have s4: "fetch_step (?lead (AtMark 5 0)) (two_readers\<lparr>at := (\<lambda>g. Outside)(0 := Downloading 5 0)\<rparr>)"
    using mark[of "?lead (AtMark 5 0)" 0 5 0] by (simp add: moves_def marks_def quiet_def two_readers_def)
  have s5: "fetch_step (two_readers\<lparr>at := (\<lambda>g. Outside)(0 := Downloading 5 0)\<rparr>) (?m (AtState 5))"
    using call[of "two_readers\<lparr>at := (\<lambda>g. Outside)(0 := Downloading 5 0)\<rparr>" 1 5]
    by (simp add: moves_def quiet_def two_readers_def)
  have s6: "fetch_step (?m (AtState 5)) (?m (AtTable 5))"
    using missing[of "?m (AtState 5)" 1 5] by (simp add: moves_def quiet_def two_readers_def)
  have s7: "fetch_step (?m (AtTable 5)) two_readers"
    using join[of "?m (AtTable 5)" 1 5 0] by (simp add: moves_def quiet_def two_readers_def)
  note first = fetch_trans[OF fetch_trans[OF fetch_trans[OF fetch_refl s1] s2] s3]
  show ?thesis
    by (rule fetch_trans[OF fetch_trans[OF fetch_trans[OF fetch_trans[OF first s4] s5] s6] s7])
qed

theorem one_download_per_segment_witness:
  "at two_readers 1 = Waiting 5 0 \<and> promises two_readers 0 = None \<and> (\<exists>h. leads (at two_readers h) = Some (5, 0))"
proof -
  have "fetcher_init quiet" by (simp add: fetcher_init_def quiet_def)
  note once = one_download_per_segment[OF this two_readers_reached, THEN conjunct2, THEN conjunct1, rule_format]
  have w: "at two_readers 1 = Waiting 5 0" by (simp add: two_readers_def)
  moreover have "promises two_readers 0 = None" by (simp add: two_readers_def quiet_def)
  ultimately show ?thesis using once[OF w] by blast
qed

end
