(* ===== verification/Contracts.thy ===== *)
theory Contracts
  imports Prelude "HOL-Library.Sublist"
begin

text \<open>
  The interfaces between components, as locales: the operations a client calls and the laws the
  provider promises. The client's lemmas are proved here once, from the laws alone; the theory of
  the component that provides an interface interprets it on the model of its code.
\<close>

section \<open>A cache of values\<close>

text \<open>
  What \<open>Store\<close> needs of its cache: a cached value is the last one put for its key, and a cache
  may forget but never invent. \<open>peek\<close> reads without side effect.
\<close>

locale value_cache =
  fixes peek :: "'c \<Rightarrow> 'k \<Rightarrow> 'v option"
    and cget :: "'c \<Rightarrow> 'k \<Rightarrow> 'v option \<times> 'c"
    and cput :: "'c \<Rightarrow> 'k \<Rightarrow> 'v \<Rightarrow> 'c"
    and cremove :: "'c \<Rightarrow> 'k \<Rightarrow> 'c"
    and cclear :: "'c \<Rightarrow> 'c"
    and cinv :: "'c \<Rightarrow> bool"
  assumes get_value: "cinv c \<Longrightarrow> fst (cget c k) = peek c k"
    and get_keeps: "cinv c \<Longrightarrow> peek (snd (cget c k)) = peek c"
    and put_peek: "cinv c \<Longrightarrow> peek (cput c k v) j = Some w \<Longrightarrow>
      (if j = k then w = v else peek c j = Some w)"
    and put_same: "cinv c \<Longrightarrow> peek (cput c k v) k = Some v"
    and remove_peek: "cinv c \<Longrightarrow> peek (cremove c k) = (peek c)(k := None)"
    and clear_peek: "peek (cclear c) = Map.empty"
    and inv_get: "cinv c \<Longrightarrow> cinv (snd (cget c k))"
    and inv_put: "cinv c \<Longrightarrow> cinv (cput c k v)"
    and inv_remove: "cinv c \<Longrightarrow> cinv (cremove c k)"
    and inv_clear: "cinv (cclear c)"
begin

text \<open>The cache agrees with the map of current values.\<close>

definition coherent :: "'c \<Rightarrow> ('k \<rightharpoonup> 'v) \<Rightarrow> bool" where
  "coherent c m \<longleftrightarrow> cinv c \<and> (\<forall>k v. peek c k = Some v \<longrightarrow> m k = Some v)"

lemma coherent_hit: "coherent c m \<Longrightarrow> fst (cget c k) = Some v \<Longrightarrow> m k = Some v"
  by (auto simp: coherent_def get_value)

lemma coherent_get: "coherent c m \<Longrightarrow> coherent (snd (cget c k)) m"
  by (auto simp: coherent_def get_keeps inv_get)

lemma coherent_fill: "coherent c m \<Longrightarrow> m k = Some v \<Longrightarrow> coherent (cput c k v) m"
  unfolding coherent_def by (metis inv_put put_peek)

lemma coherent_invalidate: "coherent c m \<Longrightarrow> coherent (cremove c k) (m(k := x))"
  by (auto simp: coherent_def remove_peek inv_remove)

lemma coherent_clear: "coherent (cclear c) m"
  by (simp add: coherent_def clear_peek inv_clear)

end

section \<open>An index from keys to entries\<close>

text \<open>
  What recovery and the store need of the index: it behaves like a finite map. A log is replayed
  by putting the entry of every live record and deleting the key of every tombstone.
\<close>

locale kv_index =
  fixes iget :: "'i \<Rightarrow> 'k \<Rightarrow> 'e option"
    and iput :: "'i \<Rightarrow> 'k \<Rightarrow> 'e \<Rightarrow> 'i"
    and idelete :: "'i \<Rightarrow> 'k \<Rightarrow> 'i"
    and iempty :: "'i"
    and iinv :: "'i \<Rightarrow> bool"
  assumes get_empty: "iget iempty = Map.empty"
    and get_put: "iinv i \<Longrightarrow> iget (iput i k e) = (iget i)(k \<mapsto> e)"
    and get_delete: "iinv i \<Longrightarrow> iget (idelete i k) = (iget i)(k := None)"
    and inv_empty: "iinv iempty"
    and inv_put: "iinv i \<Longrightarrow> iinv (iput i k e)"
    and inv_delete: "iinv i \<Longrightarrow> iinv (idelete i k)"
begin

definition apply_record :: "'k \<times> 'e option \<Rightarrow> 'i \<Rightarrow> 'i" where
  "apply_record r i = (case r of (k, Some e) \<Rightarrow> iput i k e | (k, None) \<Rightarrow> idelete i k)"

definition map_record :: "'k \<times> 'e option \<Rightarrow> ('k \<rightharpoonup> 'e) \<Rightarrow> ('k \<rightharpoonup> 'e)" where
  "map_record r m = m(fst r := snd r)"

lemma apply_record_inv: "iinv i \<Longrightarrow> iinv (apply_record r i)"
  by (cases r; cases "snd r") (auto simp: apply_record_def inv_put inv_delete)

lemma apply_record_get: "iinv i \<Longrightarrow> iget (apply_record r i) = map_record r (iget i)"
  by (cases r; cases "snd r") (auto simp: apply_record_def map_record_def get_put get_delete)

lemma replay_inv: "iinv i \<Longrightarrow> iinv (fold apply_record rs i)"
  by (induction rs arbitrary: i) (auto simp: apply_record_inv)

lemma replay_get: "iinv i \<Longrightarrow> iget (fold apply_record rs i) = fold map_record rs (iget i)"
  by (induction rs arbitrary: i) (auto simp: apply_record_inv apply_record_get)

lemma replay_last:
  "fold map_record (rs @ [(k, e)]) m = (fold map_record rs m)(k := e)"
  by (simp add: map_record_def)

end

section \<open>A durable store of keys and values\<close>

text \<open>
  What the layers above the storage engine need of it: a read answers from the map the store stands
  for, a write or deletion that succeeds changes that map at its key, one that fails does not, and
  the store stays usable. \<open>fits\<close> says which records the store can hold, \<open>meta\<close> what it keeps for
  the metadata of a record.
\<close>

locale kv_store =
  fixes sget :: "'s \<Rightarrow> 'k \<Rightarrow> ('e + 'v) \<times> 's"
    and sput :: "'s \<Rightarrow> 'k \<Rightarrow> 'v \<Rightarrow> 'm option \<Rightarrow> 'e option \<times> 's"
    and sdelete :: "'s \<Rightarrow> 'k \<Rightarrow> 'e option \<times> 's"
    and sabs :: "'s \<Rightarrow> 'k \<Rightarrow> ('v \<times> 'm) option"
    and sup :: "'s \<Rightarrow> bool"
    and fits :: "'k \<Rightarrow> 'v \<Rightarrow> 'm option \<Rightarrow> bool"
    and meta :: "'m option \<Rightarrow> 'm"
  assumes get_law: "sup s \<Longrightarrow> sget s k = (r, s') \<Longrightarrow> sup s' \<and> sabs s' = sabs s
        \<and> (case sabs s k of None \<Rightarrow> \<exists>e. r = Inl e | Some x \<Rightarrow> r = Inr (fst x))"
    and put_law: "sup s \<Longrightarrow> fits k v m \<Longrightarrow> sput s k v m = (err, s') \<Longrightarrow>
        sup s' \<and> sabs s' = (if err = None then (sabs s)(k \<mapsto> (v, meta m)) else sabs s)"
    and delete_law: "sup s \<Longrightarrow> sabs s k \<noteq> None \<Longrightarrow> sdelete s k = (err, s') \<Longrightarrow>
        sup s' \<and> sabs s' = (if err = None then (sabs s)(k := None) else sabs s)"
    and delete_missing: "sup s \<Longrightarrow> sabs s k = None \<Longrightarrow> sdelete s k = (err, s') \<Longrightarrow> err \<noteq> None \<and> s' = s"
begin

lemma get_after_put:
  assumes "sup s" "fits k v m" "sput s k v m = (None, s1)"
  shows "fst (sget s1 k) = Inr v"
proof -
  from put_law[OF assms] have "sup s1" "sabs s1 k = Some (v, meta m)" by simp_all
  with get_law[of s1 k] show ?thesis by (cases "sget s1 k") auto
qed

lemma put_other:
  assumes "sup s" "fits k v m" "sput s k v m = (r, s1)" "j \<noteq> k"
  shows "sabs s1 j = sabs s j"
  using put_law[OF assms(1-3)] assms(4) by simp

lemma delete_gone:
  assumes "sup s" "sdelete s k = (None, s1)"
  shows "sup s1 \<and> sabs s1 = (sabs s)(k := None) \<and> sabs s k \<noteq> None"
  using delete_law[OF assms(1) _ assms(2)] delete_missing[OF assms(1) _ assms(2)]
  by (cases "sabs s k = None") simp_all

lemma delete_fails:
  assumes "sup s" "sdelete s k = (Some e, s1)"
  shows "sup s1 \<and> sabs s1 = sabs s"
  using delete_law[OF assms(1) _ assms(2)] delete_missing[OF assms(1) _ assms(2)] assms(1)
  by (cases "sabs s k = None") simp_all

lemma delete_any:
  assumes "sup s" "sdelete s k = (r, s1)"
  shows "sup s1 \<and> sabs s1 = (if r = None then (sabs s)(k := None) else sabs s)"
  using delete_gone[OF assms(1)] delete_fails[OF assms(1)] assms(2) by (cases r) auto

text \<open>Deleting keys one after the other, ignoring errors: nothing else changes.\<close>

lemma delete_each:
  "sup s \<Longrightarrow> sup (fold (\<lambda>k s. snd (sdelete s k)) ks s)
     \<and> (\<forall>k. sabs (fold (\<lambda>k s. snd (sdelete s k)) ks s) k = sabs s k
          \<or> k \<in> set ks \<and> sabs (fold (\<lambda>k s. snd (sdelete s k)) ks s) k = None)"
proof (induction ks arbitrary: s)
  case (Cons x xs)
  obtain r s1 where d: "sdelete s x = (r, s1)" by fastforce
  from delete_any[OF Cons.prems d] have up: "sup s1"
    and ab: "sabs s1 = (if r = None then (sabs s)(x := None) else sabs s)" by simp_all
  note ih = Cons.IH[OF up]
  have "sabs s1 k = sabs s k \<or> k = x \<and> sabs s1 k = None" for k by (simp add: ab)
  with ih d show ?case by (simp, metis)
qed simp

end

section \<open>A queue\<close>

text \<open>
  What producers and workers need of a queue: a push that is accepted adds at the back, one that is
  refused adds nothing, a pop takes from the front, and a deletion only leaves things out. The
  history of a run is the queue with what was accepted and what was popped, in order.
\<close>

datatype ('a, 'd) fifo_op = Push 'a | Pop | Drop 'd

fun fifo_run ::
  "('q \<Rightarrow> 'a \<Rightarrow> bool \<times> 'q) \<Rightarrow> ('q \<Rightarrow> 'a option \<times> 'q) \<Rightarrow> ('d \<Rightarrow> 'q \<Rightarrow> 'q)
     \<Rightarrow> ('a, 'd) fifo_op list \<Rightarrow> 'q \<times> 'a list \<times> 'a list \<Rightarrow> 'q \<times> 'a list \<times> 'a list" where
  "fifo_run push pop drop_some [] h = h"
| "fifo_run push pop drop_some (Push x # ops) (q, acc, out) =
     (case push q x of (ok, q') \<Rightarrow> fifo_run push pop drop_some ops (q', if ok then acc @ [x] else acc, out))"
| "fifo_run push pop drop_some (Pop # ops) (q, acc, out) =
     (case pop q of
        (None, q') \<Rightarrow> fifo_run push pop drop_some ops (q', acc, out)
      | (Some x, q') \<Rightarrow> fifo_run push pop drop_some ops (q', acc, out @ [x]))"
| "fifo_run push pop drop_some (Drop d # ops) (q, acc, out) =
     fifo_run push pop drop_some ops (drop_some d q, acc, out)"

locale fifo =
  fixes push :: "'q \<Rightarrow> 'a \<Rightarrow> bool \<times> 'q"
    and pop :: "'q \<Rightarrow> 'a option \<times> 'q"
    and drop_some :: "'d \<Rightarrow> 'q \<Rightarrow> 'q"
    and contents :: "'q \<Rightarrow> 'a list"
  assumes push_law: "push q x = (ok, q') \<Longrightarrow> contents q' = (if ok then contents q @ [x] else contents q)"
    and pop_some: "pop q = (Some x, q') \<Longrightarrow> contents q = x # contents q'"
    and pop_none: "pop q = (None, q') \<Longrightarrow> contents q' = contents q"
    and drop_law: "subseq (contents (drop_some d q)) (contents q)"
begin

text \<open>First in, first out: what was popped and what is queued is what was accepted, in its order,
  less what was deleted.\<close>

lemma run_subseq:
  "fifo_run push pop drop_some ops (q, acc, out) = (q', acc', out') \<Longrightarrow> subseq (out @ contents q) acc \<Longrightarrow>
   subseq (out' @ contents q') acc'"
proof (induction ops arbitrary: q acc out)
  case (Cons a ops)
  show ?case
  proof (cases a)
    case (Push x)
    obtain ok q1 where p: "push q x = (ok, q1)" by fastforce
    have "subseq (out @ contents q1) (if ok then acc @ [x] else acc)"
      using push_law[OF p] Cons.prems(2) list_emb_append_mono[OF Cons.prems(2), of "[x]" "[x]"] by simp
    with Cons.IH[OF _ this] Cons.prems(1) Push p show ?thesis by simp
  next
    case Pop
    obtain r q1 where p: "pop q = (r, q1)" by fastforce
    show ?thesis
    proof (cases r)
      case None
      with Cons Pop p pop_none show ?thesis by simp
    next
      case (Some x)
      have "subseq ((out @ [x]) @ contents q1) acc" using Cons.prems(2) pop_some[of q x q1] p Some by simp
      with Cons.IH[OF _ this] Cons.prems(1) Pop p Some show ?thesis by simp
    qed
  next
    case (Drop d)
    have "subseq (out @ contents (drop_some d q)) (out @ contents q)"
      by (rule list_emb_append_mono[OF subseq_order.order_refl drop_law])
    with Cons.prems(2) have "subseq (out @ contents (drop_some d q)) acc" by (metis subseq_order.trans)
    with Cons.IH[OF _ this] Cons.prems(1) Drop show ?thesis by simp
  qed
qed simp

lemma run_exact:
  "fifo_run push pop drop_some ops (q, acc, out) = (q', acc', out') \<Longrightarrow> \<forall>d. Drop d \<notin> set ops \<Longrightarrow>
   out @ contents q = acc \<Longrightarrow> out' @ contents q' = acc'"
proof (induction ops arbitrary: q acc out)
  case (Cons a ops)
  show ?case
  proof (cases a)
    case (Push x)
    obtain ok q1 where p: "push q x = (ok, q1)" by fastforce
    have "out @ contents q1 = (if ok then acc @ [x] else acc)" using push_law[OF p] Cons.prems(3) by auto
    with Cons.IH[OF _ _ this] Cons.prems(1,2) Push p show ?thesis by simp
  next
    case Pop
    obtain r q1 where p: "pop q = (r, q1)" by fastforce
    show ?thesis
    proof (cases r)
      case None
      with Cons Pop p pop_none show ?thesis by simp
    next
      case (Some x)
      have "(out @ [x]) @ contents q1 = acc" using Cons.prems(3) pop_some[of q x q1] p Some by simp
      with Cons.IH[OF _ _ this] Cons.prems(1,2) Pop p Some show ?thesis by simp
    qed
  next
    case (Drop d)
    with Cons.prems(2) show ?thesis by (auto dest: spec[of _ d])
  qed
qed simp

end

section \<open>Calls and their answers\<close>

text \<open>
  An object as its clients see it: a call gives an answer and the next state, or never returns. A
  sequence of calls gives all answers, or nothing when one of the calls does not return.
\<close>

fun calls :: "('o \<Rightarrow> 's \<Rightarrow> ('a \<times> 's) option) \<Rightarrow> 'o list \<Rightarrow> 's \<Rightarrow> ('a list \<times> 's) option" where
  "calls f [] s = Some ([], s)"
| "calls f (x # xs) s =
     (case f x s of
        None \<Rightarrow> None
      | Some (a, t) \<Rightarrow> map_option (\<lambda>(as, u). (a # as, u)) (calls f xs t))"

text \<open>The refinement of a reference object: each call answers as the reference does and moves to
  the state the reference moves to.\<close>

locale refinement =
  fixes call :: "'o \<Rightarrow> 's \<Rightarrow> ('a \<times> 's) option"
    and ref :: "'o \<Rightarrow> 't \<Rightarrow> ('a \<times> 't) option"
    and abs :: "'s \<Rightarrow> 't"
    and good :: "'s \<Rightarrow> bool"
  assumes call_law: "good s \<Longrightarrow> case call x s of
      None \<Rightarrow> ref x (abs s) = None
    | Some (a, s') \<Rightarrow> good s' \<and> ref x (abs s) = Some (a, abs s')"
begin

lemma calls_law:
  "good s \<Longrightarrow> case calls call xs s of
      None \<Rightarrow> calls ref xs (abs s) = None
    | Some (as, s') \<Rightarrow> good s' \<and> calls ref xs (abs s) = Some (as, abs s')"
proof (induction xs arbitrary: s)
  case (Cons x xs)
  note st = call_law[OF Cons.prems, of x]
  show ?case
  proof (cases "call x s")
    case None
    with st show ?thesis by simp
  next
    case (Some r)
    obtain a d where r: "r = (a, d)" by (cases r)
    with Some st have "good d" "ref x (abs s) = Some (a, abs d)" by auto
    with Cons.IH[of d] Some r show ?thesis by (cases "calls call xs d") auto
  qed
qed simp

lemma calls_refine: "good s \<Longrightarrow> map_option (map_prod id abs) (calls call xs s) = calls ref xs (abs s)"
  using calls_law[of s xs] by (cases "calls call xs s") auto

end

end
