(* ===== verification/Store_Index.thy ===== *)
theory Store_Index
  imports Contracts
begin

text \<open>
  The in-memory index of \<open>pkg/storage/hybrid/index.go\<close>: the primary map from keys to entries
  and the three secondary indexes (category, provider, status), each a map from a field's value to
  the set of keys that have it. The invariant says that the secondary indexes are exactly what the
  primary map implies. Maps are association lists whose order stands for Go's unspecified
  iteration order; a set of keys is a list without duplicates.
\<close>

section \<open>State\<close>

record index_entry =
  Offset :: nat
  eSize :: int
  Category :: gostring
  Provider :: gostring
  Status :: gostring
  Name :: gostring
  TotalSize :: int
  Protocol :: gostring
  Bad :: bool
  AddedOn :: int

type_synonym key_sets = "(gostring \<times> gostring list) list"

record store_index =
  entries :: "(gostring \<times> index_entry) list"
  byCategory :: key_sets
  byProvider :: key_sets
  byStatus :: key_sets
  sortedKeys :: "gostring list"
  sortedDirty :: bool

definition newIndex :: store_index where
  "newIndex = \<lparr>entries = [], byCategory = [], byProvider = [], byStatus = [],
     sortedKeys = [], sortedDirty = False\<rparr>"

section \<open>Secondary indexes\<close>

text \<open>The block that \<open>addToSecondary\<close> repeats for each field.\<close>

definition add_key :: "key_sets \<Rightarrow> gostring \<Rightarrow> gostring \<Rightarrow> key_sets" where
  "add_key m c key =
     (if c \<noteq> [] then
        let ks = (case map_of m c of None \<Rightarrow> [] | Some ks \<Rightarrow> ks)
        in AList.update c (List.insert key ks) m
      else m)"

definition addToSecondary :: "store_index \<Rightarrow> gostring \<Rightarrow> index_entry \<Rightarrow> store_index" where
  "addToSecondary idx key e =
     idx\<lparr>byCategory := add_key (byCategory idx) (Category e) key,
         byProvider := add_key (byProvider idx) (Provider e) key,
         byStatus := add_key (byStatus idx) (Status e) key\<rparr>"

text \<open>The block that \<open>removeFromSecondary\<close> repeats for each field.\<close>

definition remove_key :: "key_sets \<Rightarrow> gostring \<Rightarrow> gostring \<Rightarrow> key_sets" where
  "remove_key m c key =
     (if c \<noteq> [] then
        case map_of m c of
          None \<Rightarrow> m
        | Some ks \<Rightarrow>
            let ks' = removeAll key ks
            in if length ks' = 0 then AList.delete c m else AList.update c ks' m
      else m)"

definition removeFromSecondary :: "store_index \<Rightarrow> gostring \<Rightarrow> index_entry \<Rightarrow> store_index" where
  "removeFromSecondary idx key e =
     idx\<lparr>byCategory := remove_key (byCategory idx) (Category e) key,
         byProvider := remove_key (byProvider idx) (Provider e) key,
         byStatus := remove_key (byStatus idx) (Status e) key\<rparr>"

section \<open>Operations\<close>

definition idx_Get :: "store_index \<Rightarrow> gostring \<Rightarrow> index_entry option" where
  "idx_Get idx key = map_of (entries idx) key"

definition idx_Put :: "store_index \<Rightarrow> gostring \<Rightarrow> index_entry \<Rightarrow> store_index" where
  "idx_Put idx key entry =
     (let idx1 = (case map_of (entries idx) key of
                    Some existing \<Rightarrow> removeFromSecondary idx key existing
                  | None \<Rightarrow> idx);
          idx2 = idx1\<lparr>entries := AList.update key entry (entries idx1)\<rparr>
      in (addToSecondary idx2 key entry)\<lparr>sortedDirty := True\<rparr>)"

definition idx_Delete :: "store_index \<Rightarrow> gostring \<Rightarrow> store_index" where
  "idx_Delete idx key =
     (case map_of (entries idx) key of
        None \<Rightarrow> idx
      | Some entry \<Rightarrow>
          let idx1 = (removeFromSecondary idx key entry)\<lparr>sortedDirty := True\<rparr>
          in idx1\<lparr>entries := AList.delete key (entries idx1)\<rparr>)"

definition idx_Len :: "store_index \<Rightarrow> nat" where
  "idx_Len idx = length (entries idx)"

definition idx_Keys :: "store_index \<Rightarrow> gostring list" where
  "idx_Keys idx = map fst (entries idx)"

definition offset_of :: "store_index \<Rightarrow> gostring \<Rightarrow> nat" where
  "offset_of idx k = (case map_of (entries idx) k of None \<Rightarrow> 0 | Some e \<Rightarrow> Offset e)"

text \<open>
  The sort reads every key's entry from the primary map, where each of them is, so the
  comparison's \<open>nil\<close> case does not arise; \<open>sort_key\<close> is a stable sort, and the offsets of
  live entries differ, so stability does not matter.
\<close>

definition KeysSortedByOffset :: "store_index \<Rightarrow> gostring list \<times> store_index" where
  "KeysSortedByOffset idx =
     (if \<not> sortedDirty idx \<and> length (sortedKeys idx) = length (entries idx)
      then (sortedKeys idx, idx)
      else let ks = sort_key (offset_of idx) (map fst (entries idx))
           in (ks, idx\<lparr>sortedKeys := ks, sortedDirty := False\<rparr>))"

text \<open>The callback of \<open>ForEach\<close> threads a state and may stop the loop with an error.\<close>

fun idx_ForEach_loop ::
  "(gostring \<times> index_entry) list \<Rightarrow> (gostring \<Rightarrow> index_entry \<Rightarrow> 's \<Rightarrow> 'e option \<times> 's) \<Rightarrow> 's \<Rightarrow> 'e option \<times> 's" where
  "idx_ForEach_loop [] fn s = (None, s)"
| "idx_ForEach_loop ((k, v) # rest) fn s =
     (case fn k v s of
        (Some e, s') \<Rightarrow> (Some e, s')
      | (None, s') \<Rightarrow> idx_ForEach_loop rest fn s')"

definition idx_ForEach ::
  "store_index \<Rightarrow> (gostring \<Rightarrow> index_entry \<Rightarrow> 's \<Rightarrow> 'e option \<times> 's) \<Rightarrow> 's \<Rightarrow> 'e option \<times> 's" where
  "idx_ForEach idx fn s = idx_ForEach_loop (entries idx) fn s"

definition GetByCategory :: "store_index \<Rightarrow> gostring \<Rightarrow> gostring list option" where
  "GetByCategory idx c = map_of (byCategory idx) c"

definition GetByProvider :: "store_index \<Rightarrow> gostring \<Rightarrow> gostring list option" where
  "GetByProvider idx p = map_of (byProvider idx) p"

definition GetByStatus :: "store_index \<Rightarrow> gostring \<Rightarrow> gostring list option" where
  "GetByStatus idx st = map_of (byStatus idx) st"

definition idx_Categories :: "store_index \<Rightarrow> gostring list" where
  "idx_Categories idx = map fst (byCategory idx)"

definition idx_TotalSize :: "store_index \<Rightarrow> int" where
  "idx_TotalSize idx = fold (\<lambda>p total. i64 (total + eSize (snd p))) (entries idx) 0"

definition sets_overhead :: "key_sets \<Rightarrow> int \<Rightarrow> int" where
  "sets_overhead m s = fold (\<lambda>p total. total + int (length (snd p)) * 50) m s"

definition idx_MemoryUsage :: "store_index \<Rightarrow> int" where
  "idx_MemoryUsage idx =
     int (length (entries idx)) * 180
     + sets_overhead (byStatus idx) (sets_overhead (byProvider idx) (sets_overhead (byCategory idx) 0))"

section \<open>Invariant\<close>

text \<open>
  A secondary index for a field: it has no empty key, no empty set and no duplicate, and the set
  under a value holds exactly the keys whose entry has that value in the field.
\<close>

definition keys_of :: "key_sets \<Rightarrow> gostring \<Rightarrow> gostring list" where
  "keys_of m c = (case map_of m c of None \<Rightarrow> [] | Some ks \<Rightarrow> ks)"

definition sets_ok :: "key_sets \<Rightarrow> (gostring \<rightharpoonup> gostring) \<Rightarrow> bool" where
  "sets_ok m field \<longleftrightarrow>
     distinct (map fst m)
     \<and> (\<forall>c ks. map_of m c = Some ks \<longrightarrow> ks \<noteq> [] \<and> distinct ks)
     \<and> (\<forall>c k. k \<in> set (keys_of m c) \<longleftrightarrow> c \<noteq> [] \<and> field k = Some c)"

definition idx_inv :: "store_index \<Rightarrow> bool" where
  "idx_inv idx \<longleftrightarrow>
     distinct (map fst (entries idx))
     \<and> sets_ok (byCategory idx) (map_option Category \<circ> map_of (entries idx))
     \<and> sets_ok (byProvider idx) (map_option Provider \<circ> map_of (entries idx))
     \<and> sets_ok (byStatus idx) (map_option Status \<circ> map_of (entries idx))
     \<and> (\<not> sortedDirty idx \<longrightarrow> sortedKeys idx = sort_key (offset_of idx) (map fst (entries idx)))"

lemma keys_of_update [lookup_simps]:
  "keys_of (AList.update c ks m) d = (if d = c then ks else keys_of m d)"
  by (simp add: keys_of_def AList.update_conv')

lemma keys_of_delete [lookup_simps]:
  "keys_of (AList.delete c m) d = (if d = c then [] else keys_of m d)"
  by (simp add: keys_of_def AList.delete_conv')

lemma sets_okI:
  assumes "distinct (map fst m)"
    and "\<And>c ks. map_of m c = Some ks \<Longrightarrow> ks \<noteq> [] \<and> distinct ks"
    and "\<And>c k. k \<in> set (keys_of m c) \<longleftrightarrow> c \<noteq> [] \<and> f k = Some c"
  shows "sets_ok m f"
  unfolding sets_ok_def using assms by blast

lemma sets_ok_keys: "sets_ok m f \<Longrightarrow> k \<in> set (keys_of m c) \<longleftrightarrow> c \<noteq> [] \<and> f k = Some c"
  by (simp add: sets_ok_def)

lemma sets_ok_distinct: "sets_ok m f \<Longrightarrow> distinct (map fst m) \<and> distinct (keys_of m c)"
  by (simp add: sets_ok_def keys_of_def split: option.split)

lemma sets_ok_some: "sets_ok m f \<Longrightarrow> map_of m c = Some ks \<Longrightarrow> ks \<noteq> [] \<and> distinct ks"
  by (simp add: sets_ok_def)

lemma sets_ok_lookup:
  "sets_ok m f \<Longrightarrow> map_of m c = (if keys_of m c = [] then None else Some (keys_of m c))"
  using sets_ok_some[of m f c] by (cases "map_of m c") (simp_all add: keys_of_def)

lemma add_key_ok:
  assumes "sets_ok m f" "f key = None"
  shows "sets_ok (add_key m c key) (f(key \<mapsto> c))"
proof (cases "c = []")
  case True
  with assms show ?thesis by (simp add: add_key_def sets_ok_def) (metis option.inject option.distinct(1))
next
  case False
  then have m': "add_key m c key = AList.update c (List.insert key (keys_of m c)) m"
    by (simp add: add_key_def keys_of_def Let_def)
  show ?thesis unfolding m'
  proof (rule sets_okI)
    show "distinct (map fst (AList.update c (List.insert key (keys_of m c)) m))"
      using sets_ok_distinct[OF assms(1)] by (simp add: AList.distinct_update)
    show "ks \<noteq> [] \<and> distinct ks"
      if "map_of (AList.update c (List.insert key (keys_of m c)) m) d = Some ks" for d ks
    proof (cases "d = c")
      case True
      with that have ks: "ks = List.insert key (keys_of m c)" by (simp add: AList.update_conv')
      have "key \<in> set ks" unfolding ks by simp
      then have "ks \<noteq> []" by auto
      moreover have "distinct ks"
        unfolding ks List.insert_def using sets_ok_distinct[OF assms(1), of c] by simp
      ultimately show ?thesis by blast
    next
      case False
      with that have "map_of m d = Some ks" by (simp add: AList.update_conv')
      then show ?thesis by (rule sets_ok_some[OF assms(1)])
    qed
    show "(k \<in> set (keys_of (AList.update c (List.insert key (keys_of m c)) m) d))
        = (d \<noteq> [] \<and> (f(key \<mapsto> c)) k = Some d)" for d k
      using sets_ok_keys[OF assms(1), of k d] assms(2) False
      by (cases "d = c"; cases "k = key") (simp_all add: keys_of_update)
  qed
qed

lemma remove_key_ok:
  assumes "sets_ok m f" "f key = Some c"
  shows "sets_ok (remove_key m c key) (f(key := None))"
proof (cases "c = []")
  case True
  with assms show ?thesis by (simp add: remove_key_def sets_ok_def) (metis option.inject)
next
  case False
  then have "key \<in> set (keys_of m c)" using sets_ok_keys[OF assms(1)] assms(2) by simp
  then have ks: "map_of m c = Some (keys_of m c)"
    using sets_ok_lookup[OF assms(1), of c] by auto
  define ks' where "ks' = removeAll key (keys_of m c)"
  define m' where "m' = (if ks' = [] then AList.delete c m else AList.update c ks' m)"
  have "remove_key m c key = m'"
    using False ks by (simp add: remove_key_def m'_def ks'_def Let_def)
  moreover have "sets_ok m' (f(key := None))"
  proof (rule sets_okI)
    show "distinct (map fst m')"
      using sets_ok_distinct[OF assms(1)] by (simp add: m'_def AList.distinct_update AList.distinct_delete)
    show "ks \<noteq> [] \<and> distinct ks" if "map_of m' d = Some ks" for d ks
      using that sets_ok_some[OF assms(1), of d] sets_ok_distinct[OF assms(1), of c]
      by (auto simp: m'_def ks'_def AList.update_conv' AList.delete_conv' distinct_removeAll
          split: if_splits)
    have "keys_of m' d = (if d = c then ks' else keys_of m d)" for d
      by (simp add: m'_def lookup_simps)
    then show "(k \<in> set (keys_of m' d)) = (d \<noteq> [] \<and> (f(key := None)) k = Some d)" for d k
      using sets_ok_keys[OF assms(1), of k d] assms(2) by (auto simp: ks'_def)
  qed
  ultimately show ?thesis by simp
qed

section \<open>The operations keep the invariant\<close>

lemma map_of_fields_update:
  "map_option g \<circ> map_of (AList.update k e es) = (map_option g \<circ> map_of es)(k \<mapsto> g e)"
  "map_option g \<circ> map_of (AList.delete k es) = (map_option g \<circ> map_of es)(k := None)"
  by (auto simp: AList.update_conv' AList.delete_conv' fun_eq_iff)

text \<open>Both updates first forget the old entry of the key, if it has one.\<close>

definition forget :: "store_index \<Rightarrow> gostring \<Rightarrow> store_index" where
  "forget idx key = (case map_of (entries idx) key of
     None \<Rightarrow> idx | Some e \<Rightarrow> removeFromSecondary idx key e)"

definition secondary_ok :: "store_index \<Rightarrow> (gostring \<rightharpoonup> index_entry) \<Rightarrow> bool" where
  "secondary_ok idx m \<longleftrightarrow>
     sets_ok (byCategory idx) (map_option Category \<circ> m)
     \<and> sets_ok (byProvider idx) (map_option Provider \<circ> m)
     \<and> sets_ok (byStatus idx) (map_option Status \<circ> m)"

lemma fun_upd_comp_option: "map_option g \<circ> m(k := None) = (map_option g \<circ> m)(k := None)"
  "map_option g \<circ> m(k \<mapsto> e) = (map_option g \<circ> m)(k \<mapsto> g e)"
  by (auto simp: fun_eq_iff)

lemma forget_ok:
  assumes "secondary_ok idx m" "m key = map_of (entries idx) key"
  shows "secondary_ok (forget idx key) (m(key := None))"
proof (cases "map_of (entries idx) key")
  case None
  then have "m(key := None) = m" using assms(2) by (simp add: fun_upd_idem)
  with None assms(1) show ?thesis by (simp add: forget_def)
next
  case (Some e)
  with assms show ?thesis
    by (simp add: forget_def secondary_ok_def removeFromSecondary_def fun_upd_comp_option
        remove_key_ok)
qed

lemma addToSecondary_ok:
  "secondary_ok idx m \<Longrightarrow> m key = None \<Longrightarrow> secondary_ok (addToSecondary idx key e) (m(key \<mapsto> e))"
  by (simp add: secondary_ok_def addToSecondary_def fun_upd_comp_option add_key_ok)

lemma idx_Put_forget: "idx_Put idx key e =
    (addToSecondary ((forget idx key)\<lparr>entries := AList.update key e (entries idx)\<rparr>) key e)\<lparr>sortedDirty := True\<rparr>"
  by (simp add: idx_Put_def forget_def removeFromSecondary_def Let_def split: option.split)

lemma idx_inv_secondary:
  "idx_inv idx \<longleftrightarrow> distinct (map fst (entries idx)) \<and> secondary_ok idx (map_of (entries idx))
    \<and> (\<not> sortedDirty idx \<longrightarrow> sortedKeys idx = sort_key (offset_of idx) (map fst (entries idx)))"
  by (auto simp: idx_inv_def secondary_ok_def)

lemma secondary_ok_entries [simp]:
  "secondary_ok (idx\<lparr>entries := es\<rparr>) m = secondary_ok idx m"
  "secondary_ok (idx\<lparr>sortedDirty := d\<rparr>) m = secondary_ok idx m"
  "secondary_ok (idx\<lparr>sortedKeys := ks\<rparr>) m = secondary_ok idx m"
  by (simp_all add: secondary_ok_def)

lemma idx_Put_inv:
  assumes "idx_inv idx"
  shows "idx_inv (idx_Put idx key e)"
proof -
  have "secondary_ok (forget idx key) ((map_of (entries idx))(key := None))"
    using assms by (intro forget_ok) (simp_all add: idx_inv_secondary)
  then have "secondary_ok (addToSecondary ((forget idx key)\<lparr>entries := AList.update key e (entries idx)\<rparr>) key e)
      ((map_of (entries idx))(key := None, key \<mapsto> e))"
    by (intro addToSecondary_ok) simp_all
  with assms show ?thesis
    by (simp add: idx_Put_forget idx_inv_secondary addToSecondary_def AList.update_conv' AList.distinct_update)
qed

lemma idx_Put_get: "idx_Get (idx_Put idx key e) = (idx_Get idx)(key \<mapsto> e)"
  by (simp add: idx_Get_def idx_Put_forget addToSecondary_def AList.update_conv' fun_eq_iff)

lemma idx_Delete_forget: "map_of (entries idx) key \<noteq> None \<Longrightarrow> idx_Delete idx key =
    (forget idx key)\<lparr>entries := AList.delete key (entries idx), sortedDirty := True\<rparr>"
  by (auto simp: idx_Delete_def forget_def removeFromSecondary_def Let_def)

lemma idx_Delete_inv:
  assumes "idx_inv idx"
  shows "idx_inv (idx_Delete idx key)"
proof (cases "map_of (entries idx) key = None")
  case True
  with assms show ?thesis by (simp add: idx_Delete_def)
next
  case False
  have "secondary_ok (forget idx key) ((map_of (entries idx))(key := None))"
    using assms by (intro forget_ok) (simp_all add: idx_inv_secondary)
  with False assms show ?thesis
    by (simp add: idx_Delete_forget idx_inv_secondary AList.delete_conv' AList.distinct_delete)
qed

lemma idx_Delete_get: "idx_Get (idx_Delete idx key) = (idx_Get idx)(key := None)"
  by (cases "map_of (entries idx) key")
    (auto simp: idx_Get_def idx_Delete_forget AList.delete_conv' fun_eq_iff, simp_all add: idx_Delete_def)

lemma newIndex_inv: "idx_inv newIndex"
  by (simp add: idx_inv_def newIndex_def sets_ok_def keys_of_def)

lemma newIndex_get: "idx_Get newIndex = Map.empty"
  by (simp add: idx_Get_def newIndex_def fun_eq_iff)

interpretation idx: kv_index idx_Get idx_Put idx_Delete newIndex idx_inv
  by unfold_locales
    (simp_all add: idx_Put_inv idx_Put_get idx_Delete_inv idx_Delete_get newIndex_inv newIndex_get)

lemma KeysSortedByOffset_spec:
  assumes "idx_inv idx"
  shows "fst (KeysSortedByOffset idx) = sort_key (offset_of idx) (map fst (entries idx))
    \<and> idx_inv (snd (KeysSortedByOffset idx))
    \<and> entries (snd (KeysSortedByOffset idx)) = entries idx"
proof -
  have "offset_of (idx\<lparr>sortedKeys := ks, sortedDirty := d\<rparr>) = offset_of idx" for ks d
    by (simp add: fun_eq_iff offset_of_def)
  with assms show ?thesis
    by (auto simp: KeysSortedByOffset_def idx_inv_secondary Let_def)
qed

lemma idx_Get_offset_of: "idx_Get idx k = Some e \<Longrightarrow> offset_of idx k = Offset e"
  by (simp add: idx_Get_def offset_of_def)

lemma idx_Get_map_of: "idx_Get idx = map_of (entries idx)"
  by (simp add: fun_eq_iff idx_Get_def)

lemma idx_keys: "set (map fst (entries idx)) = dom (idx_Get idx)"
  by (simp add: idx_Get_map_of dom_map_of_conv_image_fst)

section \<open>Properties\<close>

text \<open>A run of the index: updates, deletions, and the sorted listing that refreshes its cache.\<close>

datatype idx_op = IPut gostring index_entry | IDelete gostring | ISort

fun idx_step :: "idx_op \<Rightarrow> store_index \<Rightarrow> store_index" where
  "idx_step (IPut k e) idx = idx_Put idx k e"
| "idx_step (IDelete k) idx = idx_Delete idx k"
| "idx_step ISort idx = snd (KeysSortedByOffset idx)"

fun map_step :: "idx_op \<Rightarrow> (gostring \<rightharpoonup> index_entry) \<Rightarrow> (gostring \<rightharpoonup> index_entry)" where
  "map_step (IPut k e) m = m(k \<mapsto> e)"
| "map_step (IDelete k) m = m(k := None)"
| "map_step ISort m = m"

lemma idx_step_spec:
  "idx_inv idx \<Longrightarrow> idx_inv (idx_step x idx) \<and> idx_Get (idx_step x idx) = map_step x (idx_Get idx)"
proof (cases x)
  case ISort
  assume "idx_inv idx"
  from KeysSortedByOffset_spec[OF this] ISort show ?thesis by (simp add: idx_Get_map_of)
qed (simp_all add: idx_Put_inv idx_Put_get idx_Delete_inv idx_Delete_get)

lemma idx_run_spec:
  "idx_inv idx \<Longrightarrow> idx_inv (fold idx_step ops idx)
    \<and> idx_Get (fold idx_step ops idx) = fold map_step ops (idx_Get idx)"
proof (induction ops arbitrary: idx)
  case (Cons x ops)
  with idx_step_spec[OF Cons.prems, of x] show ?case by simp
qed simp

definition query_keys :: "gostring list option \<Rightarrow> gostring list" where
  "query_keys q = (case q of None \<Rightarrow> [] | Some ks \<Rightarrow> ks)"

lemma field_query:
  assumes "sets_ok m (map_option g \<circ> map_of es)"
  shows "distinct (query_keys (map_of m c))
    \<and> set (query_keys (map_of m c)) = {k. c \<noteq> [] \<and> (\<exists>e. map_of es k = Some e \<and> g e = c)}"
  using sets_ok_distinct[OF assms, of c] sets_ok_keys[OF assms, of _ c]
  by (auto simp: query_keys_def keys_of_def)

text \<open>C13. Whatever updates and deletions the index has seen, each secondary index answers with
  exactly the keys whose current entry has the value asked for, without duplicates; the empty
  value is never indexed; and the primary map is the map those updates describe.\<close>

theorem secondary_indexes_exact:
  fixes ops :: "idx_op list"
  defines "idx \<equiv> fold idx_step ops newIndex"
  shows "idx_Get idx = fold map_step ops Map.empty
    \<and> set (query_keys (GetByCategory idx c))
        = {k. c \<noteq> [] \<and> (\<exists>e. idx_Get idx k = Some e \<and> Category e = c)}
    \<and> set (query_keys (GetByProvider idx c))
        = {k. c \<noteq> [] \<and> (\<exists>e. idx_Get idx k = Some e \<and> Provider e = c)}
    \<and> set (query_keys (GetByStatus idx c))
        = {k. c \<noteq> [] \<and> (\<exists>e. idx_Get idx k = Some e \<and> Status e = c)}
    \<and> distinct (query_keys (GetByCategory idx c))
    \<and> distinct (query_keys (GetByProvider idx c))
    \<and> distinct (query_keys (GetByStatus idx c))"
proof -
  have inv: "idx_inv idx" and get: "idx_Get idx = fold map_step ops Map.empty"
    using idx_run_spec[OF newIndex_inv, of ops] by (simp_all add: idx_def newIndex_get)
  show ?thesis
    using inv get field_query[of "byCategory idx" Category "entries idx" c]
      field_query[of "byProvider idx" Provider "entries idx" c]
      field_query[of "byStatus idx" Status "entries idx" c]
    unfolding idx_inv_def GetByCategory_def GetByProvider_def GetByStatus_def idx_Get_map_of
    by simp
qed

text \<open>The listing by disk offset holds every live key once, in order of offset, also when it
  is served from the cached listing after other operations.\<close>

lemma KeysSortedByOffset_exact:
  fixes ops :: "idx_op list"
  defines "idx \<equiv> fold idx_step ops newIndex"
  shows "sorted (map (offset_of idx) (fst (KeysSortedByOffset idx)))
    \<and> distinct (fst (KeysSortedByOffset idx))
    \<and> set (fst (KeysSortedByOffset idx)) = dom (fold map_step ops Map.empty)"
proof -
  have inv: "idx_inv idx" and get: "idx_Get idx = fold map_step ops Map.empty"
    using idx_run_spec[OF newIndex_inv, of ops] by (simp_all add: idx_def newIndex_get)
  show ?thesis
    using KeysSortedByOffset_spec[OF inv] inv idx_keys[of idx] get
    by (simp add: idx_inv_def)
qed

end
