(* ===== verification/Lru_Cache.thy ===== *)
theory Lru_Cache
  imports Contracts
begin

text \<open>
  The LRU cache of \<open>pkg/storage/hybrid/cache.go\<close>. The Go code keeps a map from keys to list
  elements and a doubly linked list of items, most recently used first. The model has an explicit
  store: an element is a number, \<open>heap\<close> holds its item, \<open>order\<close> the list and \<open>items\<close>
  the map. Every method body runs under the cache's lock and is one step (\<open>Get\<close> takes the lock
  twice; the model is its uninterrupted run).
\<close>

section \<open>State and operations\<close>

record cacheItem =
  ckey :: gostring
  cvalue :: "byte list"

record lruCache =
  capacity :: int
  items :: "gostring \<rightharpoonup> nat"
  order :: "nat list"
  heap :: "nat \<rightharpoonup> cacheItem"
  fresh :: nat

definition newLRUCache :: "int \<Rightarrow> lruCache" where
  "newLRUCache cap =
     \<lparr>capacity = cap, items = Map.empty, order = [], heap = Map.empty, fresh = 0\<rparr>"

text \<open>\<open>container/list\<close>: moving an element that is in the list to its front.\<close>

definition MoveToFront :: "nat \<Rightarrow> nat list \<Rightarrow> nat list" where
  "MoveToFront e xs = (if e \<in> set xs then e # remove1 e xs else xs)"

definition lru_Get :: "lruCache \<Rightarrow> gostring \<Rightarrow> byte list option \<times> lruCache" where
  "lru_Get c key =
     (case items c key of
        None \<Rightarrow> (None, c)
      | Some e \<Rightarrow> (map_option cvalue (heap c e), c\<lparr>order := MoveToFront e (order c)\<rparr>))"

definition evictOldest :: "lruCache \<Rightarrow> lruCache" where
  "evictOldest c =
     (if order c = [] then c
      else let oldest = last (order c)
           in c\<lparr>items := (case heap c oldest of
                            None \<Rightarrow> items c
                          | Some it \<Rightarrow> (items c)(ckey it := None)),
                order := remove1 oldest (order c)\<rparr>)"

lemma evictOldest_shrinks: "order c \<noteq> [] \<Longrightarrow> length (order (evictOldest c)) < length (order c)"
  by (simp add: evictOldest_def Let_def length_remove1)

text \<open>The loop of \<open>Put\<close> that makes room for one item.\<close>

function make_room :: "lruCache \<Rightarrow> lruCache" where
  "make_room c =
     (if int (length (order c)) \<ge> capacity c \<and> length (order c) > 0
      then make_room (evictOldest c) else c)"
  by pat_completeness auto
termination
  by (relation "measure (\<lambda>c. length (order c))") (auto intro: evictOldest_shrinks)

declare make_room.simps [simp del]

definition lru_Put :: "lruCache \<Rightarrow> gostring \<Rightarrow> byte list \<Rightarrow> lruCache" where
  "lru_Put c key v =
     (case items c key of
        Some e \<Rightarrow> c\<lparr>order := MoveToFront e (order c),
                     heap := (heap c)(e := map_option (\<lambda>it. it\<lparr>cvalue := v\<rparr>) (heap c e))\<rparr>
      | None \<Rightarrow>
          let c1 = make_room c; e = fresh c1
          in c1\<lparr>order := e # order c1, items := (items c1)(key \<mapsto> e),
                heap := (heap c1)(e \<mapsto> \<lparr>ckey = key, cvalue = v\<rparr>), fresh := Suc e\<rparr>)"

definition lru_Remove :: "lruCache \<Rightarrow> gostring \<Rightarrow> lruCache" where
  "lru_Remove c key =
     (case items c key of
        None \<Rightarrow> c
      | Some e \<Rightarrow> c\<lparr>order := remove1 e (order c), items := (items c)(key := None)\<rparr>)"

definition lru_Clear :: "lruCache \<Rightarrow> lruCache" where
  "lru_Clear c = c\<lparr>items := Map.empty, order := []\<rparr>"

definition lru_Len :: "lruCache \<Rightarrow> nat" where
  "lru_Len c = length (order c)"

text \<open>
  The eviction loop of \<open>SetCapacity\<close> has no test for an empty list, so it need not end.
\<close>

partial_function (option) evict_to_capacity :: "lruCache \<Rightarrow> lruCache option" where
  "evict_to_capacity c =
     (if int (length (order c)) > capacity c then evict_to_capacity (evictOldest c) else Some c)"

declare evict_to_capacity.simps [code]

definition SetCapacity :: "lruCache \<Rightarrow> int \<Rightarrow> lruCache option" where
  "SetCapacity c cap = evict_to_capacity (c\<lparr>capacity := cap\<rparr>)"

definition item_usage :: "lruCache \<Rightarrow> nat \<Rightarrow> int" where
  "item_usage c e =
     (case heap c e of
        None \<Rightarrow> 0
      | Some it \<Rightarrow> int (length (ckey it)) + int (length (cvalue it)) + 64)"

definition lru_MemoryUsage :: "lruCache \<Rightarrow> int" where
  "lru_MemoryUsage c = fold (\<lambda>e total. total + item_usage c e) (order c) 0"

definition lru_Keys :: "lruCache \<Rightarrow> gostring list" where
  "lru_Keys c = List.map_filter (\<lambda>e. map_option ckey (heap c e)) (order c)"

section \<open>Invariant and view\<close>

text \<open>The map and the list hold the same elements, each under its own key.\<close>

definition ikey :: "lruCache \<Rightarrow> nat \<Rightarrow> gostring option" where
  "ikey c e = map_option ckey (heap c e)"

definition lru_inv :: "lruCache \<Rightarrow> bool" where
  "lru_inv c \<longleftrightarrow>
     distinct (order c)
     \<and> (\<forall>e \<in> set (order c). e < fresh c \<and> heap c e \<noteq> None)
     \<and> (\<forall>k e. items c k = Some e \<longleftrightarrow> e \<in> set (order c) \<and> ikey c e = Some k)"

definition item_at :: "lruCache \<Rightarrow> nat \<Rightarrow> gostring \<times> byte list" where
  "item_at c e = (case heap c e of Some it \<Rightarrow> (ckey it, cvalue it) | None \<Rightarrow> ([], []))"

text \<open>The cache as a list of key-value pairs, most recently used first.\<close>

definition view :: "lruCache \<Rightarrow> (gostring \<times> byte list) list" where
  "view c = map (item_at c) (order c)"

definition peek :: "lruCache \<Rightarrow> gostring \<Rightarrow> byte list option" where
  "peek c = map_of (view c)"

lemma lru_inv_items: "lru_inv c \<Longrightarrow> items c k = Some e \<longleftrightarrow> e \<in> set (order c) \<and> ikey c e = Some k"
  by (simp add: lru_inv_def)

lemma item_at_key: "heap c e \<noteq> None \<Longrightarrow> ikey c e = Some (fst (item_at c e))"
  by (auto simp: item_at_def ikey_def)

lemma lru_inv_heap: "lru_inv c \<Longrightarrow> e \<in> set (order c) \<Longrightarrow> heap c e \<noteq> None \<and> e < fresh c"
  by (simp add: lru_inv_def)

lemma items_item_at: "lru_inv c \<Longrightarrow> e \<in> set (order c) \<Longrightarrow> items c (fst (item_at c e)) = Some e"
  by (simp add: lru_inv_items item_at_key lru_inv_heap)

lemma inj_keys: "lru_inv c \<Longrightarrow> inj_on (fst \<circ> item_at c) (set (order c))"
  by (rule inj_onI) (metis comp_apply items_item_at option.inject)

lemma view_keys_distinct: "lru_inv c \<Longrightarrow> distinct (map fst (view c))"
  using inj_keys[of c] by (simp add: view_def distinct_map lru_inv_def)

lemma map_remove1_delete:
  assumes "distinct xs" "e \<in> set xs" "inj_on (fst \<circ> f) (set xs)"
  shows "map f (remove1 e xs) = AList.delete (fst (f e)) (map f xs)"
proof -
  have "\<forall>x \<in> set xs. (fst (f e) \<noteq> fst (f x)) = (x \<noteq> e)"
    using assms(2,3) by (auto simp: inj_on_def)
  then have "filter (\<lambda>x. fst (f e) \<noteq> fst (f x)) xs = filter (\<lambda>x. x \<noteq> e) xs"
    by (intro filter_cong) auto
  then show ?thesis
    using assms(1) by (simp add: AList.delete_eq filter_map o_def case_prod_beta distinct_remove1_removeAll
        removeAll_filter_not_eq eq_commute[of e])
qed

lemma peek_items: "lru_inv c \<Longrightarrow>
    peek c k = (case items c k of None \<Rightarrow> None | Some e \<Rightarrow> Some (snd (item_at c e)))"
proof (cases "items c k")
  case None
  assume inv: "lru_inv c"
  have "k \<notin> fst ` set (view c)"
    using None items_item_at[OF inv] by (auto simp: view_def)
  with None show ?thesis by (simp add: peek_def map_of_eq_None_iff)
next
  case (Some e)
  assume inv: "lru_inv c"
  then have "item_at c e = (k, snd (item_at c e))" "e \<in> set (order c)"
    using Some item_at_key[of c e] by (auto simp: lru_inv_items lru_inv_heap prod_eq_iff)
  then have "(k, snd (item_at c e)) \<in> set (view c)"
    by (auto simp: view_def image_iff intro!: bexI[of _ e])
  with view_keys_distinct[OF inv] Some show ?thesis by (simp add: peek_def)
qed

section \<open>The operations on the view\<close>

text \<open>The textbook LRU list, as the specification.\<close>

definition ref_touch :: "gostring \<Rightarrow> (gostring \<times> byte list) list \<Rightarrow> (gostring \<times> byte list) list" where
  "ref_touch k xs = (case map_of xs k of None \<Rightarrow> xs | Some v \<Rightarrow> (k, v) # AList.delete k xs)"

definition ref_put ::
  "int \<Rightarrow> gostring \<Rightarrow> byte list \<Rightarrow> (gostring \<times> byte list) list \<Rightarrow> (gostring \<times> byte list) list" where
  "ref_put cap k v xs =
     (k, v) # (if k \<in> fst ` set xs then AList.delete k xs else take (nat (cap - 1)) xs)"

lemma item_at_order [simp]: "item_at (c\<lparr>order := xs\<rparr>) = item_at c"
  "item_at (c\<lparr>items := m\<rparr>) = item_at c"
  by (simp_all add: item_at_def fun_eq_iff)

lemma view_MoveToFront:
  assumes "lru_inv c" "e \<in> set (order c)"
  shows "view (c\<lparr>order := MoveToFront e (order c)\<rparr>)
    = item_at c e # AList.delete (fst (item_at c e)) (view c)"
  using map_remove1_delete[OF _ assms(2) inj_keys[OF assms(1)]] assms
  by (simp add: view_def MoveToFront_def lru_inv_def)

lemma inv_MoveToFront: "lru_inv c \<Longrightarrow> lru_inv (c\<lparr>order := MoveToFront e (order c)\<rparr>)"
  by (auto simp: lru_inv_def MoveToFront_def ikey_def)

lemma Get_spec:
  assumes "lru_inv c"
  shows "lru_inv (snd (lru_Get c k)) \<and> fst (lru_Get c k) = peek c k
    \<and> view (snd (lru_Get c k)) = ref_touch k (view c)
    \<and> capacity (snd (lru_Get c k)) = capacity c"
proof (cases "items c k")
  case None
  with assms peek_items[OF assms, of k] show ?thesis
    by (simp add: lru_Get_def ref_touch_def peek_def)
next
  case (Some e)
  then have e: "e \<in> set (order c)" "heap c e \<noteq> None" "fst (item_at c e) = k"
    using assms item_at_key[of c e] by (auto simp: lru_inv_items lru_inv_heap)
  then have "map_option cvalue (heap c e) = Some (snd (item_at c e))" "item_at c e = (k, snd (item_at c e))"
    by (auto simp: item_at_def)
  with e Some assms peek_items[OF assms, of k] inv_MoveToFront[OF assms, of e]
    view_MoveToFront[OF assms e(1)]
  show ?thesis by (auto simp: lru_Get_def ref_touch_def peek_def)
qed

lemma evictOldest_spec:
  assumes "lru_inv c"
  shows "lru_inv (evictOldest c) \<and> view (evictOldest c) = butlast (view c)
    \<and> capacity (evictOldest c) = capacity c"
proof (cases "order c" rule: rev_cases)
  case Nil
  with assms show ?thesis by (simp add: evictOldest_def view_def)
next
  case (snoc xs e)
  have xs: "e \<notin> set xs" "distinct xs" using assms snoc by (auto simp: lru_inv_def)
  obtain it where it: "heap c e = Some it" using lru_inv_heap[OF assms, of e] snoc by auto
  define k where "k = ckey it"
  have ev: "evictOldest c = c\<lparr>items := (items c)(k := None), order := xs\<rparr>"
    using snoc it xs by (simp add: evictOldest_def remove1_append k_def)
  have k: "items c k = Some e" using it snoc assms by (simp add: lru_inv_items ikey_def k_def)
  have "((items c)(k := None)) j = Some d \<longleftrightarrow> d \<in> set xs \<and> ikey c d = Some j" for j d
    using k lru_inv_items[OF assms, of j d] lru_inv_items[OF assms, of k e] snoc xs(1) by auto
  then have "lru_inv (evictOldest c)"
    using assms xs snoc unfolding ev lru_inv_def by (simp add: ikey_def)
  then show ?thesis by (simp add: ev view_def snoc butlast_append)
qed

lemma make_room_spec:
  assumes "lru_inv c"
  shows "lru_inv (make_room c) \<and> view (make_room c) = take (nat (capacity c - 1)) (view c)
    \<and> capacity (make_room c) = capacity c"
  using assms
proof (induction c rule: make_room.induct)
  case (1 c)
  note ev = evictOldest_spec[OF "1.prems"]
  have len: "length (order c) = length (view c)" by (simp add: view_def)
  show ?case
  proof (cases "int (length (order c)) \<ge> capacity c \<and> length (order c) > 0")
    case True
    then have "nat (capacity c - 1) \<le> length (view c) - 1" using len by auto
    then have "take (nat (capacity c - 1)) (butlast (view c)) = take (nat (capacity c - 1)) (view c)"
      by (simp add: butlast_conv_take min_absorb2)
    with "1.IH"[OF True] ev True show ?thesis
      by (simp add: make_room.simps [of c])
  next
    case False
    with "1.prems" len show ?thesis by (auto simp: make_room.simps [of c])
  qed
qed

lemma items_view: "lru_inv c \<Longrightarrow> items c k = None \<longleftrightarrow> k \<notin> fst ` set (view c)"
  using peek_items[of c k]
  by (cases "items c k") (auto simp: peek_def map_of_eq_None_iff[symmetric])

lemma Put_fresh_spec:
  assumes inv: "lru_inv c" and none: "items c k = None"
  shows "lru_inv (lru_Put c k v) \<and> view (lru_Put c k v) = (k, v) # take (nat (capacity c - 1)) (view c)
    \<and> capacity (lru_Put c k v) = capacity c"
proof -
  define d where "d = make_room c"
  define e where "e = fresh d"
  note room = make_room_spec[OF inv, folded d_def]
  have put: "lru_Put c k v = d\<lparr>order := e # order d, items := (items d)(k \<mapsto> e),
      heap := (heap d)(e \<mapsto> \<lparr>ckey = k, cvalue = v\<rparr>), fresh := Suc e\<rparr>"
    using none by (simp add: lru_Put_def d_def e_def Let_def)
  have k: "items d k = None"
    using items_view[OF inv, of k] items_view[of d k] none room
    by (auto dest: in_set_takeD)
  have old: "x < e" if "x \<in> set (order d)" for x
    using lru_inv_heap[of d x] room that by (simp add: e_def)
  then have e: "e \<notin> set (order d)" by blast
  have "ikey (lru_Put c k v) x = (if x = e then Some k else ikey d x)" for x
    by (simp add: put ikey_def)
  then have "((items d)(k \<mapsto> e)) j = Some x \<longleftrightarrow>
      x \<in> set (e # order d) \<and> ikey (lru_Put c k v) x = Some j" for j x
    using room k e lru_inv_items[of d j x] lru_inv_items[of d k x] by auto
  then have "lru_inv (lru_Put c k v)"
    using room e old unfolding lru_inv_def[of "lru_Put c k v"]
    by (auto simp: put less_Suc_eq dest: lru_inv_heap) (auto simp: lru_inv_def)
  moreover have "map (item_at (lru_Put c k v)) (order d) = map (item_at d) (order d)"
    using e by (auto simp: put item_at_def)
  moreover have "order (lru_Put c k v) = e # order d" "item_at (lru_Put c k v) e = (k, v)"
    by (simp_all add: put item_at_def)
  ultimately have "view (lru_Put c k v) = (k, v) # view d" by (simp add: view_def)
  with \<open>lru_inv (lru_Put c k v)\<close> room show ?thesis by (simp add: put)
qed

lemma delete_replaced:
  "AList.delete k (map (\<lambda>x. if fst x = k then (k, v) else x) xs) = AList.delete k xs"
  by (induction xs) auto

lemma Put_present_spec:
  assumes inv: "lru_inv c" and some: "items c k = Some e"
  shows "lru_inv (lru_Put c k v) \<and> view (lru_Put c k v) = (k, v) # AList.delete k (view c)
    \<and> capacity (lru_Put c k v) = capacity c"
proof -
  have e: "e \<in> set (order c)" "heap c e \<noteq> None" "ikey c e = Some k" "fst (item_at c e) = k"
    using inv some item_at_key[of c e] by (auto simp: lru_inv_items lru_inv_heap)
  then obtain it where it: "heap c e = Some it" "ckey it = k" by (auto simp: ikey_def)
  define d where "d = c\<lparr>heap := (heap c)(e \<mapsto> it\<lparr>cvalue := v\<rparr>)\<rparr>"
  have ik: "ikey d = ikey c" using it by (auto simp: d_def ikey_def)
  have d_inv: "lru_inv d"
    using inv ik unfolding lru_inv_def by (auto simp: d_def)
  have "lru_Put c k v = d\<lparr>order := MoveToFront e (order d)\<rparr>"
    using some it by (simp add: lru_Put_def d_def)
  moreover have "item_at d x = (if fst (item_at c x) = k then (k, v) else item_at c x)"
    if "x \<in> set (order c)" for x
    using that it e(4) some items_item_at[OF inv that] by (cases "x = e") (auto simp: d_def item_at_def)
  then have "view d = map (\<lambda>x. if fst x = k then (k, v) else x) (view c)"
    by (simp add: view_def d_def)
  then have "AList.delete k (view d) = AList.delete k (view c)"
    by (simp add: delete_replaced)
  moreover have "item_at d e = (k, v)" using it by (simp add: d_def item_at_def)
  ultimately show ?thesis
    using view_MoveToFront[OF d_inv, of e] inv_MoveToFront[OF d_inv, of e] e(1)
    by (simp add: d_def)
qed

lemma Put_spec:
  assumes "lru_inv c"
  shows "lru_inv (lru_Put c k v) \<and> view (lru_Put c k v) = ref_put (capacity c) k v (view c)
    \<and> capacity (lru_Put c k v) = capacity c"
  using Put_fresh_spec[OF assms, of k v] Put_present_spec[OF assms, of k] items_view[OF assms, of k]
  by (cases "items c k") (auto simp: ref_put_def)

lemma Remove_spec:
  assumes inv: "lru_inv c"
  shows "lru_inv (lru_Remove c k) \<and> view (lru_Remove c k) = AList.delete k (view c)
    \<and> capacity (lru_Remove c k) = capacity c"
proof (cases "items c k")
  case None
  with inv items_view[OF inv, of k] show ?thesis
    by (simp add: lru_Remove_def)
next
  case (Some e)
  then have e: "e \<in> set (order c)" "ikey c e = Some k" "fst (item_at c e) = k"
    using inv item_at_key[of c e] by (auto simp: lru_inv_items lru_inv_heap)
  define xs where "xs = remove1 e (order c)"
  have rm: "lru_Remove c k = c\<lparr>order := xs, items := (items c)(k := None)\<rparr>"
    using Some by (simp add: lru_Remove_def xs_def)
  have xs: "distinct xs" "set xs = set (order c) - {e}"
    using inv by (auto simp: xs_def lru_inv_def)
  have "((items c)(k := None)) j = Some d \<longleftrightarrow> d \<in> set xs \<and> ikey c d = Some j" for j d
    using Some lru_inv_items[OF inv, of j d] xs e by (cases "j = k"; cases "d = e") auto
  then have "lru_inv (lru_Remove c k)"
    using inv xs unfolding rm lru_inv_def by (simp add: ikey_def)
  then show ?thesis
    using map_remove1_delete[OF _ e(1) inj_keys[OF inv]] inv e
    by (simp add: rm view_def xs_def lru_inv_def)
qed

lemma Clear_spec: "lru_inv (lru_Clear c) \<and> view (lru_Clear c) = []
    \<and> capacity (lru_Clear c) = capacity c"
  by (simp add: lru_Clear_def lru_inv_def view_def)

lemma new_spec: "lru_inv (newLRUCache cap) \<and> view (newLRUCache cap) = []
    \<and> capacity (newLRUCache cap) = cap"
  by (simp add: newLRUCache_def lru_inv_def view_def)

lemmas lru_specs = Get_spec Put_spec Remove_spec Clear_spec new_spec

section \<open>The cache as the store sees it\<close>

lemma map_of_take: "map_of (take n xs) j = Some w \<Longrightarrow> map_of xs j = Some w"
  by (metis append_take_drop_id map_add_Some_iff map_of_append map_add_find_right)

lemma peek_touch: "map_of (ref_touch k xs) = map_of xs"
  by (auto simp: ref_touch_def AList.delete_conv' split: option.splits)

lemma peek_put: "distinct (map fst xs) \<Longrightarrow> map_of (ref_put cap k v xs) j = Some w \<Longrightarrow>
    (if j = k then w = v else map_of xs j = Some w)"
  by (auto simp: ref_put_def AList.delete_conv' split: if_splits dest: map_of_take)

interpretation lru: value_cache peek lru_Get lru_Put lru_Remove lru_Clear lru_inv
proof unfold_locales
  fix c k v j w
  assume "lru_inv c"
  note specs = Get_spec[OF this, of k] Put_spec[OF this, of k v] Remove_spec[OF this, of k]
  show "fst (lru_Get c k) = peek c k" "lru_inv (snd (lru_Get c k))"
    "lru_inv (lru_Put c k v)" "lru_inv (lru_Remove c k)"
    using specs by simp_all
  show "peek (snd (lru_Get c k)) = peek c" using specs by (simp add: peek_def peek_touch)
  show "peek (lru_Put c k v) k = Some v" using specs by (simp add: peek_def ref_put_def)
  show "peek (lru_Remove c k) = (peek c)(k := None)"
    using specs by (simp add: peek_def AList.delete_conv')
  show "if j = k then w = v else peek c j = Some w" if "peek (lru_Put c k v) j = Some w"
    using that specs peek_put[OF view_keys_distinct[OF \<open>lru_inv c\<close>]] by (simp add: peek_def)
next
  fix c show "peek (lru_Clear c) = Map.empty" "lru_inv (lru_Clear c)"
    using Clear_spec[of c] by (simp_all add: peek_def)
qed

section \<open>Runs and capacity\<close>

text \<open>The operations as calls with answers. A call that never returns has no result: only
  \<open>SetCapacity\<close> can, and the calls after it wait for the cache's lock.\<close>

datatype lru_op =
    OGet gostring
  | OPut gostring "byte list"
  | ORemove gostring
  | OClear
  | OSetCapacity int
  | OLen
  | OKeys
  | OMemoryUsage

datatype lru_answer =
    NoAnswer
  | Found "byte list option"
  | Count int
  | Listed "gostring list"

fun lru_call :: "lru_op \<Rightarrow> lruCache \<Rightarrow> (lru_answer \<times> lruCache) option" where
  "lru_call (OGet k) c = (case lru_Get c k of (v, d) \<Rightarrow> Some (Found v, d))"
| "lru_call (OPut k v) c = Some (NoAnswer, lru_Put c k v)"
| "lru_call (ORemove k) c = Some (NoAnswer, lru_Remove c k)"
| "lru_call OClear c = Some (NoAnswer, lru_Clear c)"
| "lru_call (OSetCapacity n) c = map_option (Pair NoAnswer) (SetCapacity c n)"
| "lru_call OLen c = Some (Count (int (lru_Len c)), c)"
| "lru_call OKeys c = Some (Listed (lru_Keys c), c)"
| "lru_call OMemoryUsage c = Some (Count (lru_MemoryUsage c), c)"

text \<open>The same calls on the textbook list, which carries its capacity. A lookup is the list's
  lookup.\<close>

fun ref_call ::
  "lru_op \<Rightarrow> int \<times> (gostring \<times> byte list) list
     \<Rightarrow> (lru_answer \<times> int \<times> (gostring \<times> byte list) list) option" where
  "ref_call (OGet k) (cap, xs) = Some (Found (map_of xs k), cap, ref_touch k xs)"
| "ref_call (OPut k v) (cap, xs) = Some (NoAnswer, cap, ref_put cap k v xs)"
| "ref_call (ORemove k) (cap, xs) = Some (NoAnswer, cap, AList.delete k xs)"
| "ref_call OClear (cap, xs) = Some (NoAnswer, cap, [])"
| "ref_call (OSetCapacity n) (cap, xs) =
     (if n < 0 then None else Some (NoAnswer, n, take (nat n) xs))"
| "ref_call OLen (cap, xs) = Some (Count (int (length xs)), cap, xs)"
| "ref_call OKeys (cap, xs) = Some (Listed (map fst xs), cap, xs)"
| "ref_call OMemoryUsage (cap, xs) =
     Some (Count (\<Sum>(k, v)\<leftarrow>xs. int (length k) + int (length v) + 64), cap, xs)"

definition lru_abs :: "lruCache \<Rightarrow> int \<times> (gostring \<times> byte list) list" where
  "lru_abs c = (capacity c, view c)"

lemma Keys_spec: "lru_inv c \<Longrightarrow> lru_Keys c = map fst (view c)"
proof -
  assume inv: "lru_inv c"
  have "List.map_filter (\<lambda>e. map_option ckey (heap c e)) es = map (fst \<circ> item_at c) es"
    if "set es \<subseteq> set (order c)" for es
    using that
  proof (induction es)
    case (Cons e es)
    with lru_inv_heap[OF inv, of e] show ?case
      by (auto simp: List.map_filter_simps item_at_def split: option.splits)
  qed (simp add: List.map_filter_simps)
  then show ?thesis by (simp add: lru_Keys_def view_def)
qed

lemma MemoryUsage_spec:
  assumes "lru_inv c"
  shows "lru_MemoryUsage c = (\<Sum>(k, v)\<leftarrow>view c. int (length k) + int (length v) + 64)"
proof -
  have "fold (\<lambda>e t. t + item_usage c e) es n
      = n + (\<Sum>(k, v)\<leftarrow>map (item_at c) es. int (length k) + int (length v) + 64)"
    if "set es \<subseteq> set (order c)" for es n
    using that
  proof (induction es arbitrary: n)
    case (Cons e es)
    with lru_inv_heap[OF assms, of e] show ?case
      by (auto simp: item_usage_def item_at_def split: option.splits)
  qed simp
  then show ?thesis by (simp add: lru_MemoryUsage_def view_def)
qed

lemma length_delete_less:
  assumes "k \<in> fst ` set xs"
  shows "length (AList.delete k xs) < length xs"
proof -
  from assms obtain p where "p \<in> set xs" "fst p = k" by auto
  then have "length (filter (\<lambda>p. fst p \<noteq> k) xs) < length xs"
    by (intro length_filter_less) auto
  moreover have "AList.delete k xs = filter (\<lambda>p. fst p \<noteq> k) xs"
    unfolding AList.delete_eq by (rule filter_cong) auto
  ultimately show ?thesis by simp
qed

lemma touch_bound: "length (ref_touch k xs) \<le> length xs"
proof -
  have "map_of xs k = Some v \<Longrightarrow> length (AList.delete k xs) < length xs" for v
    by (rule length_delete_less) (auto dest: map_of_SomeD intro: rev_image_eqI)
  then show ?thesis by (auto simp: ref_touch_def Suc_le_eq split: option.splits)
qed

lemma put_bound:
  assumes "int (length xs) \<le> max 1 cap"
  shows "int (length (ref_put cap k v xs)) \<le> max 1 cap"
proof (cases "k \<in> fst ` set xs")
  case True
  with assms length_delete_less[OF True] show ?thesis by (simp add: ref_put_def)
next
  case False
  with assms show ?thesis by (auto simp: ref_put_def)
qed

lemma ref_call_bound:
  assumes "ref_call x (cap, xs) = Some (a, cap', ys)" "int (length xs) \<le> max 1 cap"
  shows "int (length ys) \<le> max 1 cap'"
proof (cases x)
  case (OGet k)
  with assms touch_bound[of k xs] show ?thesis by auto
next
  case (OPut k v)
  with assms put_bound show ?thesis by auto
next
  case (ORemove k)
  with assms AList.length_delete_le[of k xs] show ?thesis by auto
qed (use assms in \<open>auto split: if_splits\<close>)

lemma evict_to_capacity_spec:
  assumes "lru_inv c" "0 \<le> capacity c"
  shows "\<exists>d. evict_to_capacity c = Some d \<and> lru_inv d \<and> capacity d = capacity c
    \<and> view d = take (nat (capacity c)) (view c)"
  using assms
proof (induction "length (order c)" arbitrary: c rule: less_induct)
  case less
  note ev = evictOldest_spec[OF less.prems(1)]
  have len: "length (order c) = length (view c)" by (simp add: view_def)
  show ?case
  proof (cases "int (length (order c)) > capacity c")
    case True
    then have ne: "order c \<noteq> []" and le: "nat (capacity c) \<le> length (view c) - 1"
      using less.prems(2) len by auto
    from less.hyps[OF evictOldest_shrinks[OF ne]] ev less.prems(2) obtain d where
      "evict_to_capacity (evictOldest c) = Some d" "lru_inv d" "capacity d = capacity c"
      "view d = take (nat (capacity c)) (butlast (view c))" by auto
    with True le show ?thesis
      by (simp add: evict_to_capacity.simps [of c] butlast_conv_take min_absorb2)
  next
    case False
    with less.prems len show ?thesis by (simp add: evict_to_capacity.simps [of c])
  qed
qed

lemma evict_to_capacity_stuck:
  assumes "evict_to_capacity c = Some d"
  shows "0 \<le> capacity d"
proof (rule evict_to_capacity.raw_induct [where P = "\<lambda>c d. 0 \<le> capacity d", OF _ assms])
  fix f c d
  assume "\<And>c d. f c = Some d \<Longrightarrow> 0 \<le> capacity d"
    and "(if int (length (order c)) > capacity c then f (evictOldest c) else Some c) = Some d"
  then show "0 \<le> capacity d" by (auto split: if_splits)
qed

lemma evict_to_capacity_keeps:
  assumes "evict_to_capacity c = Some d"
  shows "capacity d = capacity c"
proof (rule evict_to_capacity.raw_induct [where P = "\<lambda>c d. capacity d = capacity c", OF _ assms])
  fix f c d
  assume "\<And>c d. f c = Some d \<Longrightarrow> capacity d = capacity c"
    and "(if int (length (order c)) > capacity c then f (evictOldest c) else Some c) = Some d"
  moreover have "capacity (evictOldest c) = capacity c" by (simp add: evictOldest_def Let_def)
  ultimately show "capacity d = capacity c" by (metis option.inject)
qed

section \<open>Properties\<close>

text \<open>\<open>SetCapacity\<close> returns exactly for capacities that are not negative; it then keeps the
  most recently used items that fit. With a negative capacity its loop never ends, and the cache's
  lock is never released.\<close>

lemma SetCapacity_returns_iff:
  assumes "lru_inv c"
  shows "case SetCapacity c cap of
      None \<Rightarrow> cap < 0
    | Some d \<Rightarrow> 0 \<le> cap \<and> lru_inv d \<and> capacity d = cap \<and> view d = take (nat cap) (view c)"
proof -
  have c: "lru_inv (c\<lparr>capacity := cap\<rparr>)" "view (c\<lparr>capacity := cap\<rparr>) = view c"
    using assms by (simp_all add: lru_inv_def ikey_def view_def item_at_def fun_eq_iff)
  show ?thesis
  proof (cases "0 \<le> cap")
    case True
    with evict_to_capacity_spec[OF c(1)] c(2) show ?thesis by (auto simp: SetCapacity_def)
  next
    case False
    have "SetCapacity c cap = None"
    proof (cases "SetCapacity c cap")
      case (Some d)
      with False evict_to_capacity_stuck evict_to_capacity_keeps show ?thesis
        by (fastforce simp: SetCapacity_def)
    qed
    with False show ?thesis by simp
  qed
qed

lemma lru_call_spec:
  assumes inv: "lru_inv c"
  shows "case lru_call x c of
      None \<Rightarrow> ref_call x (lru_abs c) = None
    | Some (a, d) \<Rightarrow> lru_inv d \<and> ref_call x (lru_abs c) = Some (a, lru_abs d)"
proof (cases x)
  case (OGet k)
  with Get_spec[OF inv, of k] show ?thesis
    by (auto simp: lru_abs_def peek_def split: prod.splits)
next
  case (OSetCapacity n)
  with SetCapacity_returns_iff[OF inv, of n] show ?thesis
    by (cases "SetCapacity c n") (auto simp: lru_abs_def)
qed (use Put_spec[OF inv] Remove_spec[OF inv] Clear_spec inv in
  \<open>simp_all add: lru_abs_def lru_Len_def view_def[symmetric] Keys_spec MemoryUsage_spec
     length_map[of "item_at c", symmetric]\<close>)

definition lru_good :: "lruCache \<Rightarrow> bool" where
  "lru_good c \<longleftrightarrow> lru_inv c \<and> int (length (view c)) \<le> max 1 (capacity c)"

interpretation lru_list: refinement lru_call ref_call lru_abs lru_good
proof
  fix c x
  assume good: "lru_good c"
  with lru_call_spec[of c x] ref_call_bound[of x "capacity c" "view c"]
  show "case lru_call x c of
      None \<Rightarrow> ref_call x (lru_abs c) = None
    | Some (a, d) \<Rightarrow> lru_good d \<and> ref_call x (lru_abs c) = Some (a, lru_abs d)"
    by (auto simp: lru_good_def lru_abs_def split: option.splits)
qed

lemma calls_stuck:
  "calls ref_call xs (cap, ys) = None \<longleftrightarrow> (\<exists>n. n < 0 \<and> OSetCapacity n \<in> set xs)"
proof (induction xs arbitrary: cap ys)
  case (Cons x xs)
  then show ?case by (cases x) auto
qed simp

text \<open>C12. The map-and-linked-list cache refines the textbook LRU list: any sequence of gets,
  puts, removals, clears, capacity changes and queries on a new cache gives the answers the
  reference list gives, leaves the contents and the recency order of the reference list, and keeps
  map and list in agreement; the cache then holds at most its capacity, or one item where the
  capacity is below one. The sequence fails to return exactly when it sets a negative
  capacity.\<close>

theorem lru_refines_list:
  "case calls lru_call ops (newLRUCache cap) of
     None \<Rightarrow> \<exists>n. n < 0 \<and> OSetCapacity n \<in> set ops
   | Some (answers, c) \<Rightarrow>
       calls ref_call ops (cap, []) = Some (answers, capacity c, view c)
       \<and> lru_inv c \<and> int (lru_Len c) \<le> max 1 (capacity c)"
proof -
  note new = new_spec[of cap]
  have len: "lru_Len c = length (view c)" for c by (simp add: lru_Len_def view_def)
  have "lru_good (newLRUCache cap)"
    using new by (simp add: lru_good_def max_def)
  from lru_list.calls_law[OF this, of ops] calls_stuck[of ops cap "[]"] new
  show ?thesis
    by (cases "calls lru_call ops (newLRUCache cap)") (auto simp: lru_abs_def lru_good_def len)
qed

lemma SetCapacity_returns_iff_witness:
  "SetCapacity (lru_Put (newLRUCache 5) [1] [7]) (- 1) = None
   \<and> (\<exists>d. SetCapacity (lru_Put (lru_Put (newLRUCache 5) [2] [8]) [1] [7]) 1 = Some d
        \<and> view d = [([1], [7])])"
proof -
  define c where "c = lru_Put (newLRUCache 5) [1] [7]"
  define d where "d = lru_Put (lru_Put (newLRUCache 5) [2] [8]) [1] [7]"
  have inv: "lru_inv c" "lru_inv d" by (simp_all add: c_def d_def lru_specs)
  have "view d = [([1], [7]), ([2], [8])]" unfolding d_def by code_simp
  with SetCapacity_returns_iff[OF inv(1), of "- 1"] SetCapacity_returns_iff[OF inv(2), of 1]
  show ?thesis unfolding c_def[symmetric] d_def[symmetric] by (auto split: option.splits)
qed

end
