(* ===== verification/Hybrid_Store.thy ===== *)
theory Hybrid_Store
  imports Append_Log Store_Index Lru_Cache
begin

text \<open>
  The storage engine of \<open>pkg/storage/hybrid/store.go\<close>: an append-only log, the index rebuilt
  from it and a cache of values, composed as the Go code composes them. Every public method runs
  under the store's lock and is one step, except \<open>Get\<close>, which releases the lock between reading the
  log and filling the cache and is two. The background tasks only call
  \<open>Sync\<close> and \<open>Compact\<close> on a timer and are not modelled, nor is \<open>NeedsCompaction\<close>, whose
  ratio is a floating-point number.
\<close>

section \<open>State\<close>

record config =
  DataPath :: gostring
  CacheSize :: int

record stats_meta =
  Writes :: int
  Reads :: int
  CacheHits :: int
  CacheMisses :: int
  Deletes :: int
  Compactions :: int

record store =
  s_fs :: filesys
  s_log :: appendLog
  s_index :: store_index
  s_cache :: lruCache
  s_closed :: bool
  s_compacting :: bool
  s_stats :: stats_meta

definition zero_stats :: stats_meta where
  "zero_stats = \<lparr>Writes = 0, Reads = 0, CacheHits = 0, CacheMisses = 0, Deletes = 0, Compactions = 0\<rparr>"

definition index_entry_of :: "LogRecord \<Rightarrow> index_entry" where
  "index_entry_of r =
     \<lparr>Offset = recOffset r, eSize = recSize r, Category = recCategory r, Provider = recProvider r,
      Status = recStatus r, Name = recName r, TotalSize = recTotalSize r, Protocol = recProtocol r,
      Bad = recBad r, AddedOn = recAddedOn r\<rparr>"

definition put_entry :: "nat \<Rightarrow> int \<Rightarrow> EntryMeta \<Rightarrow> index_entry" where
  "put_entry offset n m =
     \<lparr>Offset = offset, eSize = n, Category = mCategory m, Provider = mProvider m,
      Status = mStatus m, Name = mName m, TotalSize = mTotalSize m, Protocol = mProtocol m,
      Bad = mBad m, AddedOn = mAddedOn m\<rparr>"

section \<open>Recovery and compaction\<close>

text \<open>The callback of \<open>recover\<close>, on the index and the cache.\<close>

definition recover_record :: "LogRecord \<Rightarrow> store_index \<times> lruCache \<Rightarrow> store_error option \<times> (store_index \<times> lruCache)" where
  "recover_record r st =
     (if recDeleted r
      then (None, (idx_Delete (fst st) (recKey r), lru_Remove (snd st) (recKey r)))
      else (None, (idx_Put (fst st) (recKey r) (index_entry_of r), snd st)))"

definition recover :: "store \<Rightarrow> store_error option \<times> store" where
  "recover s =
     (case log_Iterate (s_fs s) (s_log s) recover_record (s_index s, s_cache s) of
        (e, (idx, c)) \<Rightarrow> (e, s\<lparr>s_index := idx, s_cache := c\<rparr>))"

text \<open>\<open>os.Remove\<close> and \<open>os.Rename\<close> may fail; \<open>Compact\<close> ignores their errors.\<close>

definition remove_file :: "gostring \<Rightarrow> filesys \<Rightarrow> filesys" where
  "remove_file p fs = (if fs_remove fs then fs\<lparr>files := (files fs)(p := None)\<rparr> else fs)"

definition rename_file :: "gostring \<Rightarrow> gostring \<Rightarrow> filesys \<Rightarrow> filesys" where
  "rename_file p q fs = (if fs_rename fs then fs\<lparr>files := (files fs)(q := files fs p, p := None)\<rparr> else fs)"

text \<open>\<open>log.path + ".compact"\<close>\<close>

definition compact_path :: "gostring \<Rightarrow> gostring" where
  "compact_path p = p @ [46, 99, 111, 109, 112, 97, 99, 116]"

text \<open>The loop of \<open>Compact\<close> over the keys in disk order.\<close>

fun compact_loop ::
  "gostring list \<Rightarrow> store_index \<Rightarrow> appendLog \<Rightarrow> filesys \<Rightarrow> appendLog \<Rightarrow> store_index
     \<Rightarrow> store_error option \<times> filesys \<times> appendLog \<times> store_index" where
  "compact_loop [] idx oldLog fs newLog newIdx = (None, fs, newLog, newIdx)"
| "compact_loop (key # keys) idx oldLog fs newLog newIdx =
     (case idx_Get idx key of
        None \<Rightarrow> compact_loop keys idx oldLog fs newLog newIdx
      | Some entry \<Rightarrow>
          (case log_ReadAt fs oldLog (Offset entry) (eSize entry) of
             Inl e \<Rightarrow> (Some (FailedTo ''read during compaction'' e), fs, newLog, newIdx)
           | Inr val \<Rightarrow>
               (case log_Append fs newLog key val False (Category entry) (Provider entry)
                       (Status entry) (Name entry) (TotalSize entry) (Protocol entry) (Bad entry)
                       (AddedOn entry) of
                  (Inl e, fs', newLog') \<Rightarrow>
                    (Some (FailedTo ''write during compaction'' e), fs', newLog', newIdx)
                | (Inr (offset, n), fs', newLog') \<Rightarrow>
                    compact_loop keys idx oldLog fs' newLog'
                      (idx_Put newIdx key (entry\<lparr>Offset := offset, eSize := n\<rparr>)))))"

text \<open>After a failed \<open>Rename\<close> the open log is still the file under the temporary name, while \<open>path\<close> is the
  old one.\<close>

definition Compact :: "store \<Rightarrow> store_error option \<times> store" where
  "Compact s =
     (if s_closed s then (Some ErrStoreClosed, s)
      else if s_compacting s then (Some ErrCompactionInProgress, s)
      else
        let newLogPath = compact_path (l_path (s_log s))
        in case createAppendLog (s_fs s) newLogPath of
             (Inl e, fs) \<Rightarrow> (Some (FailedTo ''create compaction log'' e), s\<lparr>s_fs := fs\<rparr>)
           | (Inr newLog, fs) \<Rightarrow>
               let (keys, idx) = KeysSortedByOffset (s_index s);
                   s1 = s\<lparr>s_index := idx\<rparr>
               in case compact_loop keys idx (s_log s) fs newLog newIndex of
                    (Some e, fs', _, _) \<Rightarrow> (Some e, s1\<lparr>s_fs := remove_file newLogPath fs'\<rparr>)
                  | (None, fs', newLog', newIdx) \<Rightarrow>
                      (case log_Sync fs' of
                         Some e \<Rightarrow>
                           (Some (FailedTo ''sync compaction log'' e),
                            s1\<lparr>s_fs := remove_file newLogPath fs'\<rparr>)
                       | None \<Rightarrow>
                           let oldPath = l_path (s_log s)
                           in (None,
                               s1\<lparr>s_log := newLog'\<lparr>l_path := oldPath, l_file := if fs_rename fs' then oldPath else newLogPath\<rparr>,
                                  s_index := newIdx,
                                  s_cache := lru_Clear (s_cache s1),
                                  s_fs := rename_file newLogPath oldPath (remove_file oldPath fs'),
                                  s_stats := (s_stats s1)\<lparr>Compactions := i64 (Compactions (s_stats s1) + 1)\<rparr>\<rparr>)))"

definition store_New :: "config \<Rightarrow> filesys \<Rightarrow> (store_error \<times> filesys) + store" where
  "store_New cfg fs =
     (if DataPath cfg = [] then Inl (DataPathRequired, fs)
      else
        let cacheSize = (if CacheSize cfg \<le> 0 then 1000 else CacheSize cfg)
        in case openAppendLog fs (DataPath cfg) of
             (Inl e, fs') \<Rightarrow> Inl (FailedTo ''open append log'' e, fs')
           | (Inr log, fs') \<Rightarrow>
               let s = \<lparr>s_fs = fs', s_log = log, s_index = newIndex,
                        s_cache = newLRUCache cacheSize, s_closed = False, s_compacting = False,
                        s_stats = zero_stats\<rparr>
               in case recover s of
                    (Some e, s1) \<Rightarrow> Inl (FailedTo ''recover from log'' e, s_fs s1)
                  | (None, s1) \<Rightarrow>
                      if l_version (s_log s1) < logVersion \<and> idx_Len (s_index s1) > 0
                      then Inr (snd (Compact s1)) else Inr s1)"

section \<open>Operations\<close>

definition store_Close :: "store \<Rightarrow> store_error option \<times> store" where
  "store_Close s = (if s_closed s then (None, s) else (None, s\<lparr>s_closed := True\<rparr>))"

definition store_Put :: "store \<Rightarrow> gostring \<Rightarrow> byte list \<Rightarrow> EntryMeta option \<Rightarrow> store_error option \<times> store" where
  "store_Put s key val mta =
     (if s_closed s then (Some ErrStoreClosed, s)
      else
        let m = (case mta of None \<Rightarrow> no_meta | Some m \<Rightarrow> m)
        in case log_Append (s_fs s) (s_log s) key val False (mCategory m) (mProvider m) (mStatus m)
                  (mName m) (mTotalSize m) (mProtocol m) (mBad m) (mAddedOn m) of
             (Inl e, fs', log') \<Rightarrow>
               (Some (FailedTo ''append to log'' e), s\<lparr>s_fs := fs', s_log := log'\<rparr>)
           | (Inr (offset, n), fs', log') \<Rightarrow>
               (None, s\<lparr>s_fs := fs', s_log := log',
                        s_index := idx_Put (s_index s) key (put_entry offset n m),
                        s_cache := lru_Remove (s_cache s) key,
                        s_stats := (s_stats s)\<lparr>Writes := i64 (Writes (s_stats s) + 1)\<rparr>\<rparr>))"

text \<open>
  \<open>Get\<close> is two critical sections: the lookup under the read lock, which ends with a hit, an error
  or a value to cache, and the update of the cache under the write lock.
\<close>

definition get_lookup :: "store \<Rightarrow> gostring \<Rightarrow> (store_error + byte list \<times> bool) \<times> store" where
  "get_lookup s key =
     (if s_closed s then (Inl ErrStoreClosed, s)
      else case lru_Get (s_cache s) key of
        (Some val, c) \<Rightarrow>
          (Inr (val, False),
           s\<lparr>s_cache := c,
             s_stats := (s_stats s)\<lparr>CacheHits := i64 (CacheHits (s_stats s) + 1)\<rparr>\<rparr>)
      | (None, c) \<Rightarrow>
          let s1 = s\<lparr>s_cache := c\<rparr>
          in case idx_Get (s_index s1) key of
               None \<Rightarrow> (Inl (KeyNotFound key), s1)
             | Some entry \<Rightarrow>
                 (case log_ReadAt (s_fs s1) (s_log s1) (Offset entry) (eSize entry) of
                    Inl e \<Rightarrow> (Inl (FailedTo ''read from log'' e), s1)
                  | Inr val \<Rightarrow> (Inr (val, True), s1)))"

definition get_fill :: "gostring \<Rightarrow> byte list \<Rightarrow> store \<Rightarrow> store" where
  "get_fill key val s =
     s\<lparr>s_cache := lru_Put (s_cache s) key val,
       s_stats := (s_stats s)\<lparr>CacheMisses := i64 (CacheMisses (s_stats s) + 1),
                               Reads := i64 (Reads (s_stats s) + 1)\<rparr>\<rparr>"

definition store_Get :: "store \<Rightarrow> gostring \<Rightarrow> (store_error + byte list) \<times> store" where
  "store_Get s key =
     (case get_lookup s key of
        (Inl e, s1) \<Rightarrow> (Inl e, s1)
      | (Inr (val, miss), s1) \<Rightarrow> (Inr val, if miss then get_fill key val s1 else s1))"

definition store_GetMeta :: "store \<Rightarrow> gostring \<Rightarrow> store_error + index_entry" where
  "store_GetMeta s key =
     (if s_closed s then Inl ErrStoreClosed
      else case idx_Get (s_index s) key of
             None \<Rightarrow> Inl (KeyNotFound key)
           | Some entry \<Rightarrow> Inr entry)"

definition store_Delete :: "store \<Rightarrow> gostring \<Rightarrow> store_error option \<times> store" where
  "store_Delete s key =
     (if s_closed s then (Some ErrStoreClosed, s)
      else if idx_Get (s_index s) key = None then (Some (KeyNotFound key), s)
      else case log_Append (s_fs s) (s_log s) key [] True [] [] [] [] 0 [] False 0 of
             (Inl e, fs', log') \<Rightarrow>
               (Some (FailedTo ''write tombstone'' e), s\<lparr>s_fs := fs', s_log := log'\<rparr>)
           | (Inr _, fs', log') \<Rightarrow>
               (None, s\<lparr>s_fs := fs', s_log := log',
                        s_index := idx_Delete (s_index s) key,
                        s_cache := lru_Remove (s_cache s) key,
                        s_stats := (s_stats s)\<lparr>Deletes := i64 (Deletes (s_stats s) + 1)\<rparr>\<rparr>))"

definition store_Exists :: "store \<Rightarrow> gostring \<Rightarrow> bool" where
  "store_Exists s key = (if s_closed s then False else idx_Get (s_index s) key \<noteq> None)"

definition store_Len :: "store \<Rightarrow> nat" where
  "store_Len s = idx_Len (s_index s)"

definition store_Keys :: "store \<Rightarrow> gostring list" where
  "store_Keys s = idx_Keys (s_index s)"

text \<open>
  \<open>errors.Is(err, fmt.Errorf(...))\<close>: the target is a new error, \<open>errors.Is\<close> compares error
  pointers along the chain of \<open>err\<close>, and none of them can be the new one.
\<close>

definition errors_Is_new :: "store_error \<Rightarrow> bool" where
  "errors_Is_new e = False"

text \<open>The callback runs without the store's lock, so it may use the store; \<open>c\<close> is the state it
  closes over.\<close>

fun ForEach_loop ::
  "gostring list \<Rightarrow> (gostring \<Rightarrow> byte list \<Rightarrow> 'c \<times> store \<Rightarrow> store_error option \<times> 'c \<times> store)
     \<Rightarrow> 'c \<times> store \<Rightarrow> store_error option \<times> 'c \<times> store" where
  "ForEach_loop [] fn (c, s) = (None, c, s)"
| "ForEach_loop (key # keys) fn (c, s) =
     (case store_Get s key of
        (Inl e, s1) \<Rightarrow> (if errors_Is_new e then ForEach_loop keys fn (c, s1) else (Some e, c, s1))
      | (Inr val, s1) \<Rightarrow>
          (case fn key val (c, s1) of
             (Some e, c2, s2) \<Rightarrow> (Some e, c2, s2)
           | (None, c2, s2) \<Rightarrow> ForEach_loop keys fn (c2, s2)))"

definition store_ForEach ::
  "store \<Rightarrow> (gostring \<Rightarrow> byte list \<Rightarrow> 'c \<times> store \<Rightarrow> store_error option \<times> 'c \<times> store) \<Rightarrow> 'c
     \<Rightarrow> store_error option \<times> 'c \<times> store" where
  "store_ForEach s fn c =
     (if s_closed s then (Some ErrStoreClosed, c, s)
      else let (keys, idx) = KeysSortedByOffset (s_index s)
           in ForEach_loop keys fn (c, s\<lparr>s_index := idx\<rparr>))"

definition store_ForEachMeta ::
  "store \<Rightarrow> (gostring \<Rightarrow> index_entry \<Rightarrow> 's \<Rightarrow> store_error option \<times> 's) \<Rightarrow> 's \<Rightarrow> store_error option \<times> 's" where
  "store_ForEachMeta s fn st =
     (if s_closed s then (Some ErrStoreClosed, st) else idx_ForEach (s_index s) fn st)"

definition FilterByCategory :: "store \<Rightarrow> gostring \<Rightarrow> gostring list option" where
  "FilterByCategory s c = GetByCategory (s_index s) c"

definition FilterByProvider :: "store \<Rightarrow> gostring \<Rightarrow> gostring list option" where
  "FilterByProvider s p = GetByProvider (s_index s) p"

definition CountByCategory :: "store \<Rightarrow> gostring \<Rightarrow> nat" where
  "CountByCategory s c = (case GetByCategory (s_index s) c of None \<Rightarrow> 0 | Some ks \<Rightarrow> length ks)"

definition store_Categories :: "store \<Rightarrow> gostring list" where
  "store_Categories s = idx_Categories (s_index s)"

definition GetStats :: "store \<Rightarrow> stats_meta" where
  "GetStats s =
     \<lparr>Writes = Writes (s_stats s), Reads = Reads (s_stats s), CacheHits = CacheHits (s_stats s),
      CacheMisses = CacheMisses (s_stats s), Deletes = Deletes (s_stats s),
      Compactions = Compactions (s_stats s)\<rparr>"

definition DiskSize :: "store \<Rightarrow> nat" where
  "DiskSize s = log_Size (s_log s)"

definition store_MemoryUsage :: "store \<Rightarrow> int" where
  "store_MemoryUsage s = idx_MemoryUsage (s_index s) + lru_MemoryUsage (s_cache s)"

section \<open>The log behind a store\<close>

text \<open>The map that a list of log items describes, and the index entries it leaves.\<close>

definition abs_of :: "log_item list \<Rightarrow> (gostring \<rightharpoonup> byte list \<times> EntryMeta)" where
  "abs_of hist = fold (\<lambda>x m. m(fst x := snd x)) hist Map.empty"

definition rec_pair :: "LogRecord \<Rightarrow> gostring \<times> index_entry option" where
  "rec_pair r = (recKey r, if recDeleted r then None else Some (index_entry_of r))"

definition index_of :: "log_item list \<Rightarrow> (gostring \<rightharpoonup> index_entry)" where
  "index_of hist = fold idx.map_record (map rec_pair (located logHeaderSize hist)) Map.empty"

definition meta_of :: "index_entry \<Rightarrow> EntryMeta" where
  "meta_of e = \<lparr>mCategory = Category e, mProvider = Provider e, mStatus = Status e, mName = Name e,
     mTotalSize = TotalSize e, mProtocol = Protocol e, mBad = Bad e, mAddedOn = AddedOn e\<rparr>"

text \<open>What a client can read from the store: the metadata of the index entry and the value the
  log has at its offset.\<close>

definition store_abs :: "store \<Rightarrow> (gostring \<rightharpoonup> byte list \<times> EntryMeta)" where
  "store_abs s k =
     (case idx_Get (s_index s) k of
        None \<Rightarrow> None
      | Some e \<Rightarrow>
          (case log_ReadAt (s_fs s) (s_log s) (Offset e) (eSize e) of
             Inl err \<Rightarrow> None
           | Inr v \<Rightarrow> Some (v, meta_of e)))"

definition store_holds :: "store \<Rightarrow> log_item list \<Rightarrow> bool" where
  "store_holds s hist \<longleftrightarrow>
     log_holds (s_fs s) (s_log s) hist
     \<and> idx_inv (s_index s)
     \<and> idx_Get (s_index s) = index_of hist
     \<and> lru.coherent (s_cache s) (map_option fst \<circ> abs_of hist)"

definition entry_reads :: "byte list \<Rightarrow> index_entry \<Rightarrow> byte list \<times> EntryMeta \<Rightarrow> bool" where
  "entry_reads f e x \<longleftrightarrow>
     0 \<le> eSize e \<and> read_at f (Offset e) (nat (eSize e)) = Inr (fst x) \<and> meta_of e = snd x"

lemma abs_of_snoc: "abs_of (hist @ [(k, x)]) = (abs_of hist)(k := x)"
  by (simp add: abs_of_def)

lemma abs_of_Nil [simp]: "abs_of [] = Map.empty"
  by (simp add: abs_of_def)

lemma index_of_snoc:
  "index_of (hist @ [x]) = (index_of hist)(fst x :=
     snd (rec_pair (item_record (length (log_image hist)) x)))"
proof -
  have k: "fst (rec_pair (item_record p x)) = fst x" for p
    by (cases x rule: encode_item.cases) (simp_all add: rec_pair_def)
  show ?thesis
    by (simp add: index_of_def located_append idx.map_record_def k log_image_def)
qed

lemma item_entry_reads:
  assumes "item_fits (k, Some (v, m))"
  shows "entry_reads (log_image (hist @ [(k, Some (v, m))]))
     (index_entry_of (item_record (length (log_image hist)) (k, Some (v, m)))) (v, m)"
proof -
  let ?f = "log_image (hist @ [(k, Some (v, m))])" and ?p = "length (log_image hist)"
  have "at ?f ?p (encode_item (k, Some (v, m)) @ [])"
    using at_append[of "log_image hist"] by (simp add: log_image_def)
  from readRecordAt_encode(2)[OF assms[unfolded item_fits.simps] this[unfolded encode_item.simps]]
  obtain s where "at ?f (?p + (4 + length k + 4)) (v @ s)" by blast
  from at_read(1)[OF this refl] show ?thesis
    by (simp add: entry_reads_def index_entry_of_def meta_of_def add.assoc)
qed

lemma entry_reads_prefix: "entry_reads f e x \<Longrightarrow> entry_reads (f @ g) e x"
  by (auto simp: entry_reads_def read_at_prefix)

lemma index_of_reads:
  assumes "\<forall>x \<in> set hist. item_fits x"
  shows "rel_option (entry_reads (log_image hist)) (index_of hist k) (abs_of hist k)"
  using assms
proof (induction hist rule: rev_induct)
  case Nil
  then show ?case by (simp add: index_of_def)
next
  case (snoc x hist)
  have img: "log_image (hist @ [x]) = log_image hist @ encode_item x" by (simp add: log_image_def)
  show ?case
  proof (cases "fst x = k")
    case False
    have "rel_option (entry_reads (log_image hist @ encode_item x)) (index_of hist k) (abs_of hist k)"
      using snoc by (auto intro: option.rel_mono_strong entry_reads_prefix)
    then show ?thesis
      unfolding img[symmetric] using False by (cases x) (simp add: index_of_snoc abs_of_snoc)
  next
    case True
    show ?thesis
    proof (cases x rule: encode_item.cases)
      case (1 key v m)
      with True snoc.prems item_entry_reads[of key v m hist] show ?thesis
        by (simp add: index_of_snoc abs_of_snoc rec_pair_def)
    next
      case (2 key)
      with True show ?thesis by (simp add: index_of_snoc abs_of_snoc rec_pair_def)
    qed
  qed
qed

lemma entry_reads_log:
  assumes "log_holds fs l hist" "entry_reads (log_image hist) e x"
  shows "log_ReadAt fs l (Offset e) (eSize e) = Inr (fst x)"
proof -
  have "take (l_writePos l) (contents fs (l_file l)) = log_image hist"
    using assms(1) unfolding log_holds_def by blast
  then have "read_at (take (l_writePos l) (contents fs (l_file l))) (Offset e) (nat (eSize e)) = Inr (fst x)"
    using assms(2) by (simp only: entry_reads_def)
  from read_at_take[OF this] assms(2) show ?thesis by (simp add: entry_reads_def log_ReadAt_def)
qed

lemma holds_lookup:
  assumes "log_holds fs l hist"
  shows "case index_of hist k of
      None \<Rightarrow> abs_of hist k = None
    | Some e \<Rightarrow> (\<exists>v. log_ReadAt fs l (Offset e) (eSize e) = Inr v
        \<and> abs_of hist k = Some (v, meta_of e))"
proof -
  have r: "rel_option (entry_reads (log_image hist)) (index_of hist k) (abs_of hist k)"
    using assms by (intro index_of_reads) (simp add: log_holds_def)
  then show ?thesis
    using entry_reads_log[OF assms]
    by (cases "index_of hist k"; cases "abs_of hist k") (auto simp: entry_reads_def)
qed

lemma holds_abs:
  assumes "store_holds s hist"
  shows "store_abs s = abs_of hist"
proof
  fix k
  have "log_holds (s_fs s) (s_log s) hist" "idx_Get (s_index s) = index_of hist"
    using assms by (simp_all add: store_holds_def)
  with holds_lookup[OF this(1), of k] show "store_abs s k = abs_of hist k"
    by (auto simp: store_abs_def split: option.splits)
qed

section \<open>Writing\<close>

text \<open>The value of a key under an item, for the cache.\<close>

lemma cache_view_snoc:
  "map_option fst \<circ> abs_of (hist @ [(k, x)]) = (map_option fst \<circ> abs_of hist)(k := map_option fst x)"
  by (auto simp: abs_of_snoc fun_eq_iff)

lemma rec_pair_item:
  "snd (rec_pair (item_record p (k, Some (v, m)))) = Some (put_entry (p + (4 + length k + 4)) (int (length v)) m)"
  "snd (rec_pair (item_record p (k, None))) = None"
  by (simp_all add: rec_pair_def index_entry_of_def put_entry_def)

definition meta_or :: "EntryMeta option \<Rightarrow> EntryMeta" where
  "meta_or mta = (case mta of None \<Rightarrow> no_meta | Some m \<Rightarrow> m)"

definition log_clean :: "store \<Rightarrow> bool" where
  "log_clean s \<longleftrightarrow> length (contents (s_fs s) (l_file (s_log s))) = l_writePos (s_log s)"

lemma Put_holds:
  assumes "store_holds s hist" "item_fits (key, Some (v, meta_or mta))" "\<not> s_closed s"
  shows "case store_Put s key v mta of
      (None, s') \<Rightarrow> store_holds s' (hist @ [(key, Some (v, meta_or mta))]) \<and> \<not> s_closed s'
        \<and> l_file (s_log s') = l_file (s_log s) \<and> (log_clean s \<longrightarrow> log_clean s')
    | (Some e, s') \<Rightarrow> store_holds s' hist \<and> \<not> s_closed s'
        \<and> fs_limit (s_fs s) < DiskSize s + length (encode_item (key, Some (v, meta_or mta)))"
proof -
  let ?x = "(key, Some (v, meta_or mta))"
  have log: "log_holds (s_fs s) (s_log s) hist" and idx: "idx_inv (s_index s)"
    and get: "idx_Get (s_index s) = index_of hist"
    and co: "lru.coherent (s_cache s) (map_option fst \<circ> abs_of hist)"
    using assms(1) by (simp_all add: store_holds_def)
  have wp: "l_writePos (s_log s) = length (log_image hist)"
    using log unfolding log_holds_def by blast
  have len: "i32 (int (length v)) = int (length v)"
    using assms(2) by (simp add: record_fits_def i32_fits)
  have put: "store_Put s key v mta =
      (case item_append ?x (s_fs s) (s_log s) of
         (Inl e, fs', log') \<Rightarrow> (Some (FailedTo ''append to log'' e), s\<lparr>s_fs := fs', s_log := log'\<rparr>)
       | (Inr (offset, n), fs', log') \<Rightarrow>
           (None, s\<lparr>s_fs := fs', s_log := log',
                    s_index := idx_Put (s_index s) key (put_entry offset n (meta_or mta)),
                    s_cache := lru_Remove (s_cache s) key,
                    s_stats := (s_stats s)\<lparr>Writes := i64 (Writes (s_stats s) + 1)\<rparr>\<rparr>))"
    unfolding store_Put_def Let_def meta_or_def[symmetric] item_append.simps
    by (simp only: assms(3) if_False)
  note ap = append_holds[OF log assms(2)]
  show ?thesis
  proof (cases "item_append ?x (s_fs s) (s_log s)")
    case (fields r fs' log')
    show ?thesis
    proof (cases r)
      case (Inl e)
      with ap fields put idx get co assms(3) show ?thesis
        by (simp add: store_holds_def DiskSize_def log_Size_def)
    next
      case (Inr p)
      obtain offset n where p: "p = (offset, n)" by fastforce
      with ap fields Inr len have ap': "log_holds fs' log' (hist @ [?x])"
        "offset = length (log_image hist) + (4 + length key + 4)" "n = int (length v)"
        "l_file log' = l_file (s_log s)"
        "log_clean s \<longrightarrow> length (contents fs' (l_file log')) = l_writePos log'"
        by (simp_all add: wp log_clean_def)
      have "index_of (hist @ [?x]) = (index_of hist)(key \<mapsto> put_entry offset n (meta_or mta))"
        using ap'(2,3) by (simp only: index_of_snoc fst_conv rec_pair_item)
      moreover have "lru.coherent (lru_Remove (s_cache s) key) (map_option fst \<circ> abs_of (hist @ [?x]))"
        unfolding cache_view_snoc by (rule lru.coherent_invalidate[OF co])
      ultimately show ?thesis
        using fields Inr p put ap' idx get assms(3)
        by (simp add: store_holds_def log_clean_def idx_Put_inv idx_Put_get)
    qed
  qed
qed

lemma Delete_holds:
  assumes "store_holds s hist" "length key \<le> 1024 * 1024" "\<not> s_closed s"
  shows "case store_Delete s key of
      (None, s') \<Rightarrow> store_holds s' (hist @ [(key, None)]) \<and> \<not> s_closed s' \<and> abs_of hist key \<noteq> None
        \<and> l_file (s_log s') = l_file (s_log s) \<and> (log_clean s \<longrightarrow> log_clean s')
    | (Some e, s') \<Rightarrow> store_holds s' hist \<and> \<not> s_closed s' \<and> (abs_of hist key = None \<longleftrightarrow> e = KeyNotFound key)"
proof -
  let ?x = "(key, None) :: log_item"
  have log: "log_holds (s_fs s) (s_log s) hist" and idx: "idx_inv (s_index s)"
    and get: "idx_Get (s_index s) = index_of hist"
    and co: "lru.coherent (s_cache s) (map_option fst \<circ> abs_of hist)"
    using assms(1) by (simp_all add: store_holds_def)
  have fits: "item_fits ?x" using assms(2) by simp
  have iff: "abs_of hist key = None \<longleftrightarrow> idx_Get (s_index s) key = None"
    using holds_lookup[OF log, of key] by (auto simp: get split: option.splits)
  show ?thesis
  proof (cases "idx_Get (s_index s) key = None")
    case True
    with assms(1,3) iff show ?thesis by (simp add: store_Delete_def)
  next
    case False
    note ap = append_holds[OF log fits]
    have del: "store_Delete s key =
      (case item_append ?x (s_fs s) (s_log s) of
         (Inl e, fs', log') \<Rightarrow> (Some (FailedTo ''write tombstone'' e), s\<lparr>s_fs := fs', s_log := log'\<rparr>)
       | (Inr _, fs', log') \<Rightarrow>
           (None, s\<lparr>s_fs := fs', s_log := log', s_index := idx_Delete (s_index s) key,
                    s_cache := lru_Remove (s_cache s) key,
                    s_stats := (s_stats s)\<lparr>Deletes := i64 (Deletes (s_stats s) + 1)\<rparr>\<rparr>))"
      unfolding store_Delete_def item_append.simps by (simp only: assms(3) False if_False)
    show ?thesis
    proof (cases "item_append ?x (s_fs s) (s_log s)")
      case (fields r fs' log')
      show ?thesis
      proof (cases r)
        case (Inl e)
        with ap fields del idx get co assms(3) False iff show ?thesis by (simp add: store_holds_def)
      next
        case (Inr p)
        with ap fields have ap': "log_holds fs' log' (hist @ [?x])" "l_file log' = l_file (s_log s)"
          "log_clean s \<longrightarrow> length (contents fs' (l_file log')) = l_writePos log'"
          by (auto simp: log_clean_def split: prod.splits)
        have "index_of (hist @ [?x]) = (index_of hist)(key := None)"
          by (simp only: index_of_snoc fst_conv rec_pair_item)
        moreover have "lru.coherent (lru_Remove (s_cache s) key) (map_option fst \<circ> abs_of (hist @ [?x]))"
          unfolding cache_view_snoc by (rule lru.coherent_invalidate[OF co])
        ultimately show ?thesis
          using fields Inr del ap' idx get assms(3) False iff
          by (simp add: store_holds_def log_clean_def idx_Delete_inv idx_Delete_get)
      qed
    qed
  qed
qed

lemma Get_holds:
  assumes "store_holds s hist" "\<not> s_closed s"
  shows "fst (store_Get s key) = (case abs_of hist key of None \<Rightarrow> Inl (KeyNotFound key) | Some x \<Rightarrow> Inr (fst x))
    \<and> store_holds (snd (store_Get s key)) hist \<and> \<not> s_closed (snd (store_Get s key))
    \<and> (log_clean s \<longrightarrow> log_clean (snd (store_Get s key)))"
proof -
  have log: "log_holds (s_fs s) (s_log s) hist" and idx: "idx_inv (s_index s)"
    and get: "idx_Get (s_index s) = index_of hist"
    and co: "lru.coherent (s_cache s) (map_option fst \<circ> abs_of hist)"
    using assms(1) by (simp_all add: store_holds_def)
  obtain r c where g: "lru_Get (s_cache s) key = (r, c)" by fastforce
  have co': "lru.coherent c (map_option fst \<circ> abs_of hist)" using lru.coherent_get[OF co, of key] g by simp
  show ?thesis
  proof (cases r)
    case (Some v)
    with lru.coherent_hit[OF co, of key v] g have "map_option fst (abs_of hist key) = Some v" by simp
    with Some g co' log idx get assms(2) show ?thesis
      by (auto simp: store_Get_def get_lookup_def store_holds_def log_clean_def)
  next
    case None
    show ?thesis
    proof (cases "index_of hist key")
      case n: None
      with None g co' log idx get assms(2) holds_lookup[OF log, of key] show ?thesis
        by (simp add: store_Get_def get_lookup_def store_holds_def log_clean_def)
    next
      case (Some e)
      with holds_lookup[OF log, of key] obtain v where v:
        "log_ReadAt (s_fs s) (s_log s) (Offset e) (eSize e) = Inr v" "abs_of hist key = Some (v, meta_of e)"
        by auto
      then have "lru.coherent (lru_Put c key v) (map_option fst \<circ> abs_of hist)"
        by (intro lru.coherent_fill[OF co']) simp
      with v None g Some log idx get assms(2) show ?thesis
        by (simp add: store_Get_def get_lookup_def get_fill_def store_holds_def log_clean_def)
    qed
  qed
qed

section \<open>Recovery\<close>

lemma run_recover:
  "run_records recover_record rs (i, c) =
     (None, fold idx.apply_record (map rec_pair rs) i,
      fold (\<lambda>r c. if recDeleted r then lru_Remove c (recKey r) else c) rs c)"
  by (induction rs arbitrary: i c) (simp_all add: recover_record_def rec_pair_def idx.apply_record_def)

lemma coherent_empty: "lru.coherent c Map.empty \<Longrightarrow> lru.coherent c m"
  by (simp add: lru.coherent_def)

lemma coherent_removes:
  "lru.coherent c Map.empty \<Longrightarrow>
   lru.coherent (fold (\<lambda>r c. if recDeleted r then lru_Remove c (recKey r) else c) rs c) Map.empty"
proof (induction rs arbitrary: c)
  case (Cons r rs)
  have "lru.coherent (lru_Remove c (recKey r)) Map.empty"
    using lru.coherent_invalidate[OF Cons.prems, of "recKey r" None] by simp
  with Cons show ?case by simp
qed simp

lemma new_cache_coherent: "lru.coherent (newLRUCache cap) m"
proof -
  have "peek (newLRUCache cap) = Map.empty" "lru_inv (newLRUCache cap)"
    using new_spec[of cap] by (simp_all add: peek_def)
  then show ?thesis by (simp add: lru.coherent_def)
qed

text \<open>The open log is the file at the path of the store.\<close>

definition settled :: "store \<Rightarrow> bool" where
  "settled s \<longleftrightarrow> l_file (s_log s) = l_path (s_log s)"

definition cache_size :: "config \<Rightarrow> int" where
  "cache_size cfg = (if CacheSize cfg \<le> 0 then 1000 else CacheSize cfg)"

text \<open>Opening a log that has something behind its whole records at which the record reader stops.\<close>

lemma New_tail:
  assumes "DataPath cfg \<noteq> []" "fs_open fs (DataPath cfg)"
    and c: "contents fs (DataPath cfg) = log_image hist @ t"
    and fits: "\<forall>y \<in> set hist. item_fits y"
    and eof: "t = [] \<or> readRecordAt (contents fs (DataPath cfg)) 3 (length (log_image hist)) = Inl EOF"
  shows "\<exists>s. store_New cfg fs = Inr s \<and> store_abs s = abs_of hist
    \<and> l_writePos (s_log s) = length (contents fs (DataPath cfg)) \<and> l_file (s_log s) = DataPath cfg
    \<and> \<not> s_closed s \<and> \<not> s_compacting s \<and> contents (s_fs s) (DataPath cfg) = contents fs (DataPath cfg)
    \<and> fs_limit (s_fs s) = fs_limit fs \<and> fs_open (s_fs s) = fs_open fs
    \<and> idx_inv (s_index s) \<and> (\<forall>m. lru.coherent (s_cache s) m)
    \<and> (t = [] \<longrightarrow> store_holds s hist \<and> log_clean s)"
proof -
  let ?p = "DataPath cfg" and ?f = "contents fs (DataPath cfg)"
  let ?fs = "fs\<lparr>files := (files fs)(?p \<mapsto> ?f)\<rparr>"
  let ?l = "\<lparr>l_path = ?p, l_file = ?p, l_writePos = length ?f, l_version = 3\<rparr>"
  let ?i = "fold idx.apply_record (map rec_pair (located logHeaderSize hist)) newIndex"
  let ?c = "fold (\<lambda>r c. if recDeleted r then lru_Remove c (recKey r) else c)
    (located logHeaderSize hist) (newLRUCache (cache_size cfg))"
  let ?s = "\<lparr>s_fs = ?fs, s_log = ?l, s_index = ?i, s_cache = ?c, s_closed = False,
    s_compacting = False, s_stats = zero_stats\<rparr>"
  have f: "contents ?fs ?p = ?f" by (simp add: contents_def)
  have "validateHeader ?f = Inr 3" unfolding c log_image_def append_assoc by (rule validateHeader_image)
  moreover have "length ?f \<noteq> 0" by (simp add: c log_image_def logHeaderSize_def)
  ultimately have op: "openAppendLog fs ?p = (Inr ?l, ?fs)"
    using assms(2) by (simp add: openAppendLog_def Let_def)
  have it: "log_Iterate ?fs ?l recover_record (newIndex, newLRUCache (cache_size cfg)) = (None, ?i, ?c)"
    using Iterate_eof[of ?fs ?p hist t ?l recover_record] f c fits eof run_recover by simp
  have new: "store_New cfg fs = Inr ?s"
    using assms(1) op it by (simp add: store_New_def recover_def cache_size_def logVersion_def Let_def)
  have i: "idx_Get ?i = index_of hist" "idx_inv ?i"
    using idx.replay_get[OF newIndex_inv] idx.replay_inv[OF newIndex_inv]
    by (simp_all add: newIndex_get index_of_def)
  have co: "lru.coherent ?c m" for m
    by (rule coherent_empty[OF coherent_removes[OF new_cache_coherent]])
  have h: "log_holds ?fs (?l\<lparr>l_writePos := length (log_image hist)\<rparr>) hist"
  proof -
    have "take (length (log_image hist)) (contents ?fs ?p) = log_image hist"
      by (subst f) (simp add: c)
    with fits show ?thesis by (simp add: log_holds_def)
  qed
  have rd: "log_ReadAt ?fs (?l\<lparr>l_writePos := length (log_image hist)\<rparr>) = log_ReadAt ?fs ?l"
    by (simp add: log_ReadAt_def fun_eq_iff)
  have "store_abs ?s k = abs_of hist k" for k
    using holds_lookup[OF h, of k] unfolding rd
    by (cases "index_of hist k") (auto simp: store_abs_def i(1))
  then have "store_abs ?s = abs_of hist" by (rule ext)
  moreover have "t = [] \<Longrightarrow> store_holds ?s hist \<and> log_clean ?s"
    using fits c co i by (simp add: store_holds_def log_holds_def log_clean_def f)
  moreover have "\<forall>m. lru.coherent ?c m" using co by blast
  ultimately show ?thesis using new f i(2) by simp
qed

lemma New_torn:
  assumes "DataPath cfg \<noteq> []" "fs_open fs (DataPath cfg)"
    and c: "contents fs (DataPath cfg) = log_image hist @ take n (encode_item x)"
    and fits: "\<forall>y \<in> set hist. item_fits y" "item_fits x" "n < length (encode_item x)"
  shows "\<exists>s. store_New cfg fs = Inr s \<and> store_abs s = abs_of hist \<and> \<not> s_closed s \<and> \<not> s_compacting s
    \<and> (n = 0 \<longrightarrow> store_holds s hist \<and> log_clean s)"
  using New_tail[OF assms(1,2) c fits(1)] torn_eof[OF c fits(2,3)] by fastforce

lemma New_fresh:
  assumes "DataPath cfg \<noteq> []" "fs_open fs (DataPath cfg)" "contents fs (DataPath cfg) = []"
    and "logHeaderSize \<le> fs_limit fs"
  shows "\<exists>s. store_New cfg fs = Inr s \<and> store_holds s [] \<and> log_clean s \<and> \<not> s_closed s
    \<and> \<not> s_compacting s \<and> l_file (s_log s) = DataPath cfg \<and> fs_open (s_fs s) = fs_open fs
    \<and> fs_limit (s_fs s) = fs_limit fs \<and> settled s \<and> fs_rename (s_fs s) = fs_rename fs"
proof -
  let ?p = "DataPath cfg"
  let ?fs = "fs\<lparr>files := (files fs)(?p \<mapsto> log_image [])\<rparr>"
  let ?l = "\<lparr>l_path = ?p, l_file = ?p, l_writePos = logHeaderSize, l_version = 3\<rparr>"
  let ?s = "\<lparr>s_fs = ?fs, s_log = ?l, s_index = newIndex, s_cache = newLRUCache (cache_size cfg),
    s_closed = False, s_compacting = False, s_stats = zero_stats\<rparr>"
  have op: "openAppendLog fs ?p = (Inr ?l, ?fs)"
    using assms
    by (simp add: openAppendLog_def writeHeader_def write_at_def contents_def put_bytes_def
        log_image_def logVersion_def Let_def)
  have "log_Iterate ?fs ?l recover_record st = (None, st)" for st
    by (simp add: log_Iterate_def Iterate_loop.simps [of _ 3 logHeaderSize _ logHeaderSize])
  then have "store_New cfg fs = Inr ?s"
    using assms(1) op by (simp add: store_New_def recover_def cache_size_def logVersion_def Let_def)
  then show ?thesis
    using new_cache_coherent newIndex_inv newIndex_get
    by (simp add: store_holds_def log_holds_def log_clean_def contents_def log_image_def index_of_def settled_def)
qed

section \<open>Compaction\<close>

definition live_items :: "gostring list \<Rightarrow> (gostring \<rightharpoonup> byte list \<times> EntryMeta) \<Rightarrow> log_item list" where
  "live_items ks m = map (\<lambda>k. (k, m k)) (filter (\<lambda>k. m k \<noteq> None) ks)"

lemma fold_upds: "fold (\<lambda>x m. m(fst x := snd x)) (map (\<lambda>k. (k, f k)) ks) m =
    (\<lambda>k. if k \<in> set ks then f k else m k)"
  by (induction ks arbitrary: m) (auto simp: fun_eq_iff)

lemma abs_of_live: "set ks = dom m \<Longrightarrow> abs_of (live_items ks m) = m"
proof
  fix k
  assume "set ks = dom m"
  then show "abs_of (live_items ks m) k = m k"
    by (cases "m k") (auto simp: abs_of_def live_items_def fold_upds)
qed

lemma abs_of_fits: "\<forall>x \<in> set hist. item_fits x \<Longrightarrow> abs_of hist k = Some y \<Longrightarrow> item_fits (k, Some y)"
proof (induction hist rule: rev_induct)
  case (snoc x hist)
  then show ?case by (cases x) (auto simp: abs_of_snoc split: if_splits)
qed simp

lemma compact_path_other: "compact_path p \<noteq> p"
  by (simp add: compact_path_def)

lemma contents_remove: "q \<noteq> p \<Longrightarrow> contents (remove_file q fs) p = contents fs p"
  by (simp add: contents_def remove_file_def)

lemma contents_rename:
  "q \<noteq> p \<Longrightarrow> contents (rename_file q p (remove_file p fs)) (if fs_rename fs then p else q) = contents fs q"
  by (simp add: contents_def remove_file_def rename_file_def)

text \<open>Which calls fail does not depend on what was written.\<close>

definition same_flags :: "filesys \<Rightarrow> filesys \<Rightarrow> bool" where
  "same_flags fs fs' \<longleftrightarrow> fs_rename fs' = fs_rename fs \<and> fs_remove fs' = fs_remove fs"

lemma flags_write: "same_flags fs (snd (write_at fs p pos buf))"
  by (simp add: same_flags_def write_at_def)

lemma flags_remove: "same_flags fs (remove_file p fs)" "same_flags fs (rename_file p q fs)"
  by (simp_all add: same_flags_def remove_file_def rename_file_def)

lemma flags_trans: "same_flags a b \<Longrightarrow> same_flags b c \<Longrightarrow> same_flags a c"
  by (simp add: same_flags_def)

lemma flags_create: "same_flags fs (snd (createAppendLog fs q))"
  using flags_write[of "fs\<lparr>files := (files fs)(q \<mapsto> [])\<rparr>" q 0 header_bytes]
  by (auto simp: createAppendLog_def writeHeader_def same_flags_def split: prod.splits option.splits)

lemma flags_append:
  "same_flags fs (fst (snd (log_Append fs l key val del cat prov st name ts proto bad added)))"
  "l_path (snd (snd (log_Append fs l key val del cat prov st name ts proto bad added))) = l_path l"
  "l_file (snd (snd (log_Append fs l key val del cat prov st name ts proto bad added))) = l_file l"
  by (auto simp: log_Append_def write_at_def Let_def same_flags_def)

lemma flags_compact_loop: "same_flags fs (fst (snd (compact_loop ks idx l fs nl nidx)))"
proof (induction ks arbitrary: fs nl nidx)
  case (Cons k ks)
  show ?case
  proof (cases "idx_Get idx k")
    case (Some e)
    show ?thesis
    proof (cases "log_ReadAt fs l (Offset e) (eSize e)")
      case (Inr v)
      obtain r fs' nl' where a: "log_Append fs nl k v False (Category e) (Provider e) (Status e) (Name e)
          (TotalSize e) (Protocol e) (Bad e) (AddedOn e) = (r, fs', nl')"
        by (cases "log_Append fs nl k v False (Category e) (Provider e) (Status e) (Name e)
          (TotalSize e) (Protocol e) (Bad e) (AddedOn e)") auto
      have "same_flags fs fs'"
        using flags_append(1)[of fs nl k v False "Category e" "Provider e" "Status e" "Name e"
            "TotalSize e" "Protocol e" "Bad e" "AddedOn e"] a by simp
      with Some Inr a Cons.IH[of fs' nl'] flags_trans show ?thesis
        by (cases r) (auto split: prod.split)
    qed (simp add: Some same_flags_def)
  qed (simp add: Cons.IH)
qed (simp add: same_flags_def)

lemma log_holds_cong:
  "contents fs' (l_file l) = contents fs (l_file l) \<Longrightarrow> log_holds fs' l hist = log_holds fs l hist"
  by (simp add: log_holds_def)

lemma item_append_other:
  "p \<noteq> l_file l \<Longrightarrow> contents (fst (snd (item_append x fs l))) p = contents fs p"
  using write_at_other[of p "l_file l" fs "l_writePos l" "encode_item x"]
  by (auto simp: item_append_eq split: prod.splits option.splits)

lemma createAppendLog_other:
  "p \<noteq> q \<Longrightarrow> contents (snd (createAppendLog fs q)) p = contents fs p"
  using write_at_other[of p q "fs\<lparr>files := (files fs)(q \<mapsto> [])\<rparr>" 0 header_bytes]
  by (auto simp: createAppendLog_def writeHeader_def contents_def split: prod.splits option.splits)

lemma put_entry_meta: "put_entry offset n (meta_of e) = e\<lparr>Offset := offset, eSize := n\<rparr>"
  by (simp add: put_entry_def meta_of_def)

lemma compact_loop_holds:
  assumes "log_holds fs l hist" "idx_Get idx = index_of hist"
    and "log_holds fs nl nhist" "idx_inv nidx" "idx_Get nidx = index_of nhist"
    and "l_file nl \<noteq> l_file l" "length (contents fs (l_file nl)) = l_writePos nl"
  shows "case compact_loop ks idx l fs nl nidx of
      (Some e, fs', _, _) \<Rightarrow> contents fs' (l_file l) = contents fs (l_file l)
    | (None, fs', nl', nidx') \<Rightarrow>
        contents fs' (l_file l) = contents fs (l_file l)
        \<and> log_holds fs' nl' (nhist @ live_items ks (abs_of hist))
        \<and> idx_inv nidx' \<and> idx_Get nidx' = index_of (nhist @ live_items ks (abs_of hist))
        \<and> l_file nl' = l_file nl \<and> length (contents fs' (l_file nl)) = l_writePos nl'"
  using assms
proof (induction ks arbitrary: fs nl nhist nidx)
  case Nil
  then show ?case by (simp add: live_items_def)
next
  case (Cons k ks)
  note look = holds_lookup[OF Cons.prems(1), of k]
  show ?case
  proof (cases "index_of hist k")
    case None
    with look have live: "live_items (k # ks) (abs_of hist) = live_items ks (abs_of hist)"
      by (simp add: live_items_def)
    have "compact_loop (k # ks) idx l fs nl nidx = compact_loop ks idx l fs nl nidx"
      using None Cons.prems(2) by simp
    then show ?thesis unfolding live by (simp only: Cons.IH[OF Cons.prems])
  next
    case (Some e)
    with look obtain v where v: "log_ReadAt fs l (Offset e) (eSize e) = Inr v"
      "abs_of hist k = Some (v, meta_of e)" by auto
    let ?x = "(k, Some (v, meta_of e))"
    have fits: "item_fits ?x"
      using abs_of_fits[OF _ v(2)] Cons.prems(1) by (simp add: log_holds_def)
    then have len: "i32 (int (length v)) = int (length v)" by (simp add: record_fits_def i32_fits)
    have wp: "l_writePos nl = length (log_image nhist)"
      using Cons.prems(3) unfolding log_holds_def by blast
    have live: "live_items (k # ks) (abs_of hist) = ?x # live_items ks (abs_of hist)"
      by (simp add: live_items_def v(2))
    have step: "compact_loop (k # ks) idx l fs nl nidx =
      (case item_append ?x fs nl of
         (Inl err, fs', nl') \<Rightarrow> (Some (FailedTo ''write during compaction'' err), fs', nl', nidx)
       | (Inr (offset, n), fs', nl') \<Rightarrow>
           compact_loop ks idx l fs' nl' (idx_Put nidx k (e\<lparr>Offset := offset, eSize := n\<rparr>)))"
      using Some Cons.prems(2) v(1) by (simp add: meta_of_def)
    note ap = append_holds[OF Cons.prems(3) fits]
    obtain r fs' nl' where a: "item_append ?x fs nl = (r, fs', nl')" by (cases "item_append ?x fs nl")
    have old: "contents fs' (l_file l) = contents fs (l_file l)"
      using item_append_other[of "l_file l" nl ?x fs] Cons.prems(6) a by simp
    show ?thesis
    proof (cases r)
      case (Inl err)
      with a step old show ?thesis by simp
    next
      case (Inr q)
      obtain offset n where q: "q = (offset, n)" by fastforce
      with ap a Inr len wp Cons.prems(7) have ap': "log_holds fs' nl' (nhist @ [?x])"
        "offset = length (log_image nhist) + (4 + length k + 4)" "n = int (length v)"
        "l_file nl' = l_file nl" "length (contents fs' (l_file nl')) = l_writePos nl'"
        by simp_all
      let ?nidx = "idx_Put nidx k (e\<lparr>Offset := offset, eSize := n\<rparr>)"
      have "index_of (nhist @ [?x]) = (index_of nhist)(k \<mapsto> e\<lparr>Offset := offset, eSize := n\<rparr>)"
        using ap'(2,3) by (simp only: index_of_snoc fst_conv rec_pair_item put_entry_meta)
      then have g: "idx_Get ?nidx = index_of (nhist @ [?x])" by (simp add: idx_Put_get Cons.prems(5))
      have h: "log_holds fs' l hist" using Cons.prems(1) log_holds_cong[OF old] by simp
      have "l_file nl' \<noteq> l_file l" using ap'(4) Cons.prems(6) by simp
      from Cons.IH[OF h Cons.prems(2) ap'(1) idx_Put_inv[OF Cons.prems(4)] g this ap'(5)]
      show ?thesis
        using old ap'(4) a Inr q step live by (auto split: prod.splits option.splits)
    qed
  qed
qed

lemma Compact_holds:
  assumes "store_holds s hist" "\<not> s_closed s" "\<not> s_compacting s" and settled: "settled s"
  shows "case Compact s of
      (Some e, s') \<Rightarrow> store_holds s' hist \<and> \<not> s_closed s' \<and> \<not> s_compacting s' \<and> (log_clean s \<longrightarrow> log_clean s')
        \<and> s_log s' = s_log s \<and> same_flags (s_fs s) (s_fs s')
    | (None, s') \<Rightarrow>
        store_holds s' (live_items (fst (KeysSortedByOffset (s_index s))) (abs_of hist))
        \<and> log_clean s' \<and> \<not> s_closed s' \<and> \<not> s_compacting s' \<and> l_path (s_log s') = l_path (s_log s)
        \<and> l_file (s_log s') = (if fs_rename (s_fs s) then l_path (s_log s) else compact_path (l_path (s_log s)))
        \<and> (\<not> fs_rename (s_fs s) \<longrightarrow> contents (s_fs s') (l_path (s_log s)) =
            (if fs_remove (s_fs s) then [] else contents (s_fs s) (l_path (s_log s))))
        \<and> same_flags (s_fs s) (s_fs s')"
proof -
  have log: "log_holds (s_fs s) (s_log s) hist" and idx: "idx_inv (s_index s)"
    and get: "idx_Get (s_index s) = index_of hist"
    and co: "lru.coherent (s_cache s) (map_option fst \<circ> abs_of hist)"
    using assms(1) by (simp_all add: store_holds_def)
  let ?p = "l_path (s_log s)" and ?q = "compact_path (l_path (s_log s))"
  have p: "l_file (s_log s) = ?p" using settled by (simp add: settled_def)
  obtain r fs where cr: "createAppendLog (s_fs s) ?q = (r, fs)" by fastforce
  have other: "contents fs ?p = contents (s_fs s) ?p"
    using createAppendLog_other[of ?p ?q "s_fs s"] cr compact_path_other[of ?p] by simp
  have fl1: "same_flags (s_fs s) fs" using flags_create[of "s_fs s" ?q] cr by simp
  obtain ks idx' where ks: "KeysSortedByOffset (s_index s) = (ks, idx')" by fastforce
  have idx': "idx_inv idx'" "idx_Get idx' = index_of hist"
    using KeysSortedByOffset_spec[OF idx] ks get by (simp_all add: idx_Get_map_of)
  have keep: "store_holds (s\<lparr>s_index := i, s_fs := fs'\<rparr>) hist
      \<and> (log_clean s \<longrightarrow> log_clean (s\<lparr>s_index := i, s_fs := fs'\<rparr>))"
    if "contents fs' ?p = contents (s_fs s) ?p" "idx_inv i" "idx_Get i = index_of hist" for fs' i
    using that log co log_holds_cong[of fs' "s_log s" "s_fs s" hist]
    by (simp add: store_holds_def log_clean_def p)
  show ?thesis
  proof (cases r)
    case (Inl e)
    with cr keep[OF other idx get] fl1 assms(2,3) show ?thesis by (simp add: Compact_def)
  next
    case (Inr nl)
    have h: "log_holds fs (s_log s) hist" using log log_holds_cong[of fs "s_log s" "s_fs s"] other p by simp
    from cr Inr have nl: "nl = \<lparr>l_path = ?q, l_file = ?q, l_writePos = logHeaderSize, l_version = 3\<rparr>"
      and nc: "contents fs ?q = header_bytes"
      by (auto simp: createAppendLog_def writeHeader_def write_at_def logVersion_def contents_def
          put_bytes_def split: if_splits)
    have nh: "log_holds fs nl []" using nl nc by (simp add: log_holds_def log_image_def)
    have ne: "l_file nl \<noteq> l_file (s_log s)" using nl compact_path_other p by simp
    have nlen: "length (contents fs (l_file nl)) = l_writePos nl" using nl nc by simp
    have "idx_Get newIndex = index_of []" by (simp add: newIndex_get index_of_def)
    from compact_loop_holds[OF h idx'(2) nh newIndex_inv this ne nlen, of ks, unfolded append_Nil]
    have loop: "case compact_loop ks idx' (s_log s) fs nl newIndex of
      (Some e, fs', _, _) \<Rightarrow> contents fs' ?p = contents fs ?p
    | (None, fs', nl', nidx') \<Rightarrow>
        contents fs' ?p = contents fs ?p
        \<and> log_holds fs' nl' (live_items ks (abs_of hist))
        \<and> idx_inv nidx' \<and> idx_Get nidx' = index_of (live_items ks (abs_of hist))
        \<and> l_file nl' = ?q \<and> length (contents fs' ?q) = l_writePos nl'"
      by (simp only: nl p appendLog.select_convs)
    obtain e fs' nl' nidx' where lp: "compact_loop ks idx' (s_log s) fs nl newIndex = (e, fs', nl', nidx')"
      by (cases "compact_loop ks idx' (s_log s) fs nl newIndex")
    have fl2: "same_flags (s_fs s) fs'"
      using flags_trans[OF fl1] flags_compact_loop[of fs ks idx' "s_log s" nl newIndex] lp by simp
    have fl3: "same_flags (s_fs s) (remove_file ?q fs')" by (rule flags_trans[OF fl2 flags_remove(1)])
    have here: "contents fs' ?p = contents (s_fs s) ?p" using loop lp other by (cases e) simp_all
    then have old: "contents (remove_file ?q fs') ?p = contents (s_fs s) ?p"
      using compact_path_other[of ?p] by (simp add: contents_remove)
    note kept = keep[OF old idx']
    show ?thesis
    proof (cases "e = None \<and> fs_sync fs'")
      case True
      define fs2 where "fs2 = rename_file ?q ?p (remove_file ?p fs')"
      define f where "f = (if fs_rename fs' then ?p else ?q)"
      have c2: "contents fs2 f = contents fs' ?q"
        unfolding fs2_def f_def by (rule contents_rename[OF compact_path_other])
      have fl4: "same_flags (s_fs s) fs2"
        unfolding fs2_def by (rule flags_trans[OF flags_trans[OF fl2 flags_remove(1)] flags_remove(2)])
      have f: "f = (if fs_rename (s_fs s) then ?p else ?q)" using fl2 by (simp add: f_def same_flags_def)
      have gone: "\<not> fs_rename (s_fs s) \<longrightarrow> contents fs2 ?p = (if fs_remove (s_fs s) then [] else contents (s_fs s) ?p)"
        using fl2 here by (auto simp: fs2_def rename_file_def remove_file_def same_flags_def contents_def)
      from True loop lp have n: "log_holds fs' nl' (live_items ks (abs_of hist))" "idx_inv nidx'"
        "idx_Get nidx' = index_of (live_items ks (abs_of hist))" "l_file nl' = ?q"
        "length (contents fs' ?q) = l_writePos nl'"
        by simp_all
      define s' where "s' = s\<lparr>s_index := nidx', s_log := nl'\<lparr>l_path := ?p, l_file := f\<rparr>,
        s_cache := lru_Clear (s_cache s), s_fs := fs2,
        s_stats := (s_stats s)\<lparr>Compactions := i64 (Compactions (s_stats s) + 1)\<rparr>\<rparr>"
      have C: "Compact s = (None, s')"
        using True cr Inr ks lp assms(2,3)
        by (simp add: Compact_def Let_def fs2_def log_Sync_def f_def s'_def)
      have "log_holds fs2 (nl'\<lparr>l_path := ?p, l_file := f\<rparr>) (live_items ks (abs_of hist))"
        using n(1,4) c2 by (auto simp: log_holds_def)
      moreover have "lru.coherent (lru_Clear (s_cache s)) m" for m by (rule lru.coherent_clear)
      ultimately show ?thesis
        unfolding C using ks n c2 assms(2,3) fl4 f gone
        by (simp add: store_holds_def log_clean_def s'_def)
    next
      case False
      with cr Inr ks lp kept fl3 assms(2,3) show ?thesis
        by (cases e) (simp_all add: Compact_def Let_def log_Sync_def)
    qed
  qed
qed

section \<open>Runs\<close>

definition store_inv :: "store \<Rightarrow> bool" where
  "store_inv s \<longleftrightarrow> (\<exists>hist. store_holds s hist)"

datatype store_op =
    SPut gostring "byte list" "EntryMeta option"
  | SDelete gostring
  | SGet gostring
  | SCompact

fun store_step :: "store_op \<Rightarrow> store \<Rightarrow> store_error option \<times> store" where
  "store_step (SPut k v m) s = store_Put s k v m"
| "store_step (SDelete k) s = store_Delete s k"
| "store_step (SGet k) s = (case store_Get s k of (Inl e, s') \<Rightarrow> (Some e, s') | (Inr _, s') \<Rightarrow> (None, s'))"
| "store_step SCompact s = Compact s"

text \<open>What an operation that succeeds does to the map of current values.\<close>

fun spec_step ::
  "store_op \<Rightarrow> (gostring \<rightharpoonup> byte list \<times> EntryMeta) \<Rightarrow> (gostring \<rightharpoonup> byte list \<times> EntryMeta)" where
  "spec_step (SPut k v m) a = a(k \<mapsto> (v, meta_or m))"
| "spec_step (SDelete k) a = a(k := None)"
| "spec_step (SGet k) a = a"
| "spec_step SCompact a = a"

fun op_fits :: "store_op \<Rightarrow> bool" where
  "op_fits (SPut k v m) = item_fits (k, Some (v, meta_or m))"
| "op_fits (SDelete k) = (length k \<le> 1024 * 1024)"
| "op_fits (SGet k) = True"
| "op_fits SCompact = True"

fun run_store ::
  "store_op list \<Rightarrow> store \<times> (gostring \<rightharpoonup> byte list \<times> EntryMeta) \<Rightarrow> store \<times> (gostring \<rightharpoonup> byte list \<times> EntryMeta)" where
  "run_store [] (s, a) = (s, a)"
| "run_store (x # xs) (s, a) =
     (case store_step x s of
        (None, s') \<Rightarrow> run_store xs (s', spec_step x a)
      | (Some e, s') \<Rightarrow> run_store xs (s', a))"

definition store_up :: "store \<Rightarrow> bool" where
  "store_up s \<longleftrightarrow> store_inv s \<and> \<not> s_closed s \<and> \<not> s_compacting s"

lemma Put_compacting: "s_compacting (snd (store_Put s k v m)) = s_compacting s"
  by (auto simp: store_Put_def Let_def split: prod.split sum.split)

lemma Delete_compacting: "s_compacting (snd (store_Delete s k)) = s_compacting s"
  by (auto simp: store_Delete_def split: prod.split sum.split)

lemma Get_compacting: "s_compacting (snd (store_Get s k)) = s_compacting s"
  by (auto simp: store_Get_def get_lookup_def get_fill_def Let_def split: prod.split sum.split option.split)

lemma live_keys:
  assumes "store_holds s hist"
  shows "set (fst (KeysSortedByOffset (s_index s))) = dom (abs_of hist)"
    and "distinct (fst (KeysSortedByOffset (s_index s)))"
proof -
  have log: "log_holds (s_fs s) (s_log s) hist" and idx: "idx_inv (s_index s)"
    and get: "idx_Get (s_index s) = index_of hist"
    using assms by (simp_all add: store_holds_def)
  have "dom (index_of hist) = dom (abs_of hist)"
    using holds_lookup[OF log] by (fastforce simp: dom_def split: option.splits)
  then show "set (fst (KeysSortedByOffset (s_index s))) = dom (abs_of hist)"
    using KeysSortedByOffset_spec[OF idx] idx_keys[of "s_index s"] get by simp
  show "distinct (fst (KeysSortedByOffset (s_index s)))"
    using KeysSortedByOffset_spec[OF idx] idx by (simp add: idx_inv_def)
qed

lemma store_step_up:
  assumes "store_up s" "op_fits x" "x = SCompact \<longrightarrow> settled s"
  shows "case store_step x s of
      (None, s') \<Rightarrow> store_up s' \<and> store_abs s' = spec_step x (store_abs s)
    | (Some e, s') \<Rightarrow> store_up s' \<and> store_abs s' = store_abs s"
proof -
  from assms(1) obtain hist where h: "store_holds s hist" and o: "\<not> s_closed s" and c: "\<not> s_compacting s"
    by (auto simp: store_up_def store_inv_def)
  note a = holds_abs[OF h]
  show ?thesis
  proof (cases x)
    case (SPut k v m)
    with Put_holds[OF h _ o, of k v m] assms(2) Put_compacting[of s k v m] c show ?thesis
      by (cases "store_Put s k v m")
        (auto simp: store_up_def store_inv_def a holds_abs abs_of_snoc split: option.splits)
  next
    case (SDelete k)
    with Delete_holds[OF h _ o, of k] assms(2) Delete_compacting[of s k] c show ?thesis
      by (cases "store_Delete s k")
        (auto simp: store_up_def store_inv_def a holds_abs abs_of_snoc split: option.splits)
  next
    case (SGet k)
    with Get_holds[OF h o, of k] Get_compacting[of s k] c show ?thesis
      by (cases "store_Get s k")
        (auto simp: store_up_def store_inv_def a holds_abs split: sum.splits)
  next
    case SCompact
    then have "settled s" using assms(3) by simp
    with SCompact Compact_holds[OF h o c] abs_of_live[OF live_keys(1)[OF h]] show ?thesis
      by (cases "Compact s")
        (auto simp: store_up_def store_inv_def a holds_abs split: option.splits)
  qed
qed

text \<open>As long as no rename fails, the log stays where it is.\<close>

definition stays_put :: "store \<Rightarrow> bool" where
  "stays_put s \<longleftrightarrow> settled s \<and> fs_rename (s_fs s)"

lemma Get_log: "s_log (snd (store_Get s k)) = s_log s \<and> s_fs (snd (store_Get s k)) = s_fs s"
  by (auto simp: store_Get_def get_lookup_def get_fill_def Let_def split: prod.split sum.split option.split)

lemma Put_stays: "stays_put s \<Longrightarrow> stays_put (snd (store_Put s k v m))"
  by (auto simp: store_Put_def log_Append_def write_at_def Let_def stays_put_def settled_def)

lemma Delete_stays: "stays_put s \<Longrightarrow> stays_put (snd (store_Delete s k))"
  by (auto simp: store_Delete_def log_Append_def write_at_def Let_def stays_put_def settled_def)

lemma store_step_stays:
  assumes "store_up s" "stays_put s"
  shows "stays_put (snd (store_step x s))"
proof (cases x)
  case (SGet k)
  then have "snd (store_step x s) = snd (store_Get s k)" by (simp split: prod.split sum.split)
  then show ?thesis using Get_log[of s k] assms(2) by (simp add: stays_put_def settled_def)
next
  case SCompact
  obtain hist where "store_holds s hist" "\<not> s_closed s" "\<not> s_compacting s"
    using assms(1) by (auto simp: store_up_def store_inv_def)
  from Compact_holds[OF this] assms(2) SCompact show ?thesis
    by (auto simp: stays_put_def settled_def same_flags_def split: prod.splits option.splits)
qed (use assms Put_stays Delete_stays in auto)

lemma run_store_up:
  "store_up s \<Longrightarrow> stays_put s \<Longrightarrow> a = store_abs s \<Longrightarrow> \<forall>x \<in> set xs. op_fits x \<Longrightarrow>
   store_up (fst (run_store xs (s, a))) \<and> store_abs (fst (run_store xs (s, a))) = snd (run_store xs (s, a))"
proof (induction xs arbitrary: s a)
  case (Cons x xs)
  obtain e s' where st: "store_step x s = (e, s')" by fastforce
  with store_step_up[OF Cons.prems(1), of x] Cons.prems(2,4)
  have "store_up s' \<and> store_abs s' = (if e = None then spec_step x (store_abs s) else store_abs s)"
    by (cases e) (simp_all add: stays_put_def)
  then have up: "store_up s'" and ab: "(if e = None then spec_step x a else a) = store_abs s'"
    using Cons.prems(3) by auto
  have put: "stays_put s'" using store_step_stays[OF Cons.prems(1,2), of x] st by simp
  have "\<forall>x \<in> set xs. op_fits x" using Cons.prems(4) by simp
  from Cons.IH[OF up put ab this] st show ?case by (cases e) simp_all
qed simp

section \<open>The contract of the store\<close>

definition put_fits :: "gostring \<Rightarrow> byte list \<Rightarrow> EntryMeta option \<Rightarrow> bool" where
  "put_fits k v m = item_fits (k, Some (v, meta_or m))"

lemma Delete_missing:
  assumes "store_up s" "store_abs s k = None"
  shows "store_Delete s k = (Some (KeyNotFound k), s)"
proof -
  from assms(1) obtain hist where h: "store_holds s hist" and o: "\<not> s_closed s"
    by (auto simp: store_up_def store_inv_def)
  have log: "log_holds (s_fs s) (s_log s) hist" "idx_Get (s_index s) = index_of hist"
    using h by (simp_all add: store_holds_def)
  from holds_lookup[OF log(1), of k] holds_abs[OF h] assms(2) log(2) have "idx_Get (s_index s) k = None"
    by (auto split: option.splits)
  with o show ?thesis by (simp add: store_Delete_def)
qed

lemma abs_key_fits:
  assumes "store_up s" "store_abs s k \<noteq> None"
  shows "length k \<le> 1024 * 1024"
proof -
  from assms(1) obtain hist where h: "store_holds s hist" by (auto simp: store_up_def store_inv_def)
  obtain v m where "abs_of hist k = Some (v, m)" using assms(2) holds_abs[OF h] by auto
  from abs_of_fits[OF _ this] h have "item_fits (k, Some (v, m))"
    by (simp add: store_holds_def log_holds_def)
  then show ?thesis by (simp add: record_fits_def)
qed

interpretation kv: kv_store store_Get store_Put store_Delete store_abs store_up put_fits meta_or
proof unfold_locales
  fix s k r s'
  assume s: "store_up s" "store_Get s k = (r, s')"
  then obtain hist where h: "store_holds s hist" and o: "\<not> s_closed s"
    by (auto simp: store_up_def store_inv_def)
  from Get_holds[OF h o, of k] Get_compacting[of s k] holds_abs[OF h] s
  show "store_up s' \<and> store_abs s' = store_abs s
      \<and> (case store_abs s k of None \<Rightarrow> \<exists>e. r = Inl e | Some x \<Rightarrow> r = Inr (fst x))"
    by (auto simp: store_up_def store_inv_def holds_abs split: option.splits)
next
  fix s k v m r s'
  assume "store_up s" "put_fits k v m" "store_Put s k v m = (r, s')"
  with store_step_up[of s "SPut k v m"]
  show "store_up s' \<and> store_abs s' = (if r = None then (store_abs s)(k \<mapsto> (v, meta_or m)) else store_abs s)"
    by (cases r) (simp_all add: put_fits_def)
next
  fix s k r s'
  assume "store_up s" "store_abs s k \<noteq> None" "store_Delete s k = (r, s')"
  with store_step_up[of s "SDelete k"] abs_key_fits[of s k]
  show "store_up s' \<and> store_abs s' = (if r = None then (store_abs s)(k := None) else store_abs s)"
    by (cases r) simp_all
next
  fix s k r s'
  assume "store_up s" "store_abs s k = None" "store_Delete s k = (r, s')"
  with Delete_missing[of s k] show "r \<noteq> None \<and> s' = s" by simp
qed

text \<open>A deletion with room for its tombstone succeeds; so does a sequence of them.\<close>

definition tombstone_size :: "gostring \<Rightarrow> nat" where
  "tombstone_size k = length (encode_item (k, None))"

lemma Delete_room:
  assumes "store_up s" "store_abs s k \<noteq> None" "DiskSize s + tombstone_size k \<le> fs_limit (s_fs s)"
  shows "\<exists>s'. store_Delete s k = (None, s') \<and> DiskSize s' = DiskSize s + tombstone_size k
    \<and> fs_limit (s_fs s') = fs_limit (s_fs s)"
proof -
  have o: "\<not> s_closed s" using assms(1) by (simp add: store_up_def)
  have i: "idx_Get (s_index s) k \<noteq> None"
    using assms(2) by (auto simp: store_abs_def split: option.splits)
  let ?buf = "encode_record k [] True [] [] [] [] 0 [] False 0"
  have "l_writePos (s_log s) + length ?buf \<le> fs_limit (s_fs s)"
    using assms(3) by (simp add: DiskSize_def log_Size_def tombstone_size_def)
  with o i show ?thesis
    by (auto simp: store_Delete_def log_Append_def write_at_def Let_def DiskSize_def log_Size_def tombstone_size_def)
qed

lemma deletes_room:
  assumes "store_up s" "distinct ks" "set ks \<subseteq> dom (store_abs s)"
    and "DiskSize s + sum_list (map tombstone_size ks) \<le> fs_limit (s_fs s)"
  shows "store_up (fold (\<lambda>k s. snd (store_Delete s k)) ks s)
    \<and> store_abs (fold (\<lambda>k s. snd (store_Delete s k)) ks s) = (store_abs s) |` (- set ks)"
  using assms
proof (induction ks arbitrary: s)
  case (Cons k ks)
  from Cons.prems(3,4) have "store_abs s k \<noteq> None" "DiskSize s + tombstone_size k \<le> fs_limit (s_fs s)" by auto
  from Delete_room[OF Cons.prems(1) this] obtain s' where d: "store_Delete s k = (None, s')"
    and size: "DiskSize s' = DiskSize s + tombstone_size k" "fs_limit (s_fs s') = fs_limit (s_fs s)" by auto
  from kv.delete_gone[OF Cons.prems(1) d] have up: "store_up s'" and ab: "store_abs s' = (store_abs s)(k := None)"
    by simp_all
  have "set ks \<subseteq> dom (store_abs s')" using Cons.prems(2,3) by (auto simp: ab)
  from Cons.IH[OF up _ this] Cons.prems(2,4) size d show ?case
    by (auto simp: ab restrict_map_def fun_eq_iff)
qed (simp add: restrict_map_def)

lemma Put_room:
  assumes "store_up s" "put_fits k v m"
    and "DiskSize s + length (encode_item (k, Some (v, meta_or m))) \<le> fs_limit (s_fs s)"
  shows "\<exists>s'. store_Put s k v m = (None, s')"
proof -
  from assms(1) obtain hist where h: "store_holds s hist" and o: "\<not> s_closed s"
    by (auto simp: store_up_def store_inv_def)
  obtain r s' where p: "store_Put s k v m = (r, s')" by fastforce
  from Put_holds[OF h assms(2)[unfolded put_fits_def] o] p assms(3) have "r = None"
    by (cases r) (auto simp del: encode_item.simps)
  with p show ?thesis by blast
qed

lemma ForEach_log:
  "s_log (snd (snd (ForEach_loop ks (\<lambda>k v (c, s). (None, f k v c, s)) (acc, s)))) = s_log s
   \<and> s_fs (snd (snd (ForEach_loop ks (\<lambda>k v (c, s). (None, f k v c, s)) (acc, s)))) = s_fs s"
proof (induction ks arbitrary: acc s)
  case (Cons k ks)
  obtain r s1 where g: "store_Get s k = (r, s1)" by fastforce
  with Get_log[of s k] have "s_log s1 = s_log s" "s_fs s1 = s_fs s" by simp_all
  with g Cons show ?case by (cases r) (simp_all add: errors_Is_new_def)
qed simp

lemma store_ForEach_log:
  "s_log (snd (snd (store_ForEach s (\<lambda>k v (c, s). (None, f k v c, s)) acc))) = s_log s
   \<and> s_fs (snd (snd (store_ForEach s (\<lambda>k v (c, s). (None, f k v c, s)) acc))) = s_fs s"
  using ForEach_log[of _ f acc "s\<lparr>s_index := snd (KeysSortedByOffset (s_index s))\<rparr>"]
  by (simp add: store_ForEach_def case_prod_beta Let_def)

lemma clean_contents:
  assumes "store_holds s hist" "log_clean s"
  shows "contents (s_fs s) (l_file (s_log s)) = log_image hist"
proof -
  have "take (l_writePos (s_log s)) (contents (s_fs s) (l_file (s_log s))) = log_image hist"
    using assms(1) unfolding store_holds_def log_holds_def by blast
  with assms(2) show ?thesis by (simp add: log_clean_def)
qed

section \<open>Properties\<close>

definition demo_fs :: filesys where
  "demo_fs = \<lparr>files = Map.empty, fs_limit = 100000, fs_open = (\<lambda>_. True), fs_sync = True,
    fs_remove = True, fs_rename = True\<rparr>"

definition demo_cfg :: config where
  "demo_cfg = \<lparr>DataPath = [100], CacheSize = 2\<rparr>"

definition demo_store :: store where
  "demo_store = (case store_New demo_cfg demo_fs of Inl _ \<Rightarrow> undefined | Inr s \<Rightarrow> s)"

lemma demo_store_up: "store_up demo_store \<and> log_clean demo_store \<and> l_file (s_log demo_store) = [100]
    \<and> store_holds demo_store [] \<and> fs_open (s_fs demo_store) [100] \<and> settled demo_store"
proof -
  from New_fresh[of demo_cfg demo_fs] obtain s where "store_New demo_cfg demo_fs = Inr s"
    "store_holds s []" "log_clean s" "\<not> s_closed s" "\<not> s_compacting s" "l_file (s_log s) = [100]"
    "fs_open (s_fs s) [100]" "settled s"
    by (auto simp: demo_cfg_def demo_fs_def contents_def logHeaderSize_def)
  then show ?thesis by (auto simp: demo_store_def store_up_def store_inv_def)
qed

text \<open>C1. The engine refines a map. From the creation of a store on, after any sequence of puts,
  deletions, reads and compactions whose keys, values and metadata fit the fields of a record, some of
  which may fail (a full disk, a missing key, a failed sync, a file that cannot be removed), what the
  index and the log say together is the map that the successful operations describe, and the
  invariant that ties log, index and cache holds: a failed operation changes nothing a reader can
  see. It is assumed that the file system never fails to rename a file, whose error \<open>Compact\<close> ignores;
  \<open>failed_rename_loses_store\<close> shows what happens otherwise.\<close>

theorem store_refines_map:
  assumes "DataPath cfg \<noteq> []" "fs_open fs (DataPath cfg)" "contents fs (DataPath cfg) = []"
    and "logHeaderSize \<le> fs_limit fs" "\<forall>x \<in> set ops. op_fits x" "fs_rename fs"
  shows "case store_New cfg fs of
      Inl _ \<Rightarrow> False
    | Inr s0 \<Rightarrow>
        let (s, a) = run_store ops (s0, Map.empty)
        in store_inv s \<and> \<not> s_closed s \<and> store_abs s = a \<and> (\<forall>k. store_Exists s k = (a k \<noteq> None))"
proof -
  from New_fresh[OF assms(1-4)] obtain s0 where n: "store_New cfg fs = Inr s0"
    and h: "store_holds s0 []" and up: "store_up s0" and put: "stays_put s0"
    using assms(6) by (auto simp: store_up_def store_inv_def stays_put_def)
  have "Map.empty = store_abs s0" using holds_abs[OF h] by simp
  from run_store_up[OF up put this assms(5)] obtain s a where
    r: "run_store ops (s0, Map.empty) = (s, a)" and s: "store_up s" "store_abs s = a"
    by (cases "run_store ops (s0, Map.empty)") auto
  from s(1) obtain hist where hist: "store_holds s hist" and o: "\<not> s_closed s"
    by (auto simp: store_up_def store_inv_def)
  have "store_Exists s k = (a k \<noteq> None)" for k
  proof -
    have log: "log_holds (s_fs s) (s_log s) hist" and get: "idx_Get (s_index s) = index_of hist"
      using hist by (simp_all add: store_holds_def)
    from holds_lookup[OF log, of k] o s(2) show ?thesis
      by (auto simp: store_Exists_def get holds_abs[OF hist] split: option.splits)
  qed
  with n r s show ?thesis by (simp add: store_up_def)
qed

theorem store_refines_map_witness:
  "case store_New demo_cfg demo_fs of
      Inl _ \<Rightarrow> False
    | Inr s0 \<Rightarrow>
        let (s, a) = run_store [SPut [1] [9] None, SDelete [2], SGet [1], SCompact] (s0, Map.empty)
        in store_inv s \<and> \<not> s_closed s \<and> store_abs s = a \<and> (\<forall>k. store_Exists s k = (a k \<noteq> None))"
  by (rule store_refines_map)
    (simp_all add: demo_cfg_def demo_fs_def contents_def logHeaderSize_def record_fits_def
      meta_or_def no_meta_def fits64_def)

text \<open>C4. A read answers with the current value of the key, whether it comes from the cache or from
  the log, or with not-found; it leaves the stored map as it was and keeps the cache coherent.\<close>

theorem Get_returns_current:
  assumes "store_up s"
  shows "fst (store_Get s key) =
      (case store_abs s key of None \<Rightarrow> Inl (KeyNotFound key) | Some x \<Rightarrow> Inr (fst x))
    \<and> store_up (snd (store_Get s key)) \<and> store_abs (snd (store_Get s key)) = store_abs s"
proof -
  from assms obtain hist where h: "store_holds s hist" and o: "\<not> s_closed s"
    by (auto simp: store_up_def store_inv_def)
  from Get_holds[OF this, of key] holds_abs[OF h] Get_compacting[of s key] assms show ?thesis
    by (auto simp: store_up_def store_inv_def holds_abs)
qed

theorem Get_returns_current_witness:
  "fst (store_Get demo_store [7]) =
      (case store_abs demo_store [7] of None \<Rightarrow> Inl (KeyNotFound [7]) | Some x \<Rightarrow> Inr (fst x))"
  using Get_returns_current[of demo_store "[7]"] demo_store_up by simp

text \<open>C2. Durability: a store whose log ends where its last write ended, closed and opened again
  (or lost in a crash after its last write), recovers from the file exactly the map it had.\<close>

theorem reopen_restores:
  assumes "store_up s" "log_clean s" "DataPath cfg = l_file (s_log s)" "DataPath cfg \<noteq> []"
    and "fs_open (s_fs s) (DataPath cfg)"
  shows "case store_New cfg (s_fs s) of
      Inl _ \<Rightarrow> False
    | Inr s' \<Rightarrow> store_up s' \<and> log_clean s' \<and> store_abs s' = store_abs s"
proof -
  from assms(1) obtain hist where h: "store_holds s hist" by (auto simp: store_up_def store_inv_def)
  have c: "contents (s_fs s) (DataPath cfg) = log_image hist @ take 0 (encode_item ([], None))"
    using clean_contents[OF h assms(2)] assms(3) by simp
  have fits: "\<forall>y \<in> set hist. item_fits y" "item_fits ([], None)"
    using h by (simp_all add: store_holds_def log_holds_def)
  have "0 < length (encode_item ([], None))" by (simp del: encode_item.simps)
  from New_torn[OF assms(4,5) c fits this] holds_abs[OF h] show ?thesis
    by (auto simp: store_up_def store_inv_def)
qed

theorem reopen_restores_witness:
  "case store_New demo_cfg (s_fs demo_store) of
      Inl _ \<Rightarrow> False
    | Inr s' \<Rightarrow> store_up s' \<and> log_clean s' \<and> store_abs s' = store_abs demo_store"
  by (rule reopen_restores) (simp_all add: demo_store_up demo_cfg_def)

text \<open>C3. On a log that ends with its last complete record (\<open>log_clean\<close>) a write is atomic with respect
  to crashes: whatever number of bytes of the record reached the file, the next start recovers
  either the map before the write or the map after it. A log that has a torn record from an earlier
  crash is excluded: writes to it are lost (\<open>torn_tail_loses_later_puts\<close>).\<close>

theorem torn_write_atomic:
  assumes "store_up s" "log_clean s" "DataPath cfg = l_file (s_log s)" "DataPath cfg \<noteq> []"
    and "fs_open fs (DataPath cfg)" "item_fits (k, x)" "n \<le> length (encode_item (k, x))"
    and "contents fs (DataPath cfg) = contents (s_fs s) (DataPath cfg) @ take n (encode_item (k, x))"
  shows "case store_New cfg fs of
      Inl _ \<Rightarrow> False
    | Inr s' \<Rightarrow> store_abs s' =
        (if n < length (encode_item (k, x)) then store_abs s else (store_abs s)(k := x))"
proof -
  from assms(1) obtain hist where h: "store_holds s hist" by (auto simp: store_up_def store_inv_def)
  have fits: "\<forall>y \<in> set hist. item_fits y" using h by (simp add: store_holds_def log_holds_def)
  have c: "contents fs (DataPath cfg) = log_image hist @ take n (encode_item (k, x))"
    using clean_contents[OF h assms(2)] assms(3,8) by simp
  show ?thesis
  proof (cases "n < length (encode_item (k, x))")
    case True
    from New_torn[OF assms(4,5) c fits assms(6) True] holds_abs[OF h] True show ?thesis by auto
  next
    case False
    then have "contents fs (DataPath cfg) = log_image (hist @ [(k, x)]) @ take 0 (encode_item (k, x))"
      using c assms(7) by (simp add: log_image_def)
    moreover have "\<forall>y \<in> set (hist @ [(k, x)]). item_fits y" using fits assms(6) by simp
    ultimately show ?thesis
      using New_torn[OF assms(4,5), of "hist @ [(k, x)]" 0 "(k, x)"] assms(6) holds_abs[OF h] False
      by (auto simp: abs_of_snoc)
  qed
qed

theorem torn_write_atomic_witness:
  "case store_New demo_cfg ((s_fs demo_store)\<lparr>files := (files (s_fs demo_store))
        ([100] \<mapsto> contents (s_fs demo_store) [100] @ take 5 (encode_item ([1], None)))\<rparr>) of
      Inl _ \<Rightarrow> False
    | Inr s' \<Rightarrow> store_abs s' = store_abs demo_store"
proof -
  have len: "5 < length (encode_item ([1], None))"
    by (simp add: encode_record_def put_str16_def)
  show ?thesis
    by (rule torn_write_atomic[of demo_store demo_cfg _ "[1]" None 5, unfolded if_P[OF len]])
      (use demo_store_up len in \<open>simp_all add: demo_cfg_def contents_def del: encode_item.simps\<close>)
qed

text \<open>C5. A put succeeds exactly when its record fits under the file-size limit; otherwise the
  caller gets the error of the append and nothing a reader can see has changed, whatever part of
  the record reached the file.\<close>

theorem Put_exact:
  assumes "store_up s" "item_fits (k, Some (v, meta_or m))"
  shows "case store_Put s k v m of
      (None, s') \<Rightarrow> DiskSize s + length (encode_item (k, Some (v, meta_or m))) \<le> fs_limit (s_fs s)
        \<and> store_up s' \<and> store_abs s' = (store_abs s)(k \<mapsto> (v, meta_or m))
        \<and> fst (store_Get s' k) = Inr v
    | (Some e, s') \<Rightarrow> fs_limit (s_fs s) < DiskSize s + length (encode_item (k, Some (v, meta_or m)))
        \<and> e = FailedTo ''append to log'' WriteFailed
        \<and> store_up s' \<and> store_abs s' = store_abs s \<and> DiskSize s' = DiskSize s"
proof -
  let ?x = "(k, Some (v, meta_or m))"
  from assms(1) obtain hist where h: "store_holds s hist" and o: "\<not> s_closed s"
    by (auto simp: store_up_def store_inv_def)
  have up: "case store_Put s k v m of (None, s') \<Rightarrow> store_up s' \<and> store_abs s' = (store_abs s)(k \<mapsto> (v, meta_or m))
      | (Some e, s') \<Rightarrow> store_up s' \<and> store_abs s' = store_abs s"
    using store_step_up[OF assms(1), of "SPut k v m"] assms(2)
    by (simp del: encode_item.simps split: prod.splits option.splits)
  have put: "case store_Put s k v m of (None, s') \<Rightarrow> DiskSize s + length (encode_item ?x) \<le> fs_limit (s_fs s)
      | (Some e, s') \<Rightarrow> fs_limit (s_fs s) < DiskSize s + length (encode_item ?x)
        \<and> e = FailedTo ''append to log'' WriteFailed \<and> DiskSize s' = DiskSize s"
    using o unfolding meta_or_def
    by (simp add: store_Put_def log_Append_def write_at_def DiskSize_def log_Size_def Let_def)
  obtain e s' where p: "store_Put s k v m = (e, s')" by fastforce
  show ?thesis
  proof (cases e)
    case None
    with up p have u: "store_up s'" "store_abs s' = (store_abs s)(k \<mapsto> (v, meta_or m))" by simp_all
    from u(1) obtain hist' where "store_holds s' hist'" "\<not> s_closed s'"
      by (auto simp: store_up_def store_inv_def)
    note g = Get_holds[OF this, of k] and ab = holds_abs[OF this(1)]
    have "abs_of hist' k = Some (v, meta_or m)" unfolding ab[symmetric] u(2) by simp
    with g have "fst (store_Get s' k) = Inr v" by simp
    with u put p None show ?thesis by simp
  next
    case (Some err)
    with up put p show ?thesis by simp
  qed
qed

theorem Put_exact_witness:
  "case store_Put demo_store [1] [9] None of
      (None, s') \<Rightarrow> fst (store_Get s' [1]) = Inr [9] | (Some e, s') \<Rightarrow> e = FailedTo ''append to log'' WriteFailed"
  using Put_exact[of demo_store "[1]" "[9]" None] demo_store_up
  by (auto simp: record_fits_def meta_or_def no_meta_def fits64_def split: prod.splits option.splits)

text \<open>C6. Compaction is invisible to readers and leaves one record per live key, in the order of
  the old offsets: afterwards the open log is exactly the header and the encodings of the current map,
  so its size is theirs. It is the file at the path of the store if the rename succeeds; if it does
  not, \<open>Compact\<close> reports success all the same, the log stays under the temporary name, and at the path
  of the store there is nothing, or the old log if that could not be removed either. When it reports an
  error, the store goes on with the old log.\<close>

theorem Compact_exact:
  assumes "store_up s" "settled s"
  shows "case Compact s of
      (None, s') \<Rightarrow> store_up s' \<and> store_abs s' = store_abs s \<and> log_clean s'
        \<and> contents (s_fs s') (l_file (s_log s'))
            = log_image (map (\<lambda>k. (k, store_abs s k)) (fst (KeysSortedByOffset (s_index s))))
        \<and> set (fst (KeysSortedByOffset (s_index s))) = dom (store_abs s)
        \<and> distinct (fst (KeysSortedByOffset (s_index s)))
        \<and> l_path (s_log s') = l_path (s_log s)
        \<and> (if fs_rename (s_fs s) then settled s'
           else l_file (s_log s') = compact_path (l_path (s_log s))
             \<and> contents (s_fs s') (l_path (s_log s)) =
                 (if fs_remove (s_fs s) then [] else contents (s_fs s) (l_path (s_log s))))
    | (Some e, s') \<Rightarrow> store_up s' \<and> store_abs s' = store_abs s \<and> s_log s' = s_log s"
proof -
  let ?ks = "fst (KeysSortedByOffset (s_index s))"
  from assms obtain hist where h: "store_holds s hist" and o: "\<not> s_closed s" "\<not> s_compacting s"
    by (auto simp: store_up_def store_inv_def)
  note keys = live_keys[OF h] and ab = holds_abs[OF h] and c = Compact_holds[OF h o assms(2)]
  have "filter (\<lambda>k. abs_of hist k \<noteq> None) ?ks = ?ks"
    unfolding filter_id_conv using keys(1) by (simp add: dom_def)
  then have live: "live_items ?ks (abs_of hist) = map (\<lambda>k. (k, store_abs s k)) ?ks"
    by (simp add: live_items_def ab)
  have up: "case Compact s of (None, s') \<Rightarrow> store_up s' \<and> store_abs s' = store_abs s
      | (Some e, s') \<Rightarrow> store_up s' \<and> store_abs s' = store_abs s"
    using store_step_up[OF assms(1), of SCompact] assms(2) by (auto split: prod.splits option.splits)
  obtain e s' where p: "Compact s = (e, s')" by fastforce
  show ?thesis
  proof (cases e)
    case None
    with c p have n: "store_holds s' (live_items ?ks (abs_of hist))" "log_clean s'" by simp_all
    from clean_contents[OF this] n(2) up p None keys live ab c show ?thesis by (simp add: settled_def)
  next
    case (Some err)
    with up p c show ?thesis by simp
  qed
qed

theorem Compact_exact_witness:
  "case Compact demo_store of
      (None, s') \<Rightarrow> store_up s' \<and> store_abs s' = store_abs demo_store \<and> log_clean s'
    | (Some e, s') \<Rightarrow> store_up s' \<and> store_abs s' = store_abs demo_store"
  using Compact_exact[of demo_store] demo_store_up by (auto split: prod.splits option.splits)

text \<open>\<open>Compact\<close> ignores the error of the rename: it reports success while the live log has the temporary
  name. The next compaction truncates that file, from which it then fails to read: what it reports is
  an error, and the store has lost its data.\<close>

definition stuck_fs :: filesys where
  "stuck_fs = demo_fs\<lparr>fs_rename := False\<rparr>"

lemma failed_rename_loses_store:
  "case store_New demo_cfg stuck_fs of
     Inl _ \<Rightarrow> False
   | Inr s0 \<Rightarrow>
       (let (e1, s1) = store_Put s0 [1] [9] None; (e2, s2) = Compact s1; (e3, s3) = Compact s2
        in e1 = None \<and> e2 = None \<and> fst (store_Get s2 [1]) = Inr [9]
          \<and> e3 = Some (FailedTo ''read during compaction'' EOF)
          \<and> (\<exists>e. fst (store_Get s3 [1]) = Inl e)
          \<and> files (s_fs s3) [100] = None)"
proof -
  have "case store_New demo_cfg stuck_fs of
     Inl _ \<Rightarrow> False
   | Inr s0 \<Rightarrow>
       (let (e1, s1) = store_Put s0 [1] [9] None; (e2, s2) = Compact s1; (e3, s3) = Compact s2
        in e1 = None \<and> e2 = None \<and> fst (store_Get s2 [1]) = Inr [9]
          \<and> e3 = Some (FailedTo ''read during compaction'' EOF)
          \<and> (case fst (store_Get s3 [1]) of Inl e \<Rightarrow> True | Inr v \<Rightarrow> False)
          \<and> files (s_fs s3) [100] = None)"
    by code_simp
  then show ?thesis by (auto simp: Let_def split: prod.splits sum.splits)
qed

text \<open>Iterating with a callback that only computes, and one that only collects.\<close>

lemma ForEach_folds:
  assumes "store_up s" "set ks \<subseteq> dom (store_abs s)"
  shows "case ForEach_loop ks (\<lambda>k v (c, s). (None, f k v c, s)) (acc, s) of
    (e, c, s') \<Rightarrow> e = None \<and> c = fold (\<lambda>k. f k (fst (the (store_abs s k)))) ks acc
      \<and> store_up s' \<and> store_abs s' = store_abs s"
  using assms
proof (induction ks arbitrary: acc s)
  case (Cons k ks)
  from Cons.prems(1) obtain hist where h: "store_holds s hist" and o: "\<not> s_closed s"
    by (auto simp: store_up_def store_inv_def)
  from Cons.prems(2) obtain x where x: "store_abs s k = Some x" by auto
  have g: "fst (store_Get s k) = Inr (fst x)" "store_abs (snd (store_Get s k)) = store_abs s"
    using Get_holds[OF h o, of k] holds_abs[OF h] x by (auto simp: holds_abs)
  have up: "store_up (snd (store_Get s k))"
    using Get_holds[OF h o, of k] Get_compacting[of s k] Cons.prems(1)
    by (auto simp: store_up_def store_inv_def)
  obtain s1 where s1: "store_Get s k = (Inr (fst x), s1)" using g(1) by (cases "store_Get s k") simp
  with up g(2) have u: "store_up s1" "store_abs s1 = store_abs s" by simp_all
  from Cons.IH[of s1 "f k (fst x) acc"] u Cons.prems(2) s1 x show ?case
    by (auto split: prod.splits)
qed simp

lemma store_ForEach_listing:
  assumes "store_up s"
  shows "case store_ForEach s (\<lambda>k v (c, s). (None, f k v c, s)) acc of
    (e, c, s') \<Rightarrow> e = None
      \<and> c = fold (\<lambda>k. f k (fst (the (store_abs s k)))) (fst (KeysSortedByOffset (s_index s))) acc
      \<and> store_up s' \<and> store_abs s' = store_abs s"
    and "set (fst (KeysSortedByOffset (s_index s))) = dom (store_abs s)"
    and "distinct (fst (KeysSortedByOffset (s_index s)))"
proof -
  from assms obtain hist where h: "store_holds s hist" and o: "\<not> s_closed s"
    by (auto simp: store_up_def store_inv_def)
  note keys = live_keys[OF h] and ab = holds_abs[OF h]
  have idx: "idx_inv (s_index s)" using h by (simp add: store_holds_def)
  obtain ks i where ks: "KeysSortedByOffset (s_index s) = (ks, i)" by fastforce
  have i: "idx_inv i" "idx_Get i = idx_Get (s_index s)"
    using KeysSortedByOffset_spec[OF idx] ks by (simp_all add: idx_Get_map_of)
  let ?s = "s\<lparr>s_index := i\<rparr>"
  have abs: "store_abs ?s = store_abs s" by (auto simp: fun_eq_iff store_abs_def i(2) split: option.split sum.split)
  have up: "store_up ?s" using assms h i by (auto simp: store_up_def store_inv_def store_holds_def)
  have "set ks \<subseteq> dom (store_abs ?s)" using keys(1) ks ab abs by simp
  from ForEach_folds[OF up this, of f acc] ks o abs
  show "case store_ForEach s (\<lambda>k v (c, s). (None, f k v c, s)) acc of
    (e, c, s') \<Rightarrow> e = None
      \<and> c = fold (\<lambda>k. f k (fst (the (store_abs s k)))) (fst (KeysSortedByOffset (s_index s))) acc
      \<and> store_up s' \<and> store_abs s' = store_abs s"
    by (simp add: store_ForEach_def)
  show "set (fst (KeysSortedByOffset (s_index s))) = dom (store_abs s)"
    and "distinct (fst (KeysSortedByOffset (s_index s)))"
    using keys ab by simp_all
qed

lemma fold_collect: "fold (\<lambda>k c. c @ [g k]) ks acc = acc @ map g ks"
  by (induction ks arbitrary: acc) simp_all

text \<open>\<open>ForEach\<close> with a callback that does not touch the store visits every live entry exactly
  once, with its current value, in the order of the offsets on disk.\<close>

lemma ForEach_visits:
  assumes "store_up s"
  shows "case store_ForEach s (\<lambda>k v (c, s). (None, c @ [(k, v)], s)) [] of
    (e, c, s') \<Rightarrow> e = None
      \<and> c = map (\<lambda>k. (k, fst (the (store_abs s k)))) (fst (KeysSortedByOffset (s_index s)))
      \<and> distinct (map fst c) \<and> fst ` set c = dom (store_abs s)
      \<and> store_up s' \<and> store_abs s' = store_abs s"
  using store_ForEach_listing(1)[OF assms, of "\<lambda>k v c. c @ [(k, v)]" "[]"] store_ForEach_listing(2,3)[OF assms]
  by (auto simp: fold_collect o_def image_image split: prod.splits)

lemma ForEach_visits_witness:
  "fst (store_ForEach demo_store (\<lambda>k v (c, s). (None, c @ [(k, v)], s)) []) = None"
  using ForEach_visits[of demo_store] demo_store_up by (auto split: prod.splits)

text \<open>\<open>ForEach\<close> means to skip a key that was deleted after the listing was taken, but its test
  compares with a fresh error and never holds: a key that has gone in the meantime aborts the
  iteration with not-found, and the remaining entries are not visited.\<close>

lemma ForEach_aborts_on_deleted_key:
  assumes "store_up s" "store_abs s k = None"
  shows "\<exists>s'. ForEach_loop (k # ks) fn (c, s) = (Some (KeyNotFound k), c, s') \<and> store_abs s' = store_abs s"
proof -
  from assms(1) obtain hist where h: "store_holds s hist" and o: "\<not> s_closed s"
    by (auto simp: store_up_def store_inv_def)
  note g = Get_holds[OF h o, of k] and ab = holds_abs[OF h]
  obtain r s' where r: "store_Get s k = (r, s')" by fastforce
  with g ab assms(2) have "r = Inl (KeyNotFound k)" "store_abs s' = store_abs s"
    by (auto simp: holds_abs)
  with r show ?thesis by (simp add: errors_Is_new_def)
qed

lemma ForEach_aborts_on_deleted_key_witness:
  "\<exists>s'. ForEach_loop [[5], [6]] (\<lambda>k v (c, s). (None, Suc c, s)) (0, demo_store) = (Some (KeyNotFound [5]), 0, s')"
proof -
  have "store_abs demo_store [5] = None" using demo_store_up holds_abs[of demo_store "[]"] by simp
  from ForEach_aborts_on_deleted_key[OF _ this, of "[[6]]" "\<lambda>k v (c, s). (None, Suc c, s)" 0] demo_store_up
  show ?thesis by blast
qed

text \<open>The two critical sections of \<open>Get\<close> interleaved with writers. The list holds the fills that
  are due: goroutines that have read a value from the log and wait for the write lock.\<close>

inductive get_race :: "store \<times> (gostring \<times> byte list) list \<Rightarrow> store \<times> (gostring \<times> byte list) list \<Rightarrow> bool" where
  lookup_miss: "get_lookup s k = (Inr (v, True), s1) \<Longrightarrow> get_race (s, p) (s1, (k, v) # p)"
| lookup_done: "get_lookup s k = (Inr (v, False), s1) \<or> get_lookup s k = (Inl e, s1) \<Longrightarrow> get_race (s, p) (s1, p)"
| fill: "(k, v) \<in> set p \<Longrightarrow> get_race (s, p) (get_fill k v s, remove1 (k, v) p)"
| put: "store_Put s k v m = (e, s1) \<Longrightarrow> get_race (s, p) (s1, p)"
| delete: "store_Delete s k = (e, s1) \<Longrightarrow> get_race (s, p) (s1, p)"

definition race_start :: store where
  "race_start = snd (store_Put demo_store [1] [9] None)"

definition race_read :: store where
  "race_read = snd (get_lookup race_start [1])"

definition race_written :: store where
  "race_written = snd (store_Put race_read [1] [8] None)"

definition race_deleted :: store where
  "race_deleted = snd (store_Delete race_read [1])"

text \<open>C14. \<open>Get\<close> releases the store's lock between reading the log and filling the cache. A put of
  the same key in between clears the cache before the old value is put in it: with no operation
  left in flight every later read returns the old value, although index and log hold the new one.
  With a deletion in between, reads return the value of a key that is gone.\<close>

theorem Get_race_leaves_stale_value:
  "get_race\<^sup>*\<^sup>* (race_start, []) (get_fill [1] [9] race_written, [])
   \<and> store_abs (get_fill [1] [9] race_written) [1] = Some ([8], no_meta)
   \<and> fst (store_Get (get_fill [1] [9] race_written) [1]) = Inr [9]
   \<and> get_race\<^sup>*\<^sup>* (race_start, []) (get_fill [1] [9] race_deleted, [])
   \<and> \<not> store_Exists (get_fill [1] [9] race_deleted) [1]
   \<and> fst (store_Get (get_fill [1] [9] race_deleted) [1]) = Inr [9]"
proof -
  have "fst (get_lookup race_start [1]) = Inr ([9], True)" by code_simp
  then have "get_lookup race_start [1] = (Inr ([9], True), race_read)"
    by (simp add: race_read_def prod_eq_iff)
  from lookup_miss[OF this, of "[]"] have 1: "get_race (race_start, []) (race_read, [([1], [9])])" .
  have "store_Put race_read [1] [8] None = (fst (store_Put race_read [1] [8] None), race_written)"
    by (simp add: race_written_def)
  from put[OF this] have 2: "get_race (race_read, [([1], [9])]) (race_written, [([1], [9])])" .
  have "store_Delete race_read [1] = (fst (store_Delete race_read [1]), race_deleted)"
    by (simp add: race_deleted_def)
  from delete[OF this] have 3: "get_race (race_read, [([1], [9])]) (race_deleted, [([1], [9])])" .
  have 4: "get_race (s, [([1], [9])]) (get_fill [1] [9] s, [])" for s
    using fill[of "[1]" "[9]" "[([1], [9])]" s] by simp
  from 1 2 4 have "get_race\<^sup>*\<^sup>* (race_start, []) (get_fill [1] [9] race_written, [])"
    by (meson rtranclp.rtrancl_into_rtrancl rtranclp.rtrancl_refl)
  moreover from 1 3 4 have "get_race\<^sup>*\<^sup>* (race_start, []) (get_fill [1] [9] race_deleted, [])"
    by (meson rtranclp.rtrancl_into_rtrancl rtranclp.rtrancl_refl)
  moreover have "store_abs (get_fill [1] [9] race_written) [1] = Some ([8], no_meta)" by code_simp
  moreover have "fst (store_Get (get_fill [1] [9] race_written) [1]) = Inr [9]" by code_simp
  moreover have "\<not> store_Exists (get_fill [1] [9] race_deleted) [1]" by code_simp
  moreover have "fst (store_Get (get_fill [1] [9] race_deleted) [1]) = Inr [9]" by code_simp
  ultimately show ?thesis by blast
qed

text \<open>A put into a store whose file has a tail the recovery skipped.\<close>

lemma Put_after_tail:
  assumes "\<not> s_closed s" "l_file (s_log s) = p" "l_writePos (s_log s) = length (contents (s_fs s) p)"
    and "idx_inv (s_index s)" "\<forall>m. lru.coherent (s_cache s) m" "item_fits (k, Some (v, meta_or m))"
    and "length (contents (s_fs s) p) + length (encode_item (k, Some (v, meta_or m))) \<le> fs_limit (s_fs s)"
  shows "\<exists>s'. store_Put s k v m = (None, s') \<and> fst (store_Get s' k) = Inr v
    \<and> contents (s_fs s') p = contents (s_fs s) p @ encode_item (k, Some (v, meta_or m))
    \<and> fs_open (s_fs s') = fs_open (s_fs s)"
proof -
  let ?f = "contents (s_fs s) p" and ?enc = "encode_item (k, Some (v, meta_or m))"
  let ?i = "idx_Put (s_index s) k (put_entry (length ?f + (4 + length k + 4)) (i32 (int (length v))) (meta_or m))"
  obtain s' where P: "store_Put s k v m = (None, s')" and s': "\<not> s_closed s'" "s_index s' = ?i"
    "s_cache s' = lru_Remove (s_cache s) k" "l_file (s_log s') = p" "contents (s_fs s') p = put_bytes ?f (length ?f) ?enc"
    "fs_open (s_fs s') = fs_open (s_fs s)"
    using assms by (auto simp: store_Put_def log_Append_def write_at_def meta_or_def Let_def)
  have f': "contents (s_fs s') p = ?f @ ?enc" using s'(5) by (simp add: put_bytes_def)
  have g: "idx_Get ?i k = Some (put_entry (length ?f + (4 + length k + 4)) (i32 (int (length v))) (meta_or m))"
    by (simp add: idx_Put_get)
  have "lru.coherent (s_cache s') Map.empty"
    using lru.coherent_invalidate[of "s_cache s" Map.empty k None] assms(5) s'(3) by simp
  then have miss: "fst (lru_Get (s_cache s') k) = None"
    using lru.coherent_hit[of "s_cache s'" Map.empty k] by (cases "fst (lru_Get (s_cache s') k)") auto
  obtain r where enc: "?enc = le_bytes 4 (length k) @ k @ le_bytes 4 (length v) @ v @ r"
    by (simp add: encode_record_def)
  have "at (?f @ ?enc) (length ?f) (le_bytes 4 (length k) @ k @ le_bytes 4 (length v) @ v @ r)"
    using at_append[of ?f ?enc] enc by simp
  from at_read(2)[OF this length_le_bytes] have "at (?f @ ?enc) (length ?f + 4) (k @ le_bytes 4 (length v) @ v @ r)" .
  from at_read(2)[OF this refl] have "at (?f @ ?enc) (length ?f + 4 + length k) (le_bytes 4 (length v) @ v @ r)" .
  from at_read(2)[OF this length_le_bytes] have "at (?f @ ?enc) (length ?f + 4 + length k + 4) (v @ r)" .
  from at_read(1)[OF this refl] have "read_at (?f @ ?enc) (length ?f + (4 + length k + 4)) (length v) = Inr v"
    by (simp add: add.assoc)
  moreover have "i32 (int (length v)) = int (length v)" using assms(6) by (simp add: record_fits_def i32_fits)
  ultimately have "fst (store_Get s' k) = Inr v"
    using s'(1,2,4) miss g f'
    by (cases "lru_Get (s_cache s') k") (simp add: store_Get_def get_lookup_def log_ReadAt_def put_entry_def)
  with P f' s'(6) show ?thesis by blast
qed

text \<open>C16. Recovery skips a torn record but does not cut it off (\<open>Truncate\<close> is never called), and new
  records go after it. Let a write be torn inside its value: the next start recovers the map before the
  write, a put that is no longer than what the value lacks succeeds and is read back, and the
  start after that, which takes the bytes of the put for the rest of the torn value and finds the end of
  the file, recovers the map before the write again: the put is lost.\<close>

theorem torn_tail_loses_later_puts:
  assumes "store_up s" "log_clean s" "DataPath cfg = l_file (s_log s)" "DataPath cfg \<noteq> []"
    and "fs_open fs (DataPath cfg)" "item_fits (k, Some (v, m))" "item_fits (k', Some (v', meta_or m'))"
    and "8 + length k \<le> n" "n + length (encode_item (k', Some (v', meta_or m'))) \<le> 8 + length k + length v"
    and "contents fs (DataPath cfg) = contents (s_fs s) (DataPath cfg) @ take n (encode_item (k, Some (v, m)))"
    and "length (contents fs (DataPath cfg)) + length (encode_item (k', Some (v', meta_or m'))) \<le> fs_limit fs"
  shows "case store_New cfg fs of
      Inl _ \<Rightarrow> False
    | Inr s1 \<Rightarrow> store_abs s1 = store_abs s
        \<and> (case store_Put s1 k' v' m' of
             (e, s2) \<Rightarrow> e = None \<and> fst (store_Get s2 k') = Inr v'
               \<and> (case store_New cfg (s_fs s2) of
                    Inl _ \<Rightarrow> False
                  | Inr s3 \<Rightarrow> store_abs s3 = store_abs s))"
proof -
  let ?p = "DataPath cfg" and ?A = "encode_item (k, Some (v, m))" and ?B = "encode_item (k', Some (v', meta_or m'))"
  from assms(1) obtain hist where h: "store_holds s hist" by (auto simp: store_up_def store_inv_def)
  have fits: "\<forall>y \<in> set hist. item_fits y" using h by (simp add: store_holds_def log_holds_def)
  have c: "contents fs ?p = log_image hist @ take n ?A"
    using clean_contents[OF h assms(2)] assms(3,10) by simp
  obtain r where A: "?A = le_bytes 4 (length k) @ k @ le_bytes 4 (length v) @ v @ r"
    by (simp add: encode_record_def)
  define pre where "pre = le_bytes 4 (length k) @ k @ le_bytes 4 (length v)"
  have A': "?A = pre @ v @ r" and len_pre: "length pre = 8 + length k" unfolding A pre_def by simp_all
  have n: "n \<le> length pre + length v" "n < length ?A"
  proof -
    have "0 < length ?B" by (simp del: encode_item.simps)
    moreover have "length ?A = length pre + length v + length r" unfolding A' by simp
    ultimately show "n \<le> length pre + length v" "n < length ?A" using assms(9) len_pre by linarith+
  qed
  have tk: "take n ?A = pre @ take (n - length pre) v"
    unfolding A' using n(1) len_pre assms(8) by (simp add: take_append)
  have eof1: "readRecordAt (contents fs ?p) 3 (length (log_image hist)) = Inl EOF"
    by (rule torn_eof[OF c assms(6) n(2)])
  from New_tail[OF assms(4,5) c fits] eof1 obtain s1 where
    N1: "store_New cfg fs = Inr s1" "store_abs s1 = abs_of hist"
      "l_writePos (s_log s1) = length (contents (s_fs s1) ?p)" "l_file (s_log s1) = ?p" "\<not> s_closed s1"
      "contents (s_fs s1) ?p = contents fs ?p" "fs_limit (s_fs s1) = fs_limit fs" "fs_open (s_fs s1) = fs_open fs"
      "idx_inv (s_index s1)" "\<forall>m. lru.coherent (s_cache s1) m"
    by auto
  have "length (contents (s_fs s1) ?p) + length ?B \<le> fs_limit (s_fs s1)" using assms(11) N1(6,7) by simp
  from Put_after_tail[OF N1(5,4,3,9,10) assms(7) this] obtain s2 where
    P: "store_Put s1 k' v' m' = (None, s2)" "fst (store_Get s2 k') = Inr v'"
      "contents (s_fs s2) ?p = contents (s_fs s1) ?p @ ?B" "fs_open (s_fs s2) = fs_open (s_fs s1)"
    by blast
  have c2: "contents (s_fs s2) ?p = log_image hist @ (pre @ take (n - length pre) v @ ?B)"
    using P(3) N1(6) c tk by simp
  have "at (contents (s_fs s2) ?p) (length (log_image hist))
      (le_bytes 4 (length k) @ k @ le_bytes 4 (length v) @ (take (n - length pre) v @ ?B))"
    unfolding c2 pre_def using at_append[of "log_image hist"] by simp
  moreover have "length (contents (s_fs s2) ?p) \<le> length (log_image hist) + (8 + length k + length v)"
    unfolding c2 using assms(8,9) n(1) len_pre by simp
  moreover have "length k \<le> 1024 * 1024" "length v < 2 ^ 31" using assms(6) by (simp_all add: record_fits_def)
  ultimately have eof2: "readRecordAt (contents (s_fs s2) ?p) 3 (length (log_image hist)) = Inl EOF"
    by (intro read_cut_value)
  have "fs_open (s_fs s2) ?p" using assms(5) P(4) N1(8) by simp
  from New_tail[OF assms(4) this c2 fits] eof2 obtain s3 where
    "store_New cfg (s_fs s2) = Inr s3" "store_abs s3 = abs_of hist" by auto
  with N1 P holds_abs[OF h] show ?thesis by simp
qed

definition torn_fs :: filesys where
  "torn_fs = (s_fs demo_store)\<lparr>files := (files (s_fs demo_store))
     ([100] \<mapsto> contents (s_fs demo_store) [100] @ take 12 (encode_item ([98], Some (replicate 99 2, no_meta))))\<rparr>"

theorem torn_tail_loses_later_puts_witness:
  "case store_New demo_cfg torn_fs of
     Inl _ \<Rightarrow> False
   | Inr s1 \<Rightarrow> store_abs s1 = store_abs demo_store
       \<and> (case store_Put s1 [99] [7] None of
          (e, s2) \<Rightarrow> e = None \<and> fst (store_Get s2 [99]) = Inr [7]
            \<and> (case store_New demo_cfg (s_fs s2) of
                 Inl _ \<Rightarrow> False
               | Inr s3 \<Rightarrow> store_abs s3 = store_abs demo_store))"
proof -
  let ?A = "encode_item ([98], Some (replicate 99 2, no_meta))" and ?B = "encode_item ([99], Some ([7], meta_or None))"
  have B: "length ?B = 37" by (simp add: encode_record_def put_str16_def meta_or_def no_meta_def)
  have open_: "fs_open (s_fs demo_store) [100]" and at_p: "l_file (s_log demo_store) = [100]"
    using demo_store_up by simp_all
  have lim: "fs_limit (s_fs demo_store) = 100000" "length (contents (s_fs demo_store) [100]) = 16" by code_simp+
  show ?thesis
    by (rule torn_tail_loses_later_puts[where k = "[98]" and v = "replicate 99 2" and m = no_meta and n = 12])
      (use demo_store_up B open_ at_p lim in
        \<open>simp_all add: torn_fs_def demo_cfg_def contents_def record_fits_def meta_or_def no_meta_def fits64_def
          del: encode_item.simps\<close>)
qed

definition v2_fs :: filesys where
  "v2_fs = demo_fs\<lparr>files := [[100] \<mapsto> logMagic @ le_bytes 4 2 @ replicate 8 0]\<rparr>"

text \<open>A log of an older version is migrated by compaction only when it has live entries. In an
  empty one, puts append records of version 3 under a header of version 2: they are read back as
  long as the store is open, and the next start, which parses version 2, loses the second.\<close>

lemma empty_old_log_loses_puts:
  "case store_New demo_cfg v2_fs of
     Inl _ \<Rightarrow> False
   | Inr s \<Rightarrow>
       (case store_Put (snd (store_Put s [99] [7] None)) [98] [8] None of
          (e, s1) \<Rightarrow> e = None \<and> fst (store_Get s1 [98]) = Inr [8]
            \<and> (case store_New demo_cfg (s_fs s1) of
                 Inl _ \<Rightarrow> False
               | Inr s2 \<Rightarrow> fst (store_Get s2 [98]) = Inl (KeyNotFound [98])))"
  by code_simp

lemma read_oversized_key:
  assumes "at f pos (encode_record key val del cat prov st name ts proto bad added @ s)"
    and "1024 * 1024 < length key" "length key < 2 ^ 32"
  shows "readRecordAt f ver pos = Inl (InvalidKeyLength (length key))"
proof -
  note a = at_read(1)[OF assms(1)[unfolded encode_record_def append_assoc] length_le_bytes]
  have "le_nat (le_bytes 4 (length key)) = length key" using assms(3) by (simp add: le_nat_le_bytes)
  with assms(2) show ?thesis by (simp add: readRecordAt_def a)
qed

lemma New_recover_fails:
  assumes "DataPath cfg \<noteq> []" "openAppendLog fs (DataPath cfg) = (Inr l, fs')"
    and "log_Iterate fs' l recover_record (newIndex, newLRUCache (cache_size cfg)) = (Some e, st)"
  shows "store_New cfg fs = Inl (FailedTo ''recover from log'' e, fs')"
  using assms by (cases st) (simp add: store_New_def recover_def cache_size_def Let_def)

text \<open>A put accepts a key longer than the megabyte that the record reader allows: it succeeds,
  and from then on the store cannot be opened any more.\<close>

lemma oversized_key_blocks_reopening:
  assumes "store_up s" "log_clean s" "1024 * 1024 < length k" "length k < 2 ^ 32"
    and "DiskSize s + length (encode_item (k, Some (v, meta_or m))) \<le> fs_limit (s_fs s)"
    and "DataPath cfg = l_file (s_log s)" "DataPath cfg \<noteq> []" "fs_open (s_fs s) (DataPath cfg)"
  shows "case store_Put s k v m of
      (e, s1) \<Rightarrow> e = None \<and> store_Exists s1 k
        \<and> (case store_New cfg (s_fs s1) of
             Inl (err, _) \<Rightarrow> err = FailedTo ''recover from log'' (InvalidKeyLength (length k))
           | Inr _ \<Rightarrow> False)"
proof -
  from assms(1) obtain hist where h: "store_holds s hist" and o: "\<not> s_closed s"
    by (auto simp: store_up_def store_inv_def)
  have fits: "\<forall>y \<in> set hist. item_fits y" using h by (simp add: store_holds_def log_holds_def)
  let ?enc = "encode_item (k, Some (v, meta_or m))" and ?p = "l_file (s_log s)"
  have wp: "l_writePos (s_log s) = length (log_image hist)"
    using h unfolding store_holds_def log_holds_def by blast
  have lim: "l_writePos (s_log s) + length ?enc \<le> fs_limit (s_fs s)"
    using assms(5) by (simp add: DiskSize_def log_Size_def)
  obtain e s1 where put: "store_Put s k v m = (e, s1)" by fastforce
  from put o lim have e: "e = None" and ex: "store_Exists s1 k"
    and fs1: "s_fs s1 = (s_fs s)\<lparr>files := (files (s_fs s))(?p \<mapsto>
        put_bytes (contents (s_fs s) ?p) (l_writePos (s_log s)) ?enc)\<rparr>"
    unfolding meta_or_def
    by (auto simp: store_Put_def log_Append_def write_at_def store_Exists_def idx_Put_get Let_def
        split: if_splits)
  have c: "contents (s_fs s1) ?p = log_image hist @ ?enc"
    unfolding fs1 contents_update clean_contents[OF h assms(2)] wp put_bytes_def by simp
  let ?f = "log_image hist @ ?enc" and ?c = "newLRUCache (cache_size cfg)"
  have "at ?f (length (log_image hist)) (?enc @ [])" using at_append[of "log_image hist"] by simp
  from read_oversized_key[OF this[unfolded encode_item.simps] assms(3,4)]
  have bad: "readRecordAt ?f 3 (length (log_image hist)) = Inl (InvalidKeyLength (length k))" by simp
  have a: "at ?f logHeaderSize (encode_items hist @ ?enc)"
    using at_append[of header_bytes "encode_items hist @ ?enc"] by (simp add: log_image_def)
  have q: "logHeaderSize + length (encode_items hist) = length (log_image hist)"
    by (simp add: log_image_def)
  have lt: "length (log_image hist) < length ?f" by (simp del: encode_item.simps)
  have stop: "Iterate_loop ?f 3 (length ?f) recover_record (length (log_image hist)) st =
      (Some (InvalidKeyLength (length k)), st)" for st
    unfolding Iterate_loop.simps [of ?f 3 _ _ "length (log_image hist)"] bad if_P[OF lt] by simp
  have "logHeaderSize + length (encode_items hist) \<le> length ?f" using q by simp
  from Iterate_encoded[OF a fits this, of recover_record "(newIndex, ?c)", unfolded q stop run_recover]
  have scan: "Iterate_loop ?f 3 (length ?f) recover_record logHeaderSize (newIndex, ?c) =
      (Some (InvalidKeyLength (length k)),
       snd (run_records recover_record (located logHeaderSize hist) (newIndex, ?c)))"
    unfolding run_recover by simp
  have "validateHeader ?f = Inr 3"
    unfolding log_image_def append_assoc by (rule validateHeader_image)
  moreover have "length ?f \<noteq> 0" by (simp add: log_image_def logHeaderSize_def)
  ultimately have "openAppendLog (s_fs s1) ?p =
      (Inr \<lparr>l_path = ?p, l_file = ?p, l_writePos = length ?f, l_version = 3\<rparr>,
       (s_fs s1)\<lparr>files := (files (s_fs s1))(?p \<mapsto> ?f)\<rparr>)"
    using assms(6,8) unfolding openAppendLog_def c by (simp add: fs1 Let_def)
  then have op: "openAppendLog (s_fs s1) (DataPath cfg) =
      (Inr \<lparr>l_path = ?p, l_file = ?p, l_writePos = length ?f, l_version = 3\<rparr>,
       (s_fs s1)\<lparr>files := (files (s_fs s1))(?p \<mapsto> ?f)\<rparr>)"
    using assms(6) by simp
  have "store_New cfg (s_fs s1) =
      Inl (FailedTo ''recover from log'' (InvalidKeyLength (length k)),
        (s_fs s1)\<lparr>files := (files (s_fs s1))(?p \<mapsto> ?f)\<rparr>)"
    by (rule New_recover_fails[OF assms(7) op])
      (simp only: log_Iterate_def appendLog.select_convs contents_update scan)
  with put e ex show ?thesis by auto
qed

lemma oversized_key_blocks_reopening_witness:
  "\<exists>s k. store_New demo_cfg (demo_fs\<lparr>fs_limit := 2 ^ 30\<rparr>) = Inr s \<and> fst (store_Put s k [7] None) = None
     \<and> (\<exists>fs. store_New demo_cfg (s_fs (snd (store_Put s k [7] None)))
          = Inl (FailedTo ''recover from log'' (InvalidKeyLength (length k)), fs))"
proof -
  define k :: gostring where "k = replicate (1024 * 1024 + 1) 0"
  have k: "length k = 1048577" by (simp add: k_def)
  from New_fresh[of demo_cfg "demo_fs\<lparr>fs_limit := 2 ^ 30\<rparr>"] obtain s where
    n: "store_New demo_cfg (demo_fs\<lparr>fs_limit := 2 ^ 30\<rparr>) = Inr s" and h: "store_holds s []"
    and c: "log_clean s" "\<not> s_closed s" "\<not> s_compacting s" "l_file (s_log s) = [100]"
      "fs_open (s_fs s) [100]" "fs_limit (s_fs s) = 2 ^ 30"
    by (auto simp: demo_cfg_def demo_fs_def contents_def logHeaderSize_def)
  have up: "store_up s" using h c by (auto simp: store_up_def store_inv_def)
  have "l_writePos (s_log s) = length (log_image [])"
    using h unfolding store_holds_def log_holds_def by blast
  then have "DiskSize s + length (encode_item (k, Some ([7], meta_or None))) \<le> fs_limit (s_fs s)"
    using k c(6) by (simp add: DiskSize_def log_Size_def log_image_def logHeaderSize_def
        encode_record_def put_str16_def meta_or_def no_meta_def)
  from oversized_key_blocks_reopening[OF up c(1) _ _ this, of demo_cfg] c k
  have "fst (store_Put s k [7] None) = None
     \<and> (\<exists>fs. store_New demo_cfg (s_fs (snd (store_Put s k [7] None)))
          = Inl (FailedTo ''recover from log'' (InvalidKeyLength (length k)), fs))"
    by (auto simp: demo_cfg_def split: prod.splits sum.splits)
  with n show ?thesis by blast
qed

end
