(* ===== verification/Go_Std.thy ===== *)
theory Go_Std
  imports Prelude "HOL-Library.Finite_Map" "HOL-Library.List_Lexorder"
begin

text \<open>
  What the entry model uses of Go's maps, times, floating-point numbers, strings and paths. A Go map with
  string keys is a finite map or nil; the order in which \<open>range\<close> yields its keys is a parameter,
  and the facts below hold for every order. A \<open>time.Time\<close> is the number of nanoseconds since
  Go's zero time, without location and monotonic reading; a \<open>float64\<close> is its bit pattern.
\<close>

unbundle bit_operations_syntax

section \<open>Strings\<close>

definition gs :: "string \<Rightarrow> gostring" where
  "gs s = map of_char s"

text \<open>\<open>strings.ToLower\<close> on the ASCII range; other bytes are left alone.\<close>

definition lower_byte :: "byte \<Rightarrow> byte" where
  "lower_byte b = (if 65 \<le> b \<and> b \<le> 90 then b + 32 else b)"

definition ToLower :: "gostring \<Rightarrow> gostring" where
  "ToLower s = map lower_byte s"

lemma lower_byte_idem: "lower_byte (lower_byte b) = lower_byte b"
proof (cases "65 \<le> b \<and> b \<le> 90")
  case True
  then have "uint b \<le> 90" "65 \<le> uint b" by (simp_all add: word_le_def)
  then have "uint (b + 32) = uint b + 32" by (simp add: uint_word_arith_bintrs take_bit_int_eq_self)
  with True show ?thesis by (auto simp: lower_byte_def word_le_def)
qed (auto simp: lower_byte_def)

lemma ToLower_idem [simp]: "ToLower (ToLower s) = ToLower s"
  by (simp add: ToLower_def lower_byte_idem)

definition HasPrefix :: "gostring \<Rightarrow> gostring \<Rightarrow> bool" where
  "HasPrefix s p \<longleftrightarrow> take (length p) s = p"

text \<open>\<open>strings.Join\<close>\<close>

fun str_join :: "gostring \<Rightarrow> gostring list \<Rightarrow> gostring" where
  "str_join sep [] = []"
| "str_join sep [s] = s"
| "str_join sep (s # t # ss) = s @ sep @ str_join sep (t # ss)"

section \<open>Paths\<close>

text \<open>The elements of a path, cut at the slashes.\<close>

fun split_slash :: "gostring \<Rightarrow> gostring list" where
  "split_slash [] = [[]]"
| "split_slash (b # bs) =
     (if b = 47 then [] # split_slash bs
      else case split_slash bs of [] \<Rightarrow> [[b]] | e # es \<Rightarrow> (b # e) # es)"

text \<open>\<open>path.Clean\<close>: empty and \<open>.\<close> elements go, \<open>..\<close> removes the element before it; \<open>out\<close>
  is the result so far, last element first.\<close>

fun clean_elems :: "bool \<Rightarrow> gostring list \<Rightarrow> gostring list \<Rightarrow> gostring list" where
  "clean_elems rooted [] out = rev out"
| "clean_elems rooted (e # es) out =
     (if e = [] \<or> e = [46] then clean_elems rooted es out
      else if e = [46, 46] then
        (case out of
           [] \<Rightarrow> clean_elems rooted es (if rooted then [] else [e])
         | l # ls \<Rightarrow> if l = [46, 46] then clean_elems rooted es (e # out) else clean_elems rooted es ls)
      else clean_elems rooted es (e # out))"

definition path_Clean :: "gostring \<Rightarrow> gostring" where
  "path_Clean p =
     (let rooted = (p \<noteq> [] \<and> hd p = 47);
          body = str_join [47] (clean_elems rooted (split_slash p) [])
      in if rooted then 47 # body else if body = [] then [46] else body)"

definition path_Join :: "gostring \<Rightarrow> gostring \<Rightarrow> gostring" where
  "path_Join a b =
     (if a = [] \<and> b = [] then []
      else if a = [] then path_Clean b
      else path_Clean (a @ 47 # b))"

definition path_Ext :: "gostring \<Rightarrow> gostring" where
  "path_Ext p =
     (let stop = (\<lambda>b. b \<noteq> 46 \<and> b \<noteq> 47); r = rev p
      in case dropWhile stop r of
           [] \<Rightarrow> []
         | b # _ \<Rightarrow> (if b = 46 then 46 # rev (takeWhile stop r) else []))"

lemma path_Ext_suffix: "\<exists>q. p = q @ path_Ext p"
proof -
  define stop where "stop = (\<lambda>b :: byte. b \<noteq> 46 \<and> b \<noteq> 47)"
  have p: "p = rev (dropWhile stop (rev p)) @ rev (takeWhile stop (rev p))"
    by (metis rev_append rev_rev_ident takeWhile_dropWhile_id)
  note ext = path_Ext_def[of p, folded stop_def, unfolded Let_def]
  show ?thesis
  proof (cases "dropWhile stop (rev p)")
    case Nil
    show ?thesis unfolding ext Nil by simp
  next
    case (Cons b bs)
    with p have "p = rev bs @ b # rev (takeWhile stop (rev p))" by simp
    then show ?thesis unfolding ext Cons by (cases "b = 46") auto
  qed
qed

section \<open>Times\<close>

type_synonym gotime = int

definition time_IsZero :: "gotime \<Rightarrow> bool" where
  "time_IsZero t \<longleftrightarrow> t = 0"

text \<open>\<open>t.Unix()\<close> and \<open>time.Unix(s, 0)\<close>; year 1 is 62135596800 seconds before the epoch.\<close>

definition t_Unix :: "gotime \<Rightarrow> int" where
  "t_Unix t = t div 1000000000 - 62135596800"

definition time_Unix :: "int \<Rightarrow> gotime" where
  "time_Unix s = (s + 62135596800) * 1000000000"

lemma Unix_Unix [simp]: "t_Unix (time_Unix s) = s"
  by (simp add: t_Unix_def time_Unix_def)

lemma time_Unix_floor: "time_Unix (t_Unix t) = t - t mod 1000000000"
  by (simp add: t_Unix_def time_Unix_def minus_mod_eq_div_mult [symmetric])

section \<open>Floating-point numbers\<close>

type_synonym float64 = "64 word"

definition f64_exponent :: "float64 \<Rightarrow> 64 word" where
  "f64_exponent x = drop_bit 52 x AND 0x7FF"

definition IsNaN :: "float64 \<Rightarrow> bool" where
  "IsNaN x \<longleftrightarrow> f64_exponent x = 0x7FF \<and> x AND 0xFFFFFFFFFFFFF \<noteq> 0"

definition IsInf :: "float64 \<Rightarrow> bool" where
  "IsInf x \<longleftrightarrow> f64_exponent x = 0x7FF \<and> x AND 0xFFFFFFFFFFFFF = 0"

definition f64_finite :: "float64 \<Rightarrow> bool" where
  "f64_finite x \<longleftrightarrow> \<not> IsNaN x \<and> \<not> IsInf x"

text \<open>\<open>x == 0\<close> holds of both zeros; 1.0 has exponent 1023 and an empty fraction.\<close>

definition f64_is_zero :: "float64 \<Rightarrow> bool" where
  "f64_is_zero x \<longleftrightarrow> x = 0 \<or> x = 0x8000000000000000"

definition f64_one :: float64 where
  "f64_one = 0x3FF0000000000000"

section \<open>Maps\<close>

type_synonym 'v gomap = "(gostring, 'v) fmap option"

definition mlookup :: "'v gomap \<Rightarrow> gostring \<Rightarrow> 'v option" where
  "mlookup m k = (case m of None \<Rightarrow> None | Some f \<Rightarrow> fmlookup f k)"

definition mget :: "'v gomap \<Rightarrow> (gostring, 'v) fmap" where
  "mget m = (case m of None \<Rightarrow> fmempty | Some f \<Rightarrow> f)"

lemma mlookup_mget: "mlookup m k = fmlookup (mget m) k"
  by (simp add: mlookup_def mget_def split: option.split)

lemma mget_simps [simp]: "mget None = fmempty" "mget (Some f) = f"
  by (simp_all add: mget_def)

lemma mlookup_simps [simp]: "mlookup None k = None" "mlookup (Some f) k = fmlookup f k"
  by (simp_all add: mlookup_def)

definition mlen :: "'v gomap \<Rightarrow> nat" where
  "mlen m = fcard (fmdom (mget m))"

lemma mlen_0: "mlen m = 0 \<longleftrightarrow> (\<forall>k. mlookup m k = None)"
  unfolding mlen_def mlookup_mget
  by (metis fcard_0_eq fmap_ext fmdom_empty fmdom_notD fmlookup_dom_iff fmempty_lookup
      fmdom_notI fempty_iff all_not_fin_conv)

text \<open>The order of a \<open>range\<close> loop: each key once. It may differ from loop to loop.\<close>

type_synonym map_order = "gostring set \<Rightarrow> gostring list"

definition order_ok :: "map_order \<Rightarrow> bool" where
  "order_ok ord \<longleftrightarrow> (\<forall>S. finite S \<longrightarrow> set (ord S) = S \<and> distinct (ord S))"

definition mrange :: "map_order \<Rightarrow> 'v gomap \<Rightarrow> (gostring \<times> 'v) list" where
  "mrange ord m = map (\<lambda>k. (k, the (mlookup m k))) (ord (fmdom' (mget m)))"

lemma sorted_order_ok: "order_ok sorted_list_of_set"
  by (simp add: order_ok_def)

lemma finite_fmdom' [simp]: "finite (fmdom' m)"
  by (simp add: fmdom'_alt_def)

lemma mrange_keys: "order_ok ord \<Longrightarrow> set (map fst (mrange ord m)) = fmdom' (mget m)"
  by (simp add: order_ok_def mrange_def image_image)

lemma mrange_distinct: "order_ok ord \<Longrightarrow> distinct (map fst (mrange ord m))"
  by (simp add: order_ok_def mrange_def comp_def)

lemma mrange_mem: "order_ok ord \<Longrightarrow> (k, v) \<in> set (mrange ord m) \<longleftrightarrow> mlookup m k = Some v"
  by (auto simp: order_ok_def mrange_def mlookup_mget image_iff fmlookup_dom'_iff)

lemma mrange_map_of: "order_ok ord \<Longrightarrow> map_of (mrange ord m) k = mlookup m k"
  by (cases "mlookup m k")
    (auto simp: map_of_eq_None_iff mrange_keys mlookup_mget fmlookup_dom'_iff mrange_mem mrange_distinct)

end
