(* ===== verification/Entry_Model.thy ===== *)
theory Entry_Model
  imports Go_Std
begin

text \<open>
  The entries of \<open>pkg/storage/types.go\<close>: a torrent or NZB with its placements at the providers and
  its files, the folder items that group files by name, and the merge of \<open>misc.go\<close>. Each method is
  a function of the receiver that returns the updated receiver where it writes to it; \<open>time.Now()\<close>
  is an argument, and so is the order of each \<open>range\<close> loop whose outcome depends on it. Of
  \<open>debrid/types.Torrent\<close> the pointers to the magnet and the Arr, which no method here reads, and
  the mutex are left out; so is \<open>ToManagedTorrent\<close>, the conversion of legacy caches.
\<close>

section \<open>Data\<close>

record sfile =
  fi_Name :: gostring
  fi_Path :: gostring
  fi_AddedOn :: gotime
  fi_Size :: int
  fi_ByteRange :: "(int \<times> int) option"
  fi_Deleted :: bool
  fi_InfoHash :: gostring

record provider_file =
  pf_Id :: gostring
  pf_Link :: gostring
  pf_Path :: gostring

record provider_entry =
  pe_Provider :: gostring
  pe_ID :: gostring
  pe_AddedAt :: gotime
  pe_RemovedAt :: "gotime option"
  pe_Status :: gostring
  pe_Progress :: float64
  pe_Files :: "provider_file gomap"
  pe_DownloadedAt :: "gotime option"

record entry =
  en_Protocol :: gostring
  en_InfoHash :: gostring
  en_Name :: gostring
  en_OriginalFilename :: gostring
  en_Size :: int
  en_Bytes :: int
  en_Magnet :: gostring
  en_IsDownloading :: bool
  en_SizeDownloaded :: int
  en_ActiveProvider :: gostring
  en_Providers :: "provider_entry gomap"
  en_Files :: "sfile gomap"
  en_State :: gostring
  en_Status :: gostring
  en_Progress :: float64
  en_Speed :: int
  en_Seeders :: int
  en_IsComplete :: bool
  en_Bad :: bool
  en_Category :: gostring
  en_Tags :: "gostring list"
  en_MountPath :: gostring
  en_SavePath :: gostring
  en_ContentPath :: gostring
  en_AddedOn :: gotime
  en_CreatedAt :: gotime
  en_UpdatedAt :: gotime
  en_CompletedAt :: "gotime option"
  en_ImportedAt :: "gotime option"
  en_Action :: gostring
  en_DownloadUncached :: bool
  en_CallbackURL :: gostring
  en_SkipMultiSeason :: bool
  en_LastError :: gostring
  en_ErrorCount :: int
  en_LastErrorTime :: "gotime option"

record entry_item =
  it_Name :: gostring
  it_Files :: "sfile gomap"
  it_Size :: int

text \<open>The named string constants of \<open>config\<close>, \<open>storage\<close> and \<open>debrid/types\<close>.\<close>

definition ProtocolTorrent :: gostring where "ProtocolTorrent = gs ''torrent''"
definition ProtocolNZB :: gostring where "ProtocolNZB = gs ''nzb''"
definition TorrentStatusDownloaded :: gostring where "TorrentStatusDownloaded = gs ''downloaded''"
definition TorrentStatusDownloading :: gostring where "TorrentStatusDownloading = gs ''downloading''"
definition EntryStatePausedUP :: gostring where "EntryStatePausedUP = gs ''pausedUP''"
definition EntryStateError :: gostring where "EntryStateError = gs ''error''"
definition usenet :: gostring where "usenet = gs ''usenet''"

datatype entry_error =
    ErrPlacementNotFound
  | ErrPlacementNotCompleted
  | NoActiveProvider
  | NoFilesInProvider
  | EntryIsBad
  | ProviderNotCompleted
  | FileMissing gostring
  | FileHasNoLink gostring
  | FilesNil
  | FileNotFound
  | FileDeleted

section \<open>Placements\<close>

definition IsTorrent :: "entry \<Rightarrow> bool" where
  "IsTorrent e \<longleftrightarrow> en_Protocol e = ProtocolTorrent"

definition IsNZB :: "entry \<Rightarrow> bool" where
  "IsNZB e \<longleftrightarrow> en_Protocol e = ProtocolNZB"

definition CanBeFixed :: "entry \<Rightarrow> bool" where
  "CanBeFixed e = IsTorrent e"

definition CanBeMoved :: "entry \<Rightarrow> bool" where
  "CanBeMoved e = IsTorrent e"

definition GetActiveProvider :: "entry \<Rightarrow> provider_entry option" where
  "GetActiveProvider e =
     (if en_Providers e = None \<or> en_ActiveProvider e = [] then None
      else mlookup (en_Providers e) (en_ActiveProvider e))"

definition Validate :: "entry \<Rightarrow> entry_error option" where
  "Validate e =
     (case GetActiveProvider e of
        None \<Rightarrow> Some NoActiveProvider
      | Some p \<Rightarrow> if mlen (pe_Files p) = 0 then Some NoFilesInProvider else None)"

definition finite_or_zero :: "float64 \<Rightarrow> float64" where
  "finite_or_zero x = (if IsNaN x \<or> IsInf x then 0 else x)"

definition Sanitize :: "entry \<Rightarrow> entry" where
  "Sanitize e =
     e\<lparr>en_Progress := finite_or_zero (en_Progress e),
       en_Providers := map_option (fmmap (\<lambda>p. p\<lparr>pe_Progress := finite_or_zero (pe_Progress p)\<rparr>))
         (en_Providers e)\<rparr>"

text \<open>A file of \<open>debrid/types.Torrent\<close>, and the torrent.\<close>

record debrid_file =
  df_TorrentId :: gostring
  df_Id :: gostring
  df_Name :: gostring
  df_Size :: int
  df_IsRar :: bool
  df_ByteRange :: "(int \<times> int) option"
  df_Path :: gostring
  df_Link :: gostring
  df_AccountId :: gostring
  df_Generated :: gotime
  df_Deleted :: bool

record torrent =
  to_Id :: gostring
  to_InfoHash :: gostring
  to_Name :: gostring
  to_Filename :: gostring
  to_OriginalFilename :: gostring
  to_Size :: int
  to_Bytes :: int
  to_Files :: "debrid_file gomap"
  to_Status :: gostring
  to_Added :: gotime
  to_Progress :: float64
  to_Speed :: int
  to_Seeders :: int
  to_Links :: "gostring list"
  to_DeletedFiles :: "gostring list"
  to_Debrid :: gostring
  to_SizeDownloaded :: int
  to_DownloadUncached :: bool

definition torrent_GetSize :: "torrent \<Rightarrow> int" where
  "torrent_GetSize t = (if to_Size t = 0 then to_Bytes t else to_Size t)"

definition torrent_GetFile :: "torrent \<Rightarrow> gostring \<Rightarrow> debrid_file option \<times> bool" where
  "torrent_GetFile t name =
     (case mlookup (to_Files t) name of
        None \<Rightarrow> (None, False)
      | Some f \<Rightarrow> (Some f, \<not> df_Deleted f))"

definition torrent_GetFiles :: "map_order \<Rightarrow> torrent \<Rightarrow> debrid_file list" where
  "torrent_GetFiles ord t = filter (\<lambda>f. \<not> df_Deleted f) (map snd (mrange ord (to_Files t)))"

text \<open>\<open>Copy\<close> sets the fields it names; the others keep their zero values.\<close>

definition torrent_Copy :: "torrent \<Rightarrow> torrent" where
  "torrent_Copy t =
     \<lparr>to_Id = to_Id t, to_InfoHash = to_InfoHash t, to_Name = to_Name t, to_Filename = to_Filename t,
      to_OriginalFilename = to_OriginalFilename t, to_Size = to_Size t, to_Bytes = to_Bytes t,
      to_Files = Some (mget (to_Files t)), to_Status = to_Status t, to_Added = to_Added t,
      to_Progress = to_Progress t, to_Speed = to_Speed t, to_Seeders = to_Seeders t,
      to_Links = to_Links t, to_DeletedFiles = [], to_Debrid = to_Debrid t,
      to_SizeDownloaded = 0, to_DownloadUncached = False\<rparr>"

definition NeedsUpdate :: "provider_entry \<Rightarrow> torrent \<Rightarrow> bool" where
  "NeedsUpdate p remote =
     (if pe_ID p \<noteq> to_Id remote then True
      else if pe_Status p \<noteq> to_Status remote then True
      else mlen (pe_Files p) = 0)"

definition pe_IsValid :: "provider_entry \<Rightarrow> bool" where
  "pe_IsValid p =
     (if pe_ID p = [] \<or> pe_Provider p = [] then False
      else fmpred (\<lambda>_ pf. \<not> (pf_Id pf = [] \<or> pf_Link pf = [])) (mget (pe_Files p)))"

definition provider_file_of :: "debrid_file \<Rightarrow> provider_file" where
  "provider_file_of f = \<lparr>pf_Id = df_Id f, pf_Link = df_Link f, pf_Path = df_Path f\<rparr>"

definition AddTorrentProvider ::
  "map_order \<Rightarrow> gotime \<Rightarrow> entry \<Rightarrow> torrent \<Rightarrow> provider_entry \<times> entry" where
  "AddTorrentProvider ord now e t =
     (let files = fold (\<lambda>f. fmupd (df_Name f) (provider_file_of f)) (torrent_GetFiles ord t) fmempty;
          p = \<lparr>pe_Provider = to_Debrid t, pe_ID = to_Id t, pe_AddedAt = now, pe_RemovedAt = None,
               pe_Status = to_Status t, pe_Progress = 0, pe_Files = Some files, pe_DownloadedAt = None\<rparr>
      in (p, e\<lparr>en_Providers := Some (fmupd (to_Debrid t) p (mget (en_Providers e)))\<rparr>))"

text \<open>
  \<open>AddUsenetProvider\<close> on the names of the NZB's files. The placement is one object shared by all the
  keys, so what the map holds at the end is its final state under every key.
\<close>

definition usenet_provider :: "gotime \<Rightarrow> entry \<Rightarrow> gostring \<Rightarrow> gostring list \<Rightarrow> provider_entry" where
  "usenet_provider now e nzbID names =
     \<lparr>pe_Provider = usenet, pe_ID = nzbID, pe_AddedAt = now, pe_RemovedAt = None,
      pe_Status = TorrentStatusDownloaded, pe_Progress = 0,
      pe_Files = Some (fold (\<lambda>n. fmupd n \<lparr>pf_Id = n, pf_Link = path_Join (en_MountPath e) n,
          pf_Path = path_Join (en_MountPath e) n\<rparr>) names fmempty),
      pe_DownloadedAt = None\<rparr>"

definition AddUsenetProvider ::
  "gotime \<Rightarrow> entry \<Rightarrow> gostring \<Rightarrow> gostring list \<Rightarrow> provider_entry \<times> entry" where
  "AddUsenetProvider now e nzbID names =
     (let p = usenet_provider now e nzbID names
      in (p, e\<lparr>en_Providers := Some (fmupd usenet p (fold (\<lambda>n. fmupd n p) names (mget (en_Providers e))))\<rparr>))"

definition ActivatePlacement ::
  "map_order \<Rightarrow> gotime \<Rightarrow> entry \<Rightarrow> gostring \<Rightarrow> entry_error option \<times> entry" where
  "ActivatePlacement ord now e name =
     (if en_Providers e = None then (Some ErrPlacementNotFound, e)
      else case find (\<lambda>(k, p). pe_Provider p = name) (mrange ord (en_Providers e)) of
             None \<Rightarrow> (Some ErrPlacementNotFound, e)
           | Some (k, p) \<Rightarrow>
               if pe_Status p \<noteq> TorrentStatusDownloaded then (Some ErrPlacementNotCompleted, e)
               else (None, e\<lparr>en_ActiveProvider := name, en_UpdatedAt := now\<rparr>))"

definition SwitchToNextProvider :: "map_order \<Rightarrow> map_order \<Rightarrow> gotime \<Rightarrow> entry \<Rightarrow> entry" where
  "SwitchToNextProvider ord ord' now e =
     (if en_Providers e = None then e
      else case find (\<lambda>(k, p). pe_Status p = TorrentStatusDownloaded) (mrange ord (en_Providers e)) of
             None \<Rightarrow> e
           | Some (k, p) \<Rightarrow> snd (ActivatePlacement ord' now e (pe_Provider p)))"

text \<open>The placements handed to \<open>cleanup\<close> are returned; its errors are ignored.\<close>

definition RemoveProvider ::
  "map_order \<Rightarrow> map_order \<Rightarrow> map_order \<Rightarrow> gotime \<Rightarrow> entry \<Rightarrow> gostring \<Rightarrow> provider_entry list \<times> entry" where
  "RemoveProvider ord1 ord2 ord3 now e name =
     (if en_Providers e = None then ([], e)
      else
        let found = filter (\<lambda>(k, p). pe_Provider p = name) (mrange ord1 (en_Providers e));
            e1 = e\<lparr>en_Providers := map_option (\<lambda>m. fold fmdrop (map fst found) m) (en_Providers e)\<rparr>;
            e2 = (if en_ActiveProvider e1 = name then SwitchToNextProvider ord2 ord3 now e1 else e1)
        in (map snd found, e2))"

definition HasProvider :: "entry \<Rightarrow> gostring \<Rightarrow> bool" where
  "HasProvider e p =
     (if en_Providers e = None then False else mlookup (en_Providers e) p \<noteq> None)"

section \<open>State\<close>

definition MarkAsCompleted :: "gotime \<Rightarrow> entry \<Rightarrow> gostring \<Rightarrow> entry" where
  "MarkAsCompleted now e contentPath =
     e\<lparr>en_State := EntryStatePausedUP, en_IsDownloading := False, en_IsComplete := True,
       en_Progress := f64_one, en_ContentPath := contentPath, en_CompletedAt := Some now,
       en_UpdatedAt := now\<rparr>"

definition MarkAsError :: "gotime \<Rightarrow> entry \<Rightarrow> gostring \<Rightarrow> entry" where
  "MarkAsError now e msg =
     e\<lparr>en_State := EntryStateError, en_IsDownloading := False, en_LastError := msg,
       en_ErrorCount := i64 (en_ErrorCount e + 1), en_LastErrorTime := Some now, en_UpdatedAt := now\<rparr>"

section \<open>Files\<close>

definition get_file :: "sfile gomap \<Rightarrow> gostring \<Rightarrow> entry_error + sfile" where
  "get_file m name =
     (if m = None then Inl FilesNil
      else case mlookup m name of
             None \<Rightarrow> Inl FileNotFound
           | Some f \<Rightarrow> if fi_Deleted f then Inl FileDeleted else Inr f)"

definition entry_GetFile :: "entry \<Rightarrow> gostring \<Rightarrow> entry_error + sfile" where
  "entry_GetFile e name = get_file (en_Files e) name"

definition item_GetFile :: "entry_item \<Rightarrow> gostring \<Rightarrow> entry_error + sfile" where
  "item_GetFile i name = get_file (it_Files i) name"

definition active_files :: "map_order \<Rightarrow> sfile gomap \<Rightarrow> sfile list" where
  "active_files ord m = filter (\<lambda>f. \<not> fi_Deleted f) (map snd (mrange ord m))"

definition entry_GetActiveFiles :: "map_order \<Rightarrow> entry \<Rightarrow> sfile list" where
  "entry_GetActiveFiles ord e = active_files ord (en_Files e)"

definition item_GetActiveFiles :: "map_order \<Rightarrow> entry_item \<Rightarrow> sfile list" where
  "item_GetActiveFiles ord i = active_files ord (it_Files i)"

definition item_GetSize :: "map_order \<Rightarrow> entry_item \<Rightarrow> int" where
  "item_GetSize ord i =
     fold (\<lambda>(k, f) size. if \<not> fi_Deleted f then i64 (size + fi_Size f) else size)
       (mrange ord (it_Files i)) 0"

definition GetFirstFile :: "map_order \<Rightarrow> entry_item \<Rightarrow> entry_error + sfile" where
  "GetFirstFile ord i =
     (case mrange ord (it_Files i) of [] \<Rightarrow> Inl FileNotFound | (k, f) # _ \<Rightarrow> Inr f)"

fun check_files :: "(gostring \<times> sfile) list \<Rightarrow> provider_entry \<Rightarrow> entry_error option" where
  "check_files [] p = None"
| "check_files ((k, f) # fs) p =
     (if fi_Deleted f then check_files fs p
      else case mlookup (pe_Files p) (fi_Name f) of
             None \<Rightarrow> Some (FileMissing (fi_Name f))
           | Some pf \<Rightarrow> if pf_Link pf = [] then Some (FileHasNoLink (fi_Name f)) else check_files fs p)"

definition RunChecks :: "map_order \<Rightarrow> entry \<Rightarrow> bool \<times> entry_error option" where
  "RunChecks ord e =
     (if en_Bad e then (False, Some EntryIsBad)
      else case GetActiveProvider e of
             None \<Rightarrow> (True, Some NoActiveProvider)
           | Some p \<Rightarrow>
               if pe_Status p \<noteq> TorrentStatusDownloaded then (True, Some ProviderNotCompleted)
               else if mlen (pe_Files p) = 0 then (True, Some NoFilesInProvider)
               else case check_files (mrange ord (en_Files e)) p of
                      Some err \<Rightarrow> (True, Some err)
                    | None \<Rightarrow> (False, None))"

definition entry_IsValid :: "entry \<Rightarrow> bool" where
  "entry_IsValid e =
     (if en_InfoHash e = [] \<or> en_Name e = [] then False
      else if mlen (en_Providers e) = 0 then False
      else case GetActiveProvider e of
             None \<Rightarrow> False
           | Some p \<Rightarrow> if pe_ID p = [] \<or> pe_Provider p = [] then False else pe_IsValid p)"

section \<open>Folders\<close>

definition mediaExtensions :: "gostring list" where
  "mediaExtensions = map gs
   [''webm'', ''m4v'', ''3gp'', ''nsv'', ''ty'', ''strm'', ''rm'', ''rmvb'', ''m3u'', ''ifo'',
    ''mov'', ''qt'', ''divx'', ''xvid'', ''bivx'', ''nrg'', ''pva'', ''wmv'', ''asf'', ''asx'',
    ''ogm'', ''ogv'', ''m2v'', ''avi'', ''bin'', ''dat'', ''dvr-ms'', ''mpg'', ''mpeg'', ''mp4'',
    ''avc'', ''vp3'', ''svq3'', ''nuv'', ''viv'', ''dv'', ''fli'', ''flv'', ''wpl'', ''vob'',
    ''mkv'', ''mk3d'', ''ts'', ''wtv'', ''m2ts'', ''mp2'', ''mp3'', ''m4a'', ''m4b'', ''m4p'',
    ''ogg'', ''oga'', ''opus'', ''wma'', ''wav'', ''wv'', ''flac'', ''ape'', ''aif'', ''aiff'',
    ''aifc'']"

definition RemoveExtension :: "gostring \<Rightarrow> gostring" where
  "RemoveExtension s =
     (let ext = path_Ext s
      in if ext = [] then s
         else if ToLower (tl ext) \<in> set mediaExtensions then
           (let name = take (length s - length ext) s
            in if name \<noteq> [] \<and> name \<noteq> [46] then name else s)
         else s)"

definition IsMediaFile :: "gostring \<Rightarrow> bool" where
  "IsMediaFile p =
     (let ext = path_Ext p in if ext = [] then False else ToLower (tl ext) \<in> set mediaExtensions)"

datatype folder_naming =
    WebDavUseFileName
  | WebDavUseOriginalName
  | WebDavUseFileNameNoExt
  | WebDavUseOriginalNameNoExt
  | WebdavUseHash
  | OtherNaming gostring

definition GetTorrentFolder :: "folder_naming \<Rightarrow> entry \<Rightarrow> gostring" where
  "GetTorrentFolder naming e =
     (case naming of
        WebDavUseFileName \<Rightarrow> path_Clean (en_Name e)
      | WebDavUseOriginalName \<Rightarrow> path_Clean (en_OriginalFilename e)
      | WebDavUseFileNameNoExt \<Rightarrow> path_Clean (RemoveExtension (en_Name e))
      | WebDavUseOriginalNameNoExt \<Rightarrow> path_Clean (RemoveExtension (en_OriginalFilename e))
      | WebdavUseHash \<Rightarrow> en_InfoHash e
      | OtherNaming _ \<Rightarrow> path_Clean (en_Name e))"

definition DownloadPath :: "entry \<Rightarrow> gostring" where
  "DownloadPath e = path_Join (en_SavePath e) (RemoveExtension (en_Name e))"

section \<open>Merging\<close>

definition merge_newer :: "('v \<Rightarrow> gotime) \<Rightarrow> (gostring, 'v) fmap \<Rightarrow> (gostring, 'v) fmap \<Rightarrow> (gostring, 'v) fmap" where
  "merge_newer added existing incoming =
     existing ++\<^sub>f fmfilter (\<lambda>k. case fmlookup existing k of
        None \<Rightarrow> True
      | Some old \<Rightarrow> (case fmlookup incoming k of None \<Rightarrow> False | Some v \<Rightarrow> added old < added v)) incoming"

definition merge_maps :: "('v \<Rightarrow> gotime) \<Rightarrow> 'v gomap \<Rightarrow> 'v gomap \<Rightarrow> 'v gomap" where
  "merge_maps added existing incoming =
     (case existing of None \<Rightarrow> incoming
      | Some a \<Rightarrow> (case incoming of None \<Rightarrow> existing | Some b \<Rightarrow> Some (merge_newer added a b)))"

definition mergeProviders :: "provider_entry gomap \<Rightarrow> provider_entry gomap \<Rightarrow> provider_entry gomap" where
  "mergeProviders = merge_maps pe_AddedAt"

definition mergeFiles :: "sfile gomap \<Rightarrow> sfile gomap \<Rightarrow> sfile gomap" where
  "mergeFiles = merge_maps fi_AddedOn"

definition selectActivePlacement :: "entry \<Rightarrow> entry \<Rightarrow> gostring" where
  "selectActivePlacement existing incoming =
     (if en_ActiveProvider incoming \<noteq> [] then en_ActiveProvider incoming else en_ActiveProvider existing)"

definition mergeTags :: "map_order \<Rightarrow> gostring list \<Rightarrow> gostring list \<Rightarrow> gostring list" where
  "mergeTags ord existing incoming =
     (if existing = [] then incoming
      else if incoming = [] then existing
      else ord (set existing \<union> set incoming))"

definition HandleExistingEntryMerge :: "map_order \<Rightarrow> entry \<Rightarrow> entry \<Rightarrow> entry" where
  "HandleExistingEntryMerge ord existing incoming =
     (if en_Protocol incoming = ProtocolNZB then incoming
      else incoming\<lparr>en_Files := mergeFiles (en_Files existing) (en_Files incoming),
             en_ActiveProvider := selectActivePlacement existing incoming,
             en_Providers := mergeProviders (en_Providers existing) (en_Providers incoming),
             en_Tags := mergeTags ord (en_Tags existing) (en_Tags incoming)\<rparr>)"

section \<open>Lemmas\<close>

lemma find_range_None:
  assumes "order_ok ord"
  shows "find (\<lambda>(k, p). P p) (mrange ord m) = None \<longleftrightarrow> (\<forall>k p. mlookup m k = Some p \<longrightarrow> \<not> P p)"
  by (fastforce simp: find_None_iff mrange_mem [OF assms])

lemma find_range_Some:
  assumes "order_ok ord" "find (\<lambda>(k, p). P p) (mrange ord m) = Some (k, p)"
  shows "mlookup m k = Some p \<and> P p"
proof -
  have "(k, p) \<in> set (mrange ord m) \<and> P p"
    using assms(2) by (auto simp: find_Some_iff dest: nth_mem)
  then show ?thesis by (simp add: mrange_mem [OF assms(1)])
qed

text \<open>The map of placements is keyed by provider name.\<close>

definition providers_keyed :: "entry \<Rightarrow> bool" where
  "providers_keyed e \<longleftrightarrow> (\<forall>k p. mlookup (en_Providers e) k = Some p \<longrightarrow> pe_Provider p = k \<and> k \<noteq> [])"

lemma AddTorrentProvider_keyed:
  "providers_keyed e \<Longrightarrow> to_Debrid t \<noteq> [] \<Longrightarrow> providers_keyed (snd (AddTorrentProvider ord now e t))"
  by (auto simp: providers_keyed_def AddTorrentProvider_def Let_def mlookup_mget split: if_splits)

lemma ActivatePlacement_spec:
  assumes "order_ok ord" "providers_keyed e" "ActivatePlacement ord now e name = (r, e')"
  shows "r = None \<longleftrightarrow> (\<exists>p. mlookup (en_Providers e) name = Some p \<and> pe_Status p = TorrentStatusDownloaded)"
    and "r = None \<Longrightarrow> e' = e\<lparr>en_ActiveProvider := name, en_UpdatedAt := now\<rparr>"
    and "r \<noteq> None \<Longrightarrow> e' = e"
proof -
  let ?f = "find (\<lambda>(k, p). pe_Provider p = name) (mrange ord (en_Providers e))"
  have "(r = None \<longleftrightarrow> (\<exists>p. mlookup (en_Providers e) name = Some p \<and> pe_Status p = TorrentStatusDownloaded))
    \<and> (r = None \<longrightarrow> e' = e\<lparr>en_ActiveProvider := name, en_UpdatedAt := now\<rparr>) \<and> (r \<noteq> None \<longrightarrow> e' = e)"
  proof (cases "?f")
    case None
    then have "\<forall>k p. mlookup (en_Providers e) k = Some p \<longrightarrow> pe_Provider p \<noteq> name"
      unfolding find_range_None[OF assms(1)] .
    with assms(2) have "mlookup (en_Providers e) name = None"
      unfolding providers_keyed_def by (metis not_Some_eq)
    with None assms(3) show ?thesis by (auto simp: ActivatePlacement_def split: if_splits)
  next
    case (Some kp)
    obtain k p where kp: "kp = (k, p)" by fastforce
    from find_range_Some[OF assms(1) Some[unfolded kp]] assms(2)
    have "mlookup (en_Providers e) name = Some p" by (auto simp: providers_keyed_def)
    moreover from this have "en_Providers e \<noteq> None" by (cases "en_Providers e") auto
    ultimately show ?thesis using Some kp assms(3)
      by (auto simp: ActivatePlacement_def split: if_splits)
  qed
  then show "r = None \<longleftrightarrow> (\<exists>p. mlookup (en_Providers e) name = Some p \<and> pe_Status p = TorrentStatusDownloaded)"
    and "r = None \<Longrightarrow> e' = e\<lparr>en_ActiveProvider := name, en_UpdatedAt := now\<rparr>"
    and "r \<noteq> None \<Longrightarrow> e' = e" by blast+
qed

lemma SwitchToNextProvider_spec:
  assumes "order_ok ord" "order_ok ord'" "providers_keyed e"
  shows "en_Providers (SwitchToNextProvider ord ord' now e) = en_Providers e"
    and "(\<exists>k p. mlookup (en_Providers e) k = Some p \<and> pe_Status p = TorrentStatusDownloaded) \<Longrightarrow>
      \<exists>p. GetActiveProvider (SwitchToNextProvider ord ord' now e) = Some p \<and> pe_Status p = TorrentStatusDownloaded"
    and "\<not> (\<exists>k p. mlookup (en_Providers e) k = Some p \<and> pe_Status p = TorrentStatusDownloaded) \<Longrightarrow>
      SwitchToNextProvider ord ord' now e = e"
proof -
  let ?P = "\<lambda>p. pe_Status p = TorrentStatusDownloaded"
  let ?s = "SwitchToNextProvider ord ord' now e"
  have "en_Providers ?s = en_Providers e
    \<and> ((\<exists>k p. mlookup (en_Providers e) k = Some p \<and> ?P p) \<longrightarrow>
        (\<exists>p. GetActiveProvider ?s = Some p \<and> ?P p))
    \<and> (\<not> (\<exists>k p. mlookup (en_Providers e) k = Some p \<and> ?P p) \<longrightarrow> ?s = e)"
  proof (cases "find (\<lambda>(k, p). ?P p) (mrange ord (en_Providers e))")
    case None
    with find_range_None[OF assms(1), of ?P] show ?thesis
      by (auto simp: SwitchToNextProvider_def)
  next
    case (Some kp)
    obtain k p where kp: "kp = (k, p)" by fastforce
    from find_range_Some[OF assms(1) Some[unfolded kp]] assms(3)
    have l: "mlookup (en_Providers e) k = Some p" "?P p" and k: "pe_Provider p = k" "k \<noteq> []"
      by (auto simp: providers_keyed_def)
    obtain r e' where a: "ActivatePlacement ord' now e k = (r, e')" by fastforce
    have "e' = e\<lparr>en_ActiveProvider := k, en_UpdatedAt := now\<rparr>"
      using ActivatePlacement_spec[OF assms(2,3) a] l by simp
    moreover have "?s = e'" using Some kp a k l by (auto simp: SwitchToNextProvider_def)
    ultimately show ?thesis using l k by (auto simp: GetActiveProvider_def)
  qed
  then show "en_Providers ?s = en_Providers e"
    and "(\<exists>k p. mlookup (en_Providers e) k = Some p \<and> ?P p) \<Longrightarrow>
      \<exists>p. GetActiveProvider ?s = Some p \<and> ?P p"
    and "\<not> (\<exists>k p. mlookup (en_Providers e) k = Some p \<and> ?P p) \<Longrightarrow> ?s = e" by blast+
qed

lemma fold_fmdrop: "fmlookup (fold fmdrop ks m) k = (if k \<in> set ks then None else fmlookup m k)"
  by (induction ks arbitrary: m) auto

lemma fold_fmupd: "fmlookup (fold (\<lambda>x. fmupd (f x) (g x)) xs m) k =
    (case find (\<lambda>x. f x = k) (rev xs) of None \<Rightarrow> fmlookup m k | Some x \<Rightarrow> Some (g x))"
  by (induction xs rule: rev_induct) auto


lemma check_files_None:
  "check_files fs p = None \<longleftrightarrow> (\<forall>(k, f) \<in> set fs. fi_Deleted f
     \<or> (\<exists>pf. mlookup (pe_Files p) (fi_Name f) = Some pf \<and> pf_Link pf \<noteq> []))"
  by (induction fs p rule: check_files.induct) (auto split: option.splits)

definition live_size :: "sfile \<Rightarrow> int" where
  "live_size f = (if fi_Deleted f then 0 else fi_Size f)"

lemma i64_idem [simp]: "i64 (i64 x) = i64 x"
  by (rule i64_cong) (rule i64_mod)

lemma i64_add_left [simp]: "i64 (i64 x + y) = i64 (x + y)"
  by (rule i64_cong) (metis i64_mod mod_add_left_eq)

lemma fold_sizes:
  "i64 (fold (\<lambda>(k, f) size. if \<not> fi_Deleted f then i64 (size + fi_Size f) else size) xs acc)
     = i64 (acc + sum_list (map (live_size \<circ> snd) xs))"
proof (induction xs arbitrary: acc)
  case (Cons x xs)
  obtain k f where "x = (k, f)" by fastforce
  then show ?case
    using Cons[of acc] Cons[of "i64 (acc + fi_Size f)"]
    by (simp add: live_size_def i64_add_left[of "acc + fi_Size f"] add.assoc)
qed simp

lemma fold_sizes_i64:
  "i64 acc = acc \<Longrightarrow> i64 (fold (\<lambda>(k, f) size. if \<not> fi_Deleted f then i64 (size + fi_Size f) else size) xs acc)
     = fold (\<lambda>(k, f) size. if \<not> fi_Deleted f then i64 (size + fi_Size f) else size) xs acc"
  by (induction xs arbitrary: acc) auto

text \<open>The size of an item does not depend on the order of the loop.\<close>

definition files_size :: "sfile gomap \<Rightarrow> int" where
  "files_size m = i64 (sum (\<lambda>k. live_size (the (mlookup m k))) (fmdom' (mget m)))"

lemma item_GetSize_any_order:
  assumes "order_ok ord"
  shows "item_GetSize ord i = files_size (it_Files i)"
proof -
  let ?m = "it_Files i"
  have "i64 0 = 0" by (simp add: i64_def)
  from fold_sizes_i64[OF this, of "mrange ord ?m"] fold_sizes[of "mrange ord ?m" 0]
  have "item_GetSize ord i = i64 (sum_list (map (live_size \<circ> snd) (mrange ord ?m)))"
    by (simp add: item_GetSize_def)
  also have "sum_list (map (live_size \<circ> snd) (mrange ord ?m))
      = sum_list (map (\<lambda>k. live_size (the (mlookup ?m k))) (ord (fmdom' (mget ?m))))"
    by (simp add: mrange_def comp_def)
  also have "\<dots> = sum (\<lambda>k. live_size (the (mlookup ?m k))) (fmdom' (mget ?m))"
    using assms by (simp add: order_ok_def sum_list_distinct_conv_sum_set)
  finally show ?thesis by (simp add: files_size_def)
qed

lemma merge_newer_lookup:
  "fmlookup (merge_newer added a b) k =
     (case (fmlookup a k, fmlookup b k) of
        (Some x, Some y) \<Rightarrow> Some (if added x < added y then y else x)
      | (Some x, None) \<Rightarrow> Some x
      | (None, y) \<Rightarrow> y)"
  by (auto simp: merge_newer_def fmdom_notI map_add_def split: option.split)

text \<open>The later of two, the first when they are as old.\<close>

definition newest :: "('v \<Rightarrow> gotime) \<Rightarrow> 'v option \<Rightarrow> 'v option \<Rightarrow> 'v option" where
  "newest added a b =
     (case a of None \<Rightarrow> b
      | Some x \<Rightarrow> (case b of None \<Rightarrow> a | Some y \<Rightarrow> if added x < added y then b else a))"

lemma merge_maps_lookup: "mlookup (merge_maps added a b) k = newest added (mlookup a k) (mlookup b k)"
  by (cases a; cases b) (auto simp: merge_maps_def merge_newer_lookup newest_def split: option.split)

text \<open>Every file name of an NZB becomes the name of a provider of its entry.\<close>

lemma fold_fmupd_same: "n \<in> set names \<Longrightarrow> fmlookup (fold (\<lambda>n. fmupd n p) names m) n = Some p"
proof (induction names arbitrary: m)
  case (Cons x xs)
  have "fmlookup (fold (\<lambda>n. fmupd n p) xs (fmupd x p m)) n = Some p" if "n \<notin> set xs"
    using that Cons.prems by (induction xs arbitrary: m rule: rev_induct) auto
  with Cons show ?case by auto
qed simp

lemma AddUsenetProvider_file_keys:
  "n \<in> set names \<Longrightarrow> HasProvider (snd (AddUsenetProvider now e i names)) n"
  by (auto simp: AddUsenetProvider_def HasProvider_def Let_def fold_fmupd_same)

lemma AddUsenetProvider_not_keyed:
  assumes "n \<in> set names" "n \<noteq> usenet"
  shows "\<not> providers_keyed (snd (AddUsenetProvider now e i names))"
proof
  assume "providers_keyed (snd (AddUsenetProvider now e i names))"
  moreover have "mlookup (en_Providers (snd (AddUsenetProvider now e i names))) n
      = Some (usenet_provider now e i names)"
    using assms by (simp add: AddUsenetProvider_def Let_def fold_fmupd_same)
  ultimately have "pe_Provider (usenet_provider now e i names) = n"
    by (auto simp: providers_keyed_def)
  with assms(2) show False by (simp add: usenet_provider_def)
qed

section \<open>Properties\<close>

text \<open>C22. Removing a provider takes away exactly its placements and hands them to the cleanup. When it
  was the active one, a downloaded placement that is left, if any, becomes active, whatever the
  order in which Go ranges over the map; otherwise the entry keeps naming the removed provider, and
  has no active placement.\<close>

theorem RemoveProvider_exact:
  assumes "order_ok ord1" "order_ok ord2" "order_ok ord3" "providers_keyed e" "name \<noteq> []"
  shows "case RemoveProvider ord1 ord2 ord3 now e name of
    (removed, e') \<Rightarrow>
      set removed = {p. mlookup (en_Providers e) name = Some p}
      \<and> (\<forall>k. mlookup (en_Providers e') k = (if k = name then None else mlookup (en_Providers e) k))
      \<and> providers_keyed e'
      \<and> (en_ActiveProvider e \<noteq> name \<longrightarrow> en_ActiveProvider e' = en_ActiveProvider e)
      \<and> (en_ActiveProvider e = name \<longrightarrow>
           (if \<exists>k p. k \<noteq> name \<and> mlookup (en_Providers e) k = Some p \<and> pe_Status p = TorrentStatusDownloaded
            then \<exists>p. GetActiveProvider e' = Some p \<and> pe_Status p = TorrentStatusDownloaded
            else en_ActiveProvider e' = name \<and> GetActiveProvider e' = None))"
proof (cases "en_Providers e")
  case None
  then show ?thesis using assms(4) by (auto simp: RemoveProvider_def GetActiveProvider_def)
next
  case (Some m)
  define found where "found = filter (\<lambda>(k, p). pe_Provider p = name) (mrange ord1 (en_Providers e))"
  define e1 where "e1 = e\<lparr>en_Providers := Some (fold fmdrop (map fst found) m)\<rparr>"
  define e2 where "e2 = (if en_ActiveProvider e1 = name then SwitchToNextProvider ord2 ord3 now e1 else e1)"
  have run: "RemoveProvider ord1 ord2 ord3 now e name = (map snd found, e2)"
    by (simp add: RemoveProvider_def Some found_def e1_def e2_def Let_def)
  have mem: "(k, p) \<in> set found \<longleftrightarrow> k = name \<and> mlookup (en_Providers e) name = Some p" for k p
    using assms(4) by (auto simp: found_def mrange_mem[OF assms(1)] providers_keyed_def)
  have "set (map snd found) = {p. mlookup (en_Providers e) name = Some p}"
    using mem by force
  moreover have look: "mlookup (en_Providers e1) k = (if k = name then None else mlookup (en_Providers e) k)" for k
  proof (cases "k \<in> set (map fst found)")
    case True
    then show ?thesis using mem by (auto simp: e1_def fold_fmdrop)
  next
    case False
    have "mlookup (en_Providers e) name = None" if "k = name"
    proof (rule ccontr)
      assume "mlookup (en_Providers e) name \<noteq> None"
      then obtain p where "(name, p) \<in> set found" using mem by blast
      from imageI[OF this, of fst] False that show False by simp
    qed
    with False show ?thesis by (simp add: e1_def fold_fmdrop Some)
  qed
  moreover have k1: "providers_keyed e1"
    using assms(4) unfolding providers_keyed_def look by simp
  note sw = SwitchToNextProvider_spec[OF assms(2,3) k1, of now]
  have pr: "en_Providers e2 = en_Providers e1" using sw(1) by (simp add: e2_def)
  moreover have "providers_keyed e2" using k1 by (simp add: providers_keyed_def pr)
  moreover have "en_ActiveProvider e \<noteq> name \<longrightarrow> en_ActiveProvider e2 = en_ActiveProvider e"
    by (simp add: e2_def e1_def)
  moreover have "if \<exists>k p. k \<noteq> name \<and> mlookup (en_Providers e) k = Some p \<and> pe_Status p = TorrentStatusDownloaded
            then \<exists>p. GetActiveProvider e2 = Some p \<and> pe_Status p = TorrentStatusDownloaded
            else en_ActiveProvider e2 = name \<and> GetActiveProvider e2 = None"
    if a: "en_ActiveProvider e = name"
  proof -
    have e2: "e2 = SwitchToNextProvider ord2 ord3 now e1" using a by (simp add: e2_def e1_def)
    have left: "(\<exists>k p. k \<noteq> name \<and> mlookup (en_Providers e) k = Some p \<and> pe_Status p = TorrentStatusDownloaded)
      \<longleftrightarrow> (\<exists>k p. mlookup (en_Providers e1) k = Some p \<and> pe_Status p = TorrentStatusDownloaded)"
      unfolding look by auto
    show ?thesis
    proof (cases "\<exists>k p. mlookup (en_Providers e1) k = Some p \<and> pe_Status p = TorrentStatusDownloaded")
      case True
      with sw(2) left e2 show ?thesis by simp
    next
      case False
      from sw(3)[OF this] have "e2 = e1" using e2 by simp
      with False left look[of name] a show ?thesis by (auto simp: e1_def GetActiveProvider_def)
    qed
  qed
  ultimately show ?thesis unfolding run by simp
qed

definition demo_provider :: "gostring \<Rightarrow> gostring \<Rightarrow> provider_entry" where
  "demo_provider name status =
     \<lparr>pe_Provider = name, pe_ID = [1], pe_AddedAt = 5, pe_RemovedAt = None, pe_Status = status,
      pe_Progress = 0, pe_Files = Some (fmap_of_list [([109], \<lparr>pf_Id = [1], pf_Link = [2], pf_Path = [3]\<rparr>)]),
      pe_DownloadedAt = None\<rparr>"

definition demo_file :: sfile where
  "demo_file = \<lparr>fi_Name = [109], fi_Path = [], fi_AddedOn = 7, fi_Size = 100, fi_ByteRange = None,
     fi_Deleted = False, fi_InfoHash = [65]\<rparr>"

definition demo_entry :: entry where
  "demo_entry =
     \<lparr>en_Protocol = ProtocolTorrent, en_InfoHash = [65], en_Name = [109], en_OriginalFilename = [109],
      en_Size = 100, en_Bytes = 100, en_Magnet = [], en_IsDownloading = False, en_SizeDownloaded = 0,
      en_ActiveProvider = [114],
      en_Providers = Some (fmap_of_list [([114], demo_provider [114] TorrentStatusDownloaded),
        ([116], demo_provider [116] TorrentStatusDownloaded)]),
      en_Files = Some (fmap_of_list [([109], demo_file)]),
      en_State = EntryStatePausedUP, en_Status = TorrentStatusDownloaded, en_Progress = f64_one,
      en_Speed = 0, en_Seeders = 3, en_IsComplete = True, en_Bad = False, en_Category = [], en_Tags = [],
      en_MountPath = [47], en_SavePath = [47], en_ContentPath = [47], en_AddedOn = 7, en_CreatedAt = 8,
      en_UpdatedAt = 9, en_CompletedAt = Some 11, en_ImportedAt = None, en_Action = [],
      en_DownloadUncached = False, en_CallbackURL = [], en_SkipMultiSeason = False, en_LastError = [],
      en_ErrorCount = 0, en_LastErrorTime = None\<rparr>"

lemma demo_entry_keyed: "providers_keyed demo_entry"
  by (auto simp: providers_keyed_def demo_entry_def demo_provider_def fmlookup_of_list split: if_splits)

theorem RemoveProvider_exact_witness:
  "case RemoveProvider sorted_list_of_set sorted_list_of_set sorted_list_of_set 0 demo_entry [114] of
    (removed, e') \<Rightarrow>
      set removed = {demo_provider [114] TorrentStatusDownloaded}
      \<and> (\<exists>p. GetActiveProvider e' = Some p \<and> pe_Status p = TorrentStatusDownloaded)"
proof -
  have look: "mlookup (en_Providers demo_entry) k = (if k = [114] then Some (demo_provider [114] TorrentStatusDownloaded)
      else if k = [116] then Some (demo_provider [116] TorrentStatusDownloaded) else None)" for k
    by (simp add: demo_entry_def fmlookup_of_list)
  have "\<exists>k p. k \<noteq> [114] \<and> mlookup (en_Providers demo_entry) k = Some p \<and> pe_Status p = TorrentStatusDownloaded"
    by (rule exI[of _ "[116]"]) (simp add: look demo_provider_def)
  moreover have "en_ActiveProvider demo_entry = [114]" by (simp add: demo_entry_def)
  moreover note RemoveProvider_exact[OF sorted_order_ok sorted_order_ok sorted_order_ok demo_entry_keyed, of "[114]" 0]
  ultimately show ?thesis by (auto simp: look split: prod.splits)
qed

text \<open>The integrity check passes exactly for an entry that is not bad, whose active placement exists,
  is downloaded and has files, and in which every file that is not deleted has a link, whatever
  the order of the files; a failed check asks for a refresh exactly when the entry is not bad.\<close>

lemma RunChecks_exact:
  assumes "order_ok ord"
  shows "(snd (RunChecks ord e) = None \<longleftrightarrow>
      \<not> en_Bad e \<and> (\<exists>p. GetActiveProvider e = Some p \<and> pe_Status p = TorrentStatusDownloaded
        \<and> (\<exists>k. mlookup (pe_Files p) k \<noteq> None)
        \<and> (\<forall>k f. mlookup (en_Files e) k = Some f \<and> \<not> fi_Deleted f \<longrightarrow>
             (\<exists>pf. mlookup (pe_Files p) (fi_Name f) = Some pf \<and> pf_Link pf \<noteq> []))))
    \<and> (fst (RunChecks ord e) \<longleftrightarrow> snd (RunChecks ord e) \<noteq> None \<and> \<not> en_Bad e)"
proof (cases "en_Bad e")
  case False
  show ?thesis
  proof (cases "GetActiveProvider e")
    case (Some p)
    have "check_files (mrange ord (en_Files e)) p = None \<longleftrightarrow>
        (\<forall>k f. mlookup (en_Files e) k = Some f \<and> \<not> fi_Deleted f \<longrightarrow>
           (\<exists>pf. mlookup (pe_Files p) (fi_Name f) = Some pf \<and> pf_Link pf \<noteq> []))"
      unfolding check_files_None using mrange_mem[OF assms, of _ _ "en_Files e"] by fastforce
    with False Some mlen_0[of "pe_Files p"] show ?thesis
      by (auto simp: RunChecks_def split: option.split)
  qed (use False in \<open>simp add: RunChecks_def\<close>)
qed (simp add: RunChecks_def)

lemma RunChecks_exact_witness: "RunChecks sorted_list_of_set demo_entry = (False, None)"
proof -
  have "GetActiveProvider demo_entry = Some (demo_provider [114] TorrentStatusDownloaded)"
    by (simp add: GetActiveProvider_def demo_entry_def fmlookup_of_list)
  moreover have "mlookup (en_Files demo_entry) k = (if k = [109] then Some demo_file else None)" for k
    by (simp add: demo_entry_def fmlookup_of_list)
  moreover have "\<not> en_Bad demo_entry" by (simp add: demo_entry_def)
  ultimately have "snd (RunChecks sorted_list_of_set demo_entry) = None"
    unfolding RunChecks_exact[OF sorted_order_ok, THEN conjunct1]
    by (auto simp: demo_provider_def demo_file_def fmlookup_of_list intro!: exI[of _ "[109]"])
  with RunChecks_exact[OF sorted_order_ok, of demo_entry] show ?thesis
    by (metis prod.collapse)
qed

text \<open>C23. Merging an incoming entry with the stored entry of the same hash. An incoming torrent loses
  no file and no placement of either: for a name both have, the one added later stays (the time of
  addition decides for placements too), and the stored one when they are as old. Its active
  provider wins over the stored one unless it has none, the tags are the union of both, without
  duplicates when both have some, and every other field is the incoming entry's. An incoming NZB
  replaces the stored entry: files, placements and tags that only the stored entry has are
  dropped.\<close>

theorem merge_keeps_newest:
  assumes "order_ok ord"
  shows "let m = HandleExistingEntryMerge ord existing incoming in
    (if en_Protocol incoming = ProtocolNZB then m = incoming
     else
      (\<forall>k. mlookup (en_Files m) k = newest fi_AddedOn (mlookup (en_Files existing) k) (mlookup (en_Files incoming) k))
      \<and> (\<forall>k. mlookup (en_Providers m) k
           = newest pe_AddedAt (mlookup (en_Providers existing) k) (mlookup (en_Providers incoming) k))
      \<and> set (en_Tags m) = set (en_Tags existing) \<union> set (en_Tags incoming)
      \<and> (if en_Tags existing \<noteq> [] \<and> en_Tags incoming \<noteq> [] then distinct (en_Tags m) else True)
      \<and> en_ActiveProvider m = (if en_ActiveProvider incoming \<noteq> [] then en_ActiveProvider incoming
           else en_ActiveProvider existing)
      \<and> m = incoming\<lparr>en_Files := en_Files m, en_Providers := en_Providers m,
              en_ActiveProvider := en_ActiveProvider m, en_Tags := en_Tags m\<rparr>)"
  using assms
  by (simp add: HandleExistingEntryMerge_def mergeFiles_def mergeProviders_def merge_maps_lookup
      mergeTags_def order_ok_def selectActivePlacement_def Let_def)

theorem merge_keeps_newest_witness:
  "(let m = HandleExistingEntryMerge sorted_list_of_set demo_entry (demo_entry\<lparr>en_Files := None, en_Tags := [[1]]\<rparr>)
    in mlookup (en_Files m) [109] = Some demo_file \<and> set (en_Tags m) = {[1]})
   \<and> HandleExistingEntryMerge sorted_list_of_set demo_entry
       (demo_entry\<lparr>en_Protocol := ProtocolNZB, en_Files := None\<rparr>)
     = demo_entry\<lparr>en_Protocol := ProtocolNZB, en_Files := None\<rparr>"
proof -
  have "mlookup (en_Files demo_entry) [109] = Some demo_file" "en_Tags demo_entry = []"
    "en_Protocol (demo_entry\<lparr>en_Files := None, en_Tags := [[1]]\<rparr>) \<noteq> ProtocolNZB"
    by (simp_all add: demo_entry_def fmlookup_of_list ProtocolTorrent_def ProtocolNZB_def gs_def)
  with merge_keeps_newest[OF sorted_order_ok, of demo_entry "demo_entry\<lparr>en_Files := None, en_Tags := [[1]]\<rparr>"]
    merge_keeps_newest[OF sorted_order_ok, of demo_entry "demo_entry\<lparr>en_Protocol := ProtocolNZB, en_Files := None\<rparr>"]
  show ?thesis by (simp add: Let_def newest_def)
qed

end
