(* ===== verification/Entry_Proto.thy ===== *)
theory Entry_Proto
  imports Entry_Model
begin

text \<open>
  The conversions of \<open>pkg/storage/proto.go\<close> between the entries and the messages declared in
  \<open>storage.proto\<close>, field by field. The messages are records with the fields of the declaration; how
  protobuf writes them as bytes is a parameter of the theories that store them. A \<open>range\<close> loop that
  converts a map value by value is the map of the conversion.
\<close>

section \<open>Messages\<close>

record file_proto =
  fp_Name :: gostring
  fp_Path :: gostring
  fp_AddedOnUnix :: int
  fp_Size :: int
  fp_ByteRangeStart :: int
  fp_ByteRangeEnd :: int
  fp_HasByteRange :: bool
  fp_Deleted :: bool
  fp_InfoHash :: gostring

record provider_file_proto =
  pfp_Id :: gostring
  pfp_Link :: gostring
  pfp_Path :: gostring

record provider_entry_proto =
  pp_Provider :: gostring
  pp_Id :: gostring
  pp_AddedAtUnix :: int
  pp_RemovedAtUnix :: int
  pp_HasRemovedAt :: bool
  pp_Status :: gostring
  pp_Progress :: float64
  pp_Files :: "(gostring, provider_file_proto) fmap"
  pp_DownloadedAtUnix :: int
  pp_HasDownloadedAt :: bool

record entry_proto =
  ep_Protocol :: gostring
  ep_InfoHash :: gostring
  ep_Name :: gostring
  ep_OriginalFilename :: gostring
  ep_Size :: int
  ep_Bytes :: int
  ep_Magnet :: gostring
  ep_IsDownloading :: bool
  ep_SizeDownloaded :: int
  ep_ActiveProvider :: gostring
  ep_Providers :: "(gostring, provider_entry_proto) fmap"
  ep_Files :: "(gostring, file_proto) fmap"
  ep_State :: gostring
  ep_Status :: gostring
  ep_Progress :: float64
  ep_Speed :: int
  ep_Seeders :: int
  ep_IsComplete :: bool
  ep_Bad :: bool
  ep_Category :: gostring
  ep_Tags :: "gostring list"
  ep_MountPath :: gostring
  ep_SavePath :: gostring
  ep_ContentPath :: gostring
  ep_AddedOnUnix :: int
  ep_CreatedAtUnix :: int
  ep_UpdatedAtUnix :: int
  ep_CompletedAtUnix :: int
  ep_HasCompletedAt :: bool
  ep_ImportedAtUnix :: int
  ep_HasImportedAt :: bool
  ep_Action :: gostring
  ep_DownloadUncached :: bool
  ep_CallbackUrl :: gostring
  ep_SkipMultiSeason :: bool
  ep_LastError :: gostring
  ep_ErrorCount :: int
  ep_LastErrorTimeUnix :: int
  ep_HasLastErrorTime :: bool

record entry_item_proto =
  ip_Name :: gostring
  ip_Files :: "(gostring, file_proto) fmap"
  ip_Size :: int

section \<open>Conversions\<close>

text \<open>The three idioms for times: a zero time is left out, a pointer has a flag beside it.\<close>

definition unix_or_zero :: "gotime \<Rightarrow> int" where
  "unix_or_zero t = (if \<not> time_IsZero t then t_Unix t else 0)"

definition time_or_zero :: "int \<Rightarrow> gotime" where
  "time_or_zero u = (if u \<noteq> 0 then time_Unix u else 0)"

definition unix_ptr :: "gotime option \<Rightarrow> int" where
  "unix_ptr t = (case t of None \<Rightarrow> 0 | Some x \<Rightarrow> t_Unix x)"

definition time_ptr :: "bool \<Rightarrow> int \<Rightarrow> gotime option" where
  "time_ptr has u = (if has then Some (time_Unix u) else None)"

definition fileToProto :: "sfile \<Rightarrow> file_proto" where
  "fileToProto f =
     \<lparr>fp_Name = fi_Name f, fp_Path = fi_Path f, fp_AddedOnUnix = unix_or_zero (fi_AddedOn f),
      fp_Size = fi_Size f,
      fp_ByteRangeStart = (case fi_ByteRange f of None \<Rightarrow> 0 | Some r \<Rightarrow> fst r),
      fp_ByteRangeEnd = (case fi_ByteRange f of None \<Rightarrow> 0 | Some r \<Rightarrow> snd r),
      fp_HasByteRange = (fi_ByteRange f \<noteq> None), fp_Deleted = fi_Deleted f,
      fp_InfoHash = fi_InfoHash f\<rparr>"

definition protoToFile :: "file_proto \<Rightarrow> sfile" where
  "protoToFile p =
     \<lparr>fi_Name = fp_Name p, fi_Path = fp_Path p, fi_AddedOn = time_or_zero (fp_AddedOnUnix p),
      fi_Size = fp_Size p,
      fi_ByteRange = (if fp_HasByteRange p then Some (fp_ByteRangeStart p, fp_ByteRangeEnd p) else None),
      fi_Deleted = fp_Deleted p, fi_InfoHash = fp_InfoHash p\<rparr>"

definition providerFileToProto :: "provider_file \<Rightarrow> provider_file_proto" where
  "providerFileToProto f = \<lparr>pfp_Id = pf_Id f, pfp_Link = pf_Link f, pfp_Path = pf_Path f\<rparr>"

definition protoToProviderFile :: "provider_file_proto \<Rightarrow> provider_file" where
  "protoToProviderFile p = \<lparr>pf_Id = pfp_Id p, pf_Link = pfp_Link p, pf_Path = pfp_Path p\<rparr>"

definition providerEntryToProto :: "provider_entry \<Rightarrow> provider_entry_proto" where
  "providerEntryToProto p =
     \<lparr>pp_Provider = pe_Provider p, pp_Id = pe_ID p, pp_AddedAtUnix = unix_or_zero (pe_AddedAt p),
      pp_RemovedAtUnix = unix_ptr (pe_RemovedAt p), pp_HasRemovedAt = (pe_RemovedAt p \<noteq> None),
      pp_Status = pe_Status p, pp_Progress = pe_Progress p,
      pp_Files = fmmap providerFileToProto (mget (pe_Files p)),
      pp_DownloadedAtUnix = unix_ptr (pe_DownloadedAt p),
      pp_HasDownloadedAt = (pe_DownloadedAt p \<noteq> None)\<rparr>"

definition protoToProviderEntry :: "provider_entry_proto \<Rightarrow> provider_entry" where
  "protoToProviderEntry p =
     \<lparr>pe_Provider = pp_Provider p, pe_ID = pp_Id p, pe_AddedAt = time_or_zero (pp_AddedAtUnix p),
      pe_RemovedAt = time_ptr (pp_HasRemovedAt p) (pp_RemovedAtUnix p), pe_Status = pp_Status p,
      pe_Progress = pp_Progress p, pe_Files = Some (fmmap protoToProviderFile (pp_Files p)),
      pe_DownloadedAt = time_ptr (pp_HasDownloadedAt p) (pp_DownloadedAtUnix p)\<rparr>"

definition EntryToProto :: "entry \<Rightarrow> entry_proto" where
  "EntryToProto e =
     \<lparr>ep_Protocol = en_Protocol e, ep_InfoHash = en_InfoHash e, ep_Name = en_Name e,
      ep_OriginalFilename = en_OriginalFilename e, ep_Size = en_Size e, ep_Bytes = en_Bytes e,
      ep_Magnet = en_Magnet e, ep_IsDownloading = en_IsDownloading e,
      ep_SizeDownloaded = en_SizeDownloaded e, ep_ActiveProvider = en_ActiveProvider e,
      ep_Providers = fmmap providerEntryToProto (mget (en_Providers e)),
      ep_Files = fmmap fileToProto (mget (en_Files e)),
      ep_State = en_State e, ep_Status = en_Status e, ep_Progress = en_Progress e,
      ep_Speed = en_Speed e, ep_Seeders = i32 (en_Seeders e), ep_IsComplete = en_IsComplete e,
      ep_Bad = en_Bad e, ep_Category = en_Category e, ep_Tags = en_Tags e,
      ep_MountPath = en_MountPath e, ep_SavePath = en_SavePath e, ep_ContentPath = en_ContentPath e,
      ep_AddedOnUnix = unix_or_zero (en_AddedOn e), ep_CreatedAtUnix = unix_or_zero (en_CreatedAt e),
      ep_UpdatedAtUnix = unix_or_zero (en_UpdatedAt e),
      ep_CompletedAtUnix = unix_ptr (en_CompletedAt e), ep_HasCompletedAt = (en_CompletedAt e \<noteq> None),
      ep_ImportedAtUnix = unix_ptr (en_ImportedAt e), ep_HasImportedAt = (en_ImportedAt e \<noteq> None),
      ep_Action = en_Action e, ep_DownloadUncached = en_DownloadUncached e,
      ep_CallbackUrl = en_CallbackURL e, ep_SkipMultiSeason = en_SkipMultiSeason e,
      ep_LastError = en_LastError e, ep_ErrorCount = i32 (en_ErrorCount e),
      ep_LastErrorTimeUnix = unix_ptr (en_LastErrorTime e),
      ep_HasLastErrorTime = (en_LastErrorTime e \<noteq> None)\<rparr>"

definition ProtoToEntry :: "entry_proto \<Rightarrow> entry" where
  "ProtoToEntry p =
     \<lparr>en_Protocol = ep_Protocol p, en_InfoHash = ep_InfoHash p, en_Name = ep_Name p,
      en_OriginalFilename = ep_OriginalFilename p, en_Size = ep_Size p, en_Bytes = ep_Bytes p,
      en_Magnet = ep_Magnet p, en_IsDownloading = ep_IsDownloading p,
      en_SizeDownloaded = ep_SizeDownloaded p, en_ActiveProvider = ep_ActiveProvider p,
      en_Providers = Some (fmmap protoToProviderEntry (ep_Providers p)),
      en_Files = Some (fmmap protoToFile (ep_Files p)),
      en_State = ep_State p, en_Status = ep_Status p, en_Progress = ep_Progress p,
      en_Speed = ep_Speed p, en_Seeders = ep_Seeders p, en_IsComplete = ep_IsComplete p,
      en_Bad = ep_Bad p, en_Category = ep_Category p, en_Tags = ep_Tags p,
      en_MountPath = ep_MountPath p, en_SavePath = ep_SavePath p, en_ContentPath = ep_ContentPath p,
      en_AddedOn = time_or_zero (ep_AddedOnUnix p), en_CreatedAt = time_or_zero (ep_CreatedAtUnix p),
      en_UpdatedAt = time_or_zero (ep_UpdatedAtUnix p),
      en_CompletedAt = time_ptr (ep_HasCompletedAt p) (ep_CompletedAtUnix p),
      en_ImportedAt = time_ptr (ep_HasImportedAt p) (ep_ImportedAtUnix p),
      en_Action = ep_Action p, en_DownloadUncached = ep_DownloadUncached p,
      en_CallbackURL = ep_CallbackUrl p, en_SkipMultiSeason = ep_SkipMultiSeason p,
      en_LastError = ep_LastError p, en_ErrorCount = ep_ErrorCount p,
      en_LastErrorTime = time_ptr (ep_HasLastErrorTime p) (ep_LastErrorTimeUnix p)\<rparr>"

definition EntryItemToProto :: "entry_item \<Rightarrow> entry_item_proto" where
  "EntryItemToProto i =
     \<lparr>ip_Name = it_Name i, ip_Files = fmmap fileToProto (mget (it_Files i)), ip_Size = it_Size i\<rparr>"

definition ProtoToEntryItem :: "entry_item_proto \<Rightarrow> entry_item" where
  "ProtoToEntryItem p =
     \<lparr>it_Name = ip_Name p, it_Files = Some (fmmap protoToFile (ip_Files p)), it_Size = ip_Size p\<rparr>"

section \<open>Repair jobs, provider switches and migrations\<close>

record content_file =
  cf_Name :: gostring
  cf_Path :: gostring
  cf_Id :: int
  cf_EpisodeId :: int
  cf_FileId :: int
  cf_TargetPath :: gostring
  cf_IsSymlink :: bool
  cf_IsBroken :: bool
  cf_SeasonNumber :: int
  cf_Processed :: bool
  cf_Size :: int

record repair_stats =
  rs_Discovered :: int
  rs_Probed :: int
  rs_Broken :: int
  rs_Planned :: int
  rs_Executed :: int
  rs_Fixed :: int
  rs_Failed :: int
  rs_Unknown :: int

record repair_action =
  ra_ID :: gostring
  ra_Type :: gostring
  ra_EntryID :: gostring
  ra_Protocol :: gostring
  ra_Status :: gostring
  ra_Error :: gostring
  ra_StartedAt :: gotime
  ra_CompletedAt :: gotime

record repair_job =
  j_ID :: gostring
  j_Arrs :: "gostring list"
  j_MediaIDs :: "gostring list"
  j_StartedAt :: gotime
  j_BrokenItems :: "content_file list gomap"
  j_Status :: gostring
  j_CompletedAt :: gotime
  j_FailedAt :: gotime
  j_AutoProcess :: bool
  j_Recurrent :: bool
  j_Schedule :: gostring
  j_Strategy :: gostring
  j_Workers :: int
  j_Error :: gostring
  j_UpdatedAt :: gotime
  j_UniqueKey :: gostring
  j_Mode :: gostring
  j_Stage :: gostring
  j_Stats :: repair_stats
  j_Actions :: "repair_action list"

record job_proto =
  jp_Id :: gostring
  jp_Arrs :: "gostring list"
  jp_MediaIds :: "gostring list"
  jp_StartedAtUnix :: int
  jp_BrokenItems :: "(gostring, content_file list) fmap"
  jp_Status :: gostring
  jp_CompletedAtUnix :: int
  jp_FailedAtUnix :: int
  jp_AutoProcess :: bool
  jp_Recurrent :: bool
  jp_Error :: gostring

record switcher_job =
  sj_ID :: gostring
  sj_InfoHash :: gostring
  sj_SourceProvider :: gostring
  sj_TargetProvider :: gostring
  sj_Status :: gostring
  sj_Progress :: float64
  sj_Error :: gostring
  sj_CreatedAt :: gotime
  sj_CompletedAt :: "gotime option"
  sj_KeepOld :: bool
  sj_WaitComplete :: bool

record switcher_job_proto =
  sp_Id :: gostring
  sp_InfoHash :: gostring
  sp_SourceProvider :: gostring
  sp_TargetProvider :: gostring
  sp_Status :: gostring
  sp_Progress :: float64
  sp_Error :: gostring
  sp_CreatedAtUnix :: int
  sp_CompletedAtUnix :: int
  sp_HasCompletedAt :: bool
  sp_KeepOld :: bool
  sp_WaitComplete :: bool

record migration_status =
  ms_Running :: bool
  ms_Total :: int
  ms_Completed :: int
  ms_Errors :: int
  ms_StartedAt :: gotime
  ms_UpdatedAt :: gotime
  ms_ErrorList :: "gostring list"

record migration_status_proto =
  mp_Running :: bool
  mp_Total :: int
  mp_Completed :: int
  mp_Errors :: int
  mp_StartedAtUnix :: int
  mp_UpdatedAtUnix :: int
  mp_ErrorList :: "gostring list"

text \<open>A file of a broken item; the message has 32-bit integers where the struct has \<open>int\<close>.\<close>

definition content_file_proto :: "content_file \<Rightarrow> content_file" where
  "content_file_proto f =
     f\<lparr>cf_Id := i32 (cf_Id f), cf_EpisodeId := i32 (cf_EpisodeId f), cf_FileId := i32 (cf_FileId f),
       cf_SeasonNumber := i32 (cf_SeasonNumber f)\<rparr>"

definition JobToProto :: "repair_job \<Rightarrow> job_proto" where
  "JobToProto j =
     \<lparr>jp_Id = j_ID j, jp_Arrs = j_Arrs j, jp_MediaIds = j_MediaIDs j,
      jp_StartedAtUnix = unix_or_zero (j_StartedAt j),
      jp_BrokenItems = fmmap (map content_file_proto) (mget (j_BrokenItems j)),
      jp_Status = j_Status j, jp_CompletedAtUnix = unix_or_zero (j_CompletedAt j),
      jp_FailedAtUnix = unix_or_zero (j_FailedAt j), jp_AutoProcess = j_AutoProcess j,
      jp_Recurrent = j_Recurrent j, jp_Error = j_Error j\<rparr>"

definition zero_repair_stats :: repair_stats where
  "zero_repair_stats =
     \<lparr>rs_Discovered = 0, rs_Probed = 0, rs_Broken = 0, rs_Planned = 0, rs_Executed = 0, rs_Fixed = 0,
      rs_Failed = 0, rs_Unknown = 0\<rparr>"

definition ProtoToJob :: "job_proto \<Rightarrow> repair_job" where
  "ProtoToJob p =
     \<lparr>j_ID = jp_Id p, j_Arrs = jp_Arrs p, j_MediaIDs = jp_MediaIds p,
      j_StartedAt = time_or_zero (jp_StartedAtUnix p), j_BrokenItems = Some (jp_BrokenItems p),
      j_Status = jp_Status p, j_CompletedAt = time_or_zero (jp_CompletedAtUnix p),
      j_FailedAt = time_or_zero (jp_FailedAtUnix p), j_AutoProcess = jp_AutoProcess p,
      j_Recurrent = jp_Recurrent p, j_Schedule = [], j_Strategy = [], j_Workers = 0,
      j_Error = jp_Error p, j_UpdatedAt = 0, j_UniqueKey = [], j_Mode = [], j_Stage = [],
      j_Stats = zero_repair_stats, j_Actions = []\<rparr>"

definition SwitcherJobToProto :: "switcher_job \<Rightarrow> switcher_job_proto" where
  "SwitcherJobToProto j =
     \<lparr>sp_Id = sj_ID j, sp_InfoHash = sj_InfoHash j, sp_SourceProvider = sj_SourceProvider j,
      sp_TargetProvider = sj_TargetProvider j, sp_Status = sj_Status j, sp_Progress = sj_Progress j,
      sp_Error = sj_Error j, sp_CreatedAtUnix = unix_or_zero (sj_CreatedAt j),
      sp_CompletedAtUnix = unix_ptr (sj_CompletedAt j), sp_HasCompletedAt = (sj_CompletedAt j \<noteq> None),
      sp_KeepOld = sj_KeepOld j, sp_WaitComplete = sj_WaitComplete j\<rparr>"

definition ProtoToSwitcherJob :: "switcher_job_proto \<Rightarrow> switcher_job" where
  "ProtoToSwitcherJob p =
     \<lparr>sj_ID = sp_Id p, sj_InfoHash = sp_InfoHash p, sj_SourceProvider = sp_SourceProvider p,
      sj_TargetProvider = sp_TargetProvider p, sj_Status = sp_Status p, sj_Progress = sp_Progress p,
      sj_Error = sp_Error p, sj_CreatedAt = time_or_zero (sp_CreatedAtUnix p),
      sj_CompletedAt = time_ptr (sp_HasCompletedAt p) (sp_CompletedAtUnix p),
      sj_KeepOld = sp_KeepOld p, sj_WaitComplete = sp_WaitComplete p\<rparr>"

definition SystemMigrationStatusToProto :: "migration_status \<Rightarrow> migration_status_proto" where
  "SystemMigrationStatusToProto m =
     \<lparr>mp_Running = ms_Running m, mp_Total = i32 (ms_Total m), mp_Completed = i32 (ms_Completed m),
      mp_Errors = i32 (ms_Errors m), mp_StartedAtUnix = unix_or_zero (ms_StartedAt m),
      mp_UpdatedAtUnix = unix_or_zero (ms_UpdatedAt m), mp_ErrorList = ms_ErrorList m\<rparr>"

definition ProtoToSystemMigrationStatus :: "migration_status_proto \<Rightarrow> migration_status" where
  "ProtoToSystemMigrationStatus p =
     \<lparr>ms_Running = mp_Running p, ms_Total = mp_Total p, ms_Completed = mp_Completed p,
      ms_Errors = mp_Errors p, ms_StartedAt = time_or_zero (mp_StartedAtUnix p),
      ms_UpdatedAt = time_or_zero (mp_UpdatedAtUnix p), ms_ErrorList = mp_ErrorList p\<rparr>"

section \<open>What survives a round trip\<close>

text \<open>Times lose their fraction of a second, and a plain time in the second of the Unix epoch is taken
  for the zero time; counters keep their low 32 bits; nil maps become empty.\<close>

definition whole_seconds :: "gotime \<Rightarrow> gotime" where
  "whole_seconds t = t - t mod 1000000000"

definition stored_time :: "gotime \<Rightarrow> gotime" where
  "stored_time t = (if t_Unix t = 0 then 0 else whole_seconds t)"

definition stored_file :: "sfile \<Rightarrow> sfile" where
  "stored_file f = f\<lparr>fi_AddedOn := stored_time (fi_AddedOn f)\<rparr>"

definition stored_provider :: "provider_entry \<Rightarrow> provider_entry" where
  "stored_provider p =
     p\<lparr>pe_AddedAt := stored_time (pe_AddedAt p), pe_RemovedAt := map_option whole_seconds (pe_RemovedAt p),
       pe_Files := Some (mget (pe_Files p)),
       pe_DownloadedAt := map_option whole_seconds (pe_DownloadedAt p)\<rparr>"

definition stored_entry :: "entry \<Rightarrow> entry" where
  "stored_entry e =
     e\<lparr>en_Providers := Some (fmmap stored_provider (mget (en_Providers e))),
       en_Files := Some (fmmap stored_file (mget (en_Files e))),
       en_Seeders := i32 (en_Seeders e), en_ErrorCount := i32 (en_ErrorCount e),
       en_AddedOn := stored_time (en_AddedOn e), en_CreatedAt := stored_time (en_CreatedAt e),
       en_UpdatedAt := stored_time (en_UpdatedAt e),
       en_CompletedAt := map_option whole_seconds (en_CompletedAt e),
       en_ImportedAt := map_option whole_seconds (en_ImportedAt e),
       en_LastErrorTime := map_option whole_seconds (en_LastErrorTime e)\<rparr>"

definition stored_item :: "entry_item \<Rightarrow> entry_item" where
  "stored_item i = i\<lparr>it_Files := Some (fmmap stored_file (mget (it_Files i)))\<rparr>"

lemma stored_time_unix [simp]: "time_or_zero (unix_or_zero t) = stored_time t"
  by (simp add: time_or_zero_def unix_or_zero_def stored_time_def time_IsZero_def whole_seconds_def
      time_Unix_floor)

lemma stored_ptr_unix [simp]: "time_ptr (\<exists>y. t = Some y) (unix_ptr t) = map_option whole_seconds t"
  by (cases t) (simp_all add: time_ptr_def unix_ptr_def whole_seconds_def time_Unix_floor)

lemma whole_seconds_idem [simp]: "whole_seconds (whole_seconds t) = whole_seconds t"
  by (simp add: whole_seconds_def minus_mod_eq_mult_div)

lemma stored_time_idem [simp]: "stored_time (stored_time t) = stored_time t"
  by (simp add: stored_time_def t_Unix_def whole_seconds_def minus_mod_eq_mult_div)

lemma i32_idem [simp]: "i32 (i32 x) = i32 x"
  by (simp add: i32_def mod_simps)

lemma file_roundtrip: "protoToFile \<circ> fileToProto = stored_file"
  by (rule ext, rule sfile.equality)
    (simp_all add: protoToFile_def fileToProto_def stored_file_def split: option.split)

lemma provider_file_roundtrip: "protoToProviderFile \<circ> providerFileToProto = id"
  by (rule ext) (simp add: protoToProviderFile_def providerFileToProto_def)

lemma provider_roundtrip: "protoToProviderEntry \<circ> providerEntryToProto = stored_provider"
  by (rule ext, rule provider_entry.equality)
    (simp_all add: protoToProviderEntry_def providerEntryToProto_def stored_provider_def fmap.map_comp
      provider_file_roundtrip fmap.map_id)

lemma stored_file_idem: "stored_file \<circ> stored_file = stored_file"
  by (rule ext) (simp add: stored_file_def)

lemma map_option_idem: "(\<And>x. f (f x) = f x) \<Longrightarrow> map_option f (map_option f y) = map_option f y"
  by (cases y) simp_all

lemmas stored_idem = whole_seconds_idem stored_time_idem i32_idem map_option_idem [of whole_seconds]

lemma stored_provider_idem: "stored_provider \<circ> stored_provider = stored_provider"
  by (rule ext) (simp add: stored_provider_def stored_idem)

lemma item_roundtrip: "ProtoToEntryItem (EntryItemToProto i) = stored_item i"
  by (rule entry_item.equality)
    (simp_all add: ProtoToEntryItem_def EntryItemToProto_def stored_item_def fmap.map_comp file_roundtrip)

lemma entry_roundtrip: "ProtoToEntry (EntryToProto e) = stored_entry e"
  by (rule entry.equality)
    (simp_all add: ProtoToEntry_def EntryToProto_def stored_entry_def fmap.map_comp file_roundtrip
      provider_roundtrip)

lemma stored_entry_idem: "stored_entry (stored_entry e) = stored_entry e"
  by (rule entry.equality)
    (simp_all add: stored_entry_def fmap.map_comp stored_file_idem stored_provider_idem stored_idem)

text \<open>A time that loses nothing is a whole second other than the epoch, or the zero time.\<close>

definition time_exact :: "gotime \<Rightarrow> bool" where
  "time_exact t \<longleftrightarrow> t = 0 \<or> t mod 1000000000 = 0 \<and> t_Unix t \<noteq> 0"

lemma stored_time_exact: "stored_time t = t \<longleftrightarrow> time_exact t"
  by (auto simp: stored_time_def time_exact_def whole_seconds_def)

lemma switcher_roundtrip:
  "ProtoToSwitcherJob (SwitcherJobToProto j) =
     j\<lparr>sj_CreatedAt := stored_time (sj_CreatedAt j),
       sj_CompletedAt := map_option whole_seconds (sj_CompletedAt j)\<rparr>"
  by (rule switcher_job.equality) (simp_all add: ProtoToSwitcherJob_def SwitcherJobToProto_def)

lemma migration_roundtrip:
  "ProtoToSystemMigrationStatus (SystemMigrationStatusToProto m) =
     m\<lparr>ms_Total := i32 (ms_Total m), ms_Completed := i32 (ms_Completed m), ms_Errors := i32 (ms_Errors m),
       ms_StartedAt := stored_time (ms_StartedAt m), ms_UpdatedAt := stored_time (ms_UpdatedAt m)\<rparr>"
  by (rule migration_status.equality)
    (simp_all add: ProtoToSystemMigrationStatus_def SystemMigrationStatusToProto_def)

text \<open>The job message has no field for the schedule, the strategy, the number of workers, the unique key,
  the mode, the stage, the statistics and the actions: they are lost.\<close>

lemma job_roundtrip:
  "ProtoToJob (JobToProto j) =
     j\<lparr>j_StartedAt := stored_time (j_StartedAt j), j_CompletedAt := stored_time (j_CompletedAt j),
       j_FailedAt := stored_time (j_FailedAt j),
       j_BrokenItems := Some (fmmap (map content_file_proto) (mget (j_BrokenItems j))),
       j_Schedule := [], j_Strategy := [], j_Workers := 0, j_UpdatedAt := 0, j_UniqueKey := [],
       j_Mode := [], j_Stage := [], j_Stats := zero_repair_stats, j_Actions := []\<rparr>"
  by (rule repair_job.equality) (simp_all add: ProtoToJob_def JobToProto_def)

section \<open>Properties\<close>

text \<open>C21. Storing an entry as its message and reading it back gives the entry with its times cut to
  whole seconds and its counters to 32 bits, and nothing else changed; storing it again loses
  nothing more; and a plain time survives exactly when it is the zero time or a whole second other
  than the Unix epoch.\<close>

theorem entry_codec_roundtrip:
  "ProtoToEntry (EntryToProto e) = stored_entry e
   \<and> ProtoToEntry (EntryToProto (ProtoToEntry (EntryToProto e))) = ProtoToEntry (EntryToProto e)
   \<and> (en_AddedOn (ProtoToEntry (EntryToProto e)) = en_AddedOn e \<longleftrightarrow> time_exact (en_AddedOn e))
   \<and> ProtoToEntryItem (EntryItemToProto i) = stored_item i"
proof -
  have "en_AddedOn (stored_entry e) = stored_time (en_AddedOn e)" by (simp add: stored_entry_def)
  then show ?thesis by (simp add: entry_roundtrip item_roundtrip stored_entry_idem stored_time_exact)
qed

end
