(* ===== verification/Entry_Storage.thy ===== *)
theory Entry_Storage
  imports Hybrid_Store Entry_Proto
begin

text \<open>
  The persistence layer of \<open>pkg/storage\<close> (\<open>storage.go\<close>, \<open>entry.go\<close>, \<open>items.go\<close>) over five stores of
  the engine: the entries, the queue, the index of entries by folder, and the two stores of repair
  jobs. How protobuf writes a message as bytes, the configured folder naming and the order of
  \<open>range\<close> loops are the parameters \<open>env\<close>; \<open>time.Now()\<close> is an argument. The stores keep their files
  apart, so each carries its own part of the file system. Iterations whose callbacks only look at the
  records are folds over the store's \<open>ForEach\<close>.
\<close>

section \<open>State\<close>

record env =
  marshalEntry :: "entry_proto \<Rightarrow> byte list option"
  unmarshalEntry :: "byte list \<Rightarrow> entry_proto option"
  marshalItem :: "entry_item_proto \<Rightarrow> byte list option"
  unmarshalItem :: "byte list \<Rightarrow> entry_item_proto option"
  marshalStatus :: "migration_status_proto \<Rightarrow> byte list option"
  unmarshalStatus :: "byte list \<Rightarrow> migration_status_proto option"
  naming :: folder_naming
  order :: map_order

record storage =
  st_entries :: store
  st_queue :: store
  st_items :: store
  st_repairJobs :: store
  st_repairKeys :: store

datatype st_error =
    MarshalFailed
  | UnmarshalFailed
  | InStore store_error
  | CreateStoreFailed gostring store_error
  | CloseFailed "store_error list"
  | CopyFailed string store_error

text \<open>What protobuf promises: a message that can be written reads back as itself.\<close>

definition codec_ok :: "env \<Rightarrow> bool" where
  "codec_ok env \<longleftrightarrow>
     (\<forall>x d. marshalEntry env x = Some d \<longrightarrow> unmarshalEntry env d = Some x)
     \<and> (\<forall>x d. marshalItem env x = Some d \<longrightarrow> unmarshalItem env d = Some x)
     \<and> (\<forall>x d. marshalStatus env x = Some d \<longrightarrow> unmarshalStatus env d = Some x)"

definition GetFolder :: "env \<Rightarrow> entry \<Rightarrow> gostring" where
  "GetFolder env e = GetTorrentFolder (naming env) e"

definition entry_meta :: "env \<Rightarrow> entry \<Rightarrow> EntryMeta" where
  "entry_meta env e =
     \<lparr>mCategory = en_Category e, mProvider = en_ActiveProvider e, mStatus = en_Status e,
      mName = GetFolder env e, mTotalSize = en_Size e, mProtocol = en_Protocol e, mBad = en_Bad e,
      mAddedOn = t_Unix (en_AddedOn e)\<rparr>"

definition decode_entry :: "env \<Rightarrow> byte list \<Rightarrow> entry option" where
  "decode_entry env d = map_option ProtoToEntry (unmarshalEntry env d)"

definition decode_item :: "env \<Rightarrow> byte list \<Rightarrow> entry_item option" where
  "decode_item env d = map_option ProtoToEntryItem (unmarshalItem env d)"

section \<open>The folder index\<close>

text \<open>A file of the entry replaces the one listed under its name when it is newer, or as old but of
  another size.\<close>

definition item_replaces :: "sfile \<Rightarrow> sfile \<Rightarrow> bool" where
  "item_replaces old f \<longleftrightarrow>
     fi_AddedOn old < fi_AddedOn f \<or> (fi_AddedOn f = fi_AddedOn old \<and> fi_Size f \<noteq> fi_Size old)"

definition merge_item_files :: "sfile gomap \<Rightarrow> sfile gomap \<Rightarrow> sfile gomap" where
  "merge_item_files listed mine =
     Some (mget listed ++\<^sub>f fmfilter (\<lambda>k. case mlookup listed k of
        None \<Rightarrow> True
      | Some old \<Rightarrow> (case mlookup mine k of None \<Rightarrow> False | Some f \<Rightarrow> item_replaces old f)) (mget mine))"

definition listed_item :: "env \<Rightarrow> gostring \<Rightarrow> store_error + byte list \<Rightarrow> entry_item" where
  "listed_item env name r =
     (case r of
        Inl _ \<Rightarrow> \<lparr>it_Name = name, it_Files = Some fmempty, it_Size = 0\<rparr>
      | Inr data \<Rightarrow>
          (case decode_item env data of
             None \<Rightarrow> \<lparr>it_Name = name, it_Files = Some fmempty, it_Size = 0\<rparr>
           | Some item \<Rightarrow> item))"

definition updateEntryItem :: "env \<Rightarrow> storage \<Rightarrow> entry \<Rightarrow> storage" where
  "updateEntryItem env st e =
     (let name = GetFolder env e
      in if name = [] then st
         else case store_Get (st_items st) name of
           (r, items1) \<Rightarrow>
             let item0 = listed_item env name r;
                 item1 = item0\<lparr>it_Files := merge_item_files (it_Files item0) (en_Files e)\<rparr>;
                 item2 = item1\<lparr>it_Size := item_GetSize (order env) item1\<rparr>
             in case marshalItem env (EntryItemToProto item2) of
                  None \<Rightarrow> st\<lparr>st_items := items1\<rparr>
                | Some data \<Rightarrow> st\<lparr>st_items := snd (store_Put items1 name data None)\<rparr>)"

definition removeFromEntryItem :: "env \<Rightarrow> storage \<Rightarrow> entry \<Rightarrow> storage" where
  "removeFromEntryItem env st e =
     (let name = GetFolder env e
      in if name = [] then st
         else case store_Get (st_items st) name of
           (Inl _, items1) \<Rightarrow> st\<lparr>st_items := items1\<rparr>
         | (Inr data, items1) \<Rightarrow>
             (case decode_item env data of
                None \<Rightarrow> st\<lparr>st_items := items1\<rparr>
              | Some item \<Rightarrow>
                  let item1 = item\<lparr>it_Files := Some (fmfilter (\<lambda>k. \<not> (mlookup (en_Files e) k \<noteq> None
                        \<and> (case mlookup (it_Files item) k of None \<Rightarrow> False
                            | Some f \<Rightarrow> fi_InfoHash f = en_InfoHash e))) (mget (it_Files item)))\<rparr>
                  in if mlen (it_Files item1) = 0
                     then st\<lparr>st_items := snd (store_Delete items1 name)\<rparr>
                     else
                       let item2 = item1\<lparr>it_Size := item_GetSize (order env) item1\<rparr>
                       in case marshalItem env (EntryItemToProto item2) of
                            None \<Rightarrow> st\<lparr>st_items := items1\<rparr>
                          | Some d \<Rightarrow> st\<lparr>st_items := snd (store_Put items1 name d None)\<rparr>))"

definition UpdateItem :: "env \<Rightarrow> storage \<Rightarrow> entry_item \<Rightarrow> st_error option \<times> storage" where
  "UpdateItem env st item =
     (case marshalItem env (EntryItemToProto item) of
        None \<Rightarrow> (Some MarshalFailed, st)
      | Some data \<Rightarrow>
          (case store_Put (st_items st) (it_Name item) data None of
             (r, items1) \<Rightarrow> (map_option InStore r, st\<lparr>st_items := items1\<rparr>)))"

definition GetEntryItem :: "env \<Rightarrow> storage \<Rightarrow> gostring \<Rightarrow> (st_error + entry_item) \<times> storage" where
  "GetEntryItem env st name =
     (case store_Get (st_items st) name of
        (Inl e, items1) \<Rightarrow> (Inl (InStore e), st\<lparr>st_items := items1\<rparr>)
      | (Inr data, items1) \<Rightarrow>
          (case decode_item env data of
             None \<Rightarrow> (Inl UnmarshalFailed, st\<lparr>st_items := items1\<rparr>)
           | Some item \<Rightarrow> (Inr item, st\<lparr>st_items := items1\<rparr>)))"

definition GetEntryItems :: "storage \<Rightarrow> gostring set" where
  "GetEntryItems st = snd (store_ForEachMeta (st_items st) (\<lambda>k m s. (None, insert k s)) {})"

section \<open>Entries\<close>

definition AddOrUpdate :: "env \<Rightarrow> gotime \<Rightarrow> storage \<Rightarrow> entry \<Rightarrow> st_error option \<times> storage \<times> entry" where
  "AddOrUpdate env now st e =
     (let e1 = e\<lparr>en_UpdatedAt := now\<rparr>;
          st1 = updateEntryItem env st e1
      in case marshalEntry env (EntryToProto e1) of
           None \<Rightarrow> (Some MarshalFailed, st1, e1)
         | Some data \<Rightarrow>
             (case store_Put (st_entries st1) (en_InfoHash e1) data (Some (entry_meta env e1)) of
                (r, s') \<Rightarrow> (map_option InStore r, st1\<lparr>st_entries := s'\<rparr>, e1)))"

fun BatchAddOrUpdate :: "env \<Rightarrow> (entry \<times> gotime) list \<Rightarrow> storage \<Rightarrow> st_error option \<times> storage" where
  "BatchAddOrUpdate env [] st = (None, st)"
| "BatchAddOrUpdate env ((e, now) # es) st =
     (case AddOrUpdate env now st e of
        (Some err, st1, _) \<Rightarrow> (Some err, st1)
      | (None, st1, _) \<Rightarrow> BatchAddOrUpdate env es st1)"

definition entry_Exists :: "storage \<Rightarrow> gostring \<Rightarrow> bool" where
  "entry_Exists st infohash = store_Exists (st_entries st) infohash"

definition get_entry_from :: "env \<Rightarrow> store \<Rightarrow> gostring \<Rightarrow> (st_error + entry) \<times> store" where
  "get_entry_from env s key =
     (case store_Get s key of
        (Inl e, s1) \<Rightarrow> (Inl (InStore e), s1)
      | (Inr data, s1) \<Rightarrow>
          (case decode_entry env data of
             None \<Rightarrow> (Inl UnmarshalFailed, s1)
           | Some e \<Rightarrow> (Inr e, s1)))"

definition entry_Get :: "env \<Rightarrow> storage \<Rightarrow> gostring \<Rightarrow> (st_error + entry) \<times> storage" where
  "entry_Get env st infohash =
     (case get_entry_from env (st_entries st) infohash of (r, s1) \<Rightarrow> (r, st\<lparr>st_entries := s1\<rparr>))"

text \<open>The callback of the iterations that collect the entries a filter accepts.\<close>

definition collect :: "env \<Rightarrow> (entry \<Rightarrow> bool) option \<Rightarrow> gostring \<Rightarrow> byte list \<Rightarrow> entry list \<Rightarrow> entry list" where
  "collect env flt key value acc =
     (case decode_entry env value of
        None \<Rightarrow> acc
      | Some e \<Rightarrow> if flt = None \<or> the flt e then acc @ [e] else acc)"

definition entry_List :: "env \<Rightarrow> storage \<Rightarrow> (entry \<Rightarrow> bool) option \<Rightarrow> store_error option \<times> entry list \<times> storage" where
  "entry_List env st flt =
     (case store_ForEach (st_entries st) (\<lambda>k v (c, s). (None, collect env flt k v c, s)) [] of
        (e, es, s1) \<Rightarrow> (e, es, st\<lparr>st_entries := s1\<rparr>))"

text \<open>A callback that works on its own state \<open>c\<close>.\<close>

definition entry_ForEach ::
  "env \<Rightarrow> storage \<Rightarrow> (entry \<Rightarrow> 'c \<Rightarrow> store_error option \<times> 'c) \<Rightarrow> 'c \<Rightarrow> store_error option \<times> 'c \<times> storage" where
  "entry_ForEach env st fn c0 =
     (case store_ForEach (st_entries st)
         (\<lambda>k v (c, s). case decode_entry env v of
             None \<Rightarrow> (None, c, s)
           | Some e \<Rightarrow> (case fn e c of (r, c') \<Rightarrow> (r, c', s))) c0 of
        (r, c, s1) \<Rightarrow> (r, c, st\<lparr>st_entries := s1\<rparr>))"

definition ForEachBatch ::
  "env \<Rightarrow> storage \<Rightarrow> int \<Rightarrow> (entry list \<Rightarrow> 'c \<Rightarrow> store_error option \<times> 'c) \<Rightarrow> 'c
     \<Rightarrow> store_error option \<times> 'c \<times> storage" where
  "ForEachBatch env st batchSize fn c0 =
     (case store_ForEach (st_entries st)
         (\<lambda>k v ((batch, c), s). case decode_entry env v of
             None \<Rightarrow> (None, (batch, c), s)
           | Some e \<Rightarrow>
               let batch1 = batch @ [e]
               in if batchSize \<le> int (length batch1) then
                    (case fn batch1 c of
                       (Some err, c') \<Rightarrow> (Some err, (batch1, c'), s)
                     | (None, c') \<Rightarrow> (None, ([], c'), s))
                  else (None, (batch1, c), s)) ([], c0) of
        (r, (batch, c), s1) \<Rightarrow>
          if r = None \<and> batch \<noteq> [] then (case fn batch c of (r', c') \<Rightarrow> (r', c', st\<lparr>st_entries := s1\<rparr>))
          else (r, c, st\<lparr>st_entries := s1\<rparr>))"

record entry_meta_info =
  mi_InfoHash :: gostring
  mi_Name :: gostring
  mi_Size :: int
  mi_AddedOn :: gotime
  mi_Provider :: gostring
  mi_Protocol :: gostring
  mi_Bad :: bool

definition meta_info :: "gostring \<Rightarrow> index_entry \<Rightarrow> entry_meta_info" where
  "meta_info key m =
     \<lparr>mi_InfoHash = key, mi_Name = Name m, mi_Size = TotalSize m, mi_AddedOn = time_Unix (AddedOn m),
      mi_Provider = Provider m, mi_Protocol = Protocol m, mi_Bad = Bad m\<rparr>"

definition entry_ForEachMeta ::
  "storage \<Rightarrow> (entry_meta_info \<Rightarrow> 'c \<Rightarrow> store_error option \<times> 'c) \<Rightarrow> 'c \<Rightarrow> store_error option \<times> 'c" where
  "entry_ForEachMeta st fn c0 = store_ForEachMeta (st_entries st) (\<lambda>k m. fn (meta_info k m)) c0"

text \<open>The keys that \<open>MigrateMetadata\<close> re-saves, and the loop; \<open>clock\<close> gives the time of each save.\<close>

definition keys_to_migrate :: "storage \<Rightarrow> gostring list" where
  "keys_to_migrate st =
     snd (store_ForEachMeta (st_entries st)
       (\<lambda>k m ks. if HasPrefix k [95, 95] then (None, ks)
                 else if Protocol m = [] then (None, ks @ [k]) else (None, ks)) [])"

fun migrate_loop :: "env \<Rightarrow> (gostring \<Rightarrow> gotime) \<Rightarrow> gostring list \<Rightarrow> nat \<Rightarrow> storage \<Rightarrow> nat \<times> storage" where
  "migrate_loop env clock [] n st = (n, st)"
| "migrate_loop env clock (k # ks) n st =
     (case entry_Get env st k of
        (Inl _, st1) \<Rightarrow> migrate_loop env clock ks n st1
      | (Inr e, st1) \<Rightarrow>
          (case AddOrUpdate env (clock k) st1 e of
             (Some _, st2, _) \<Rightarrow> migrate_loop env clock ks n st2
           | (None, st2, _) \<Rightarrow> migrate_loop env clock ks (Suc n) st2))"

definition MigrateMetadata :: "env \<Rightarrow> (gostring \<Rightarrow> gotime) \<Rightarrow> storage \<Rightarrow> nat \<times> storage" where
  "MigrateMetadata env clock st = migrate_loop env clock (keys_to_migrate st) 0 st"

definition entry_Delete :: "env \<Rightarrow> storage \<Rightarrow> gostring \<Rightarrow> store_error option \<times> storage" where
  "entry_Delete env st infohash =
     (case entry_Get env st infohash of
        (r, st1) \<Rightarrow>
          let st2 = (case r of Inl _ \<Rightarrow> st1 | Inr e \<Rightarrow> removeFromEntryItem env st1 e)
          in case store_Delete (st_entries st2) infohash of
               (err, s') \<Rightarrow> (err, st2\<lparr>st_entries := s'\<rparr>))"

definition entry_Count :: "storage \<Rightarrow> nat" where
  "entry_Count st = store_Len (st_entries st)"

section \<open>The queue\<close>

definition UpdateQueue :: "env \<Rightarrow> gotime \<Rightarrow> storage \<Rightarrow> entry \<Rightarrow> st_error option \<times> storage \<times> entry" where
  "UpdateQueue env now st e =
     (let e1 = e\<lparr>en_UpdatedAt := now\<rparr>
      in case marshalEntry env (EntryToProto e1) of
           None \<Rightarrow> (Some MarshalFailed, st, e1)
         | Some data \<Rightarrow>
             (case store_Put (st_queue st) (ToLower (en_InfoHash e1)) data (Some (entry_meta env e1)) of
                (r, q) \<Rightarrow> (map_option InStore r, st\<lparr>st_queue := q\<rparr>, e1)))"

definition AddQueue :: "env \<Rightarrow> gotime \<Rightarrow> gotime \<Rightarrow> storage \<Rightarrow> entry \<Rightarrow> st_error option \<times> storage \<times> entry" where
  "AddQueue env now now' st e = UpdateQueue env now' st (e\<lparr>en_CreatedAt := now\<rparr>)"

definition GetQueued :: "env \<Rightarrow> storage \<Rightarrow> gostring \<Rightarrow> (st_error + entry) \<times> storage" where
  "GetQueued env st infohash =
     (case get_entry_from env (st_queue st) (ToLower infohash) of (r, q) \<Rightarrow> (r, st\<lparr>st_queue := q\<rparr>))"

text \<open>\<open>DeleteQueued\<close> also returns the entry it hands to a cleanup, whose error is ignored.\<close>

definition DeleteQueued :: "env \<Rightarrow> storage \<Rightarrow> gostring \<Rightarrow> bool \<Rightarrow> store_error option \<times> entry option \<times> storage" where
  "DeleteQueued env st infohash has_cleanup =
     (let key = ToLower infohash;
          (cleaned, st1) =
            (if has_cleanup then
               (case GetQueued env st key of (Inr e, st1) \<Rightarrow> (Some e, st1) | (Inl _, st1) \<Rightarrow> (None, st1))
             else (None, st))
      in case store_Delete (st_queue st1) key of
           (err, q) \<Rightarrow> (err, cleaned, st1\<lparr>st_queue := q\<rparr>))"

definition FilterQueued :: "env \<Rightarrow> storage \<Rightarrow> (entry \<Rightarrow> bool) option \<Rightarrow> entry list \<times> storage" where
  "FilterQueued env st flt =
     (case store_ForEach (st_queue st) (\<lambda>k v (c, s). (None, collect env flt k v c, s)) [] of
        (_, es, q) \<Rightarrow> (es, st\<lparr>st_queue := q\<rparr>))"

definition collect_keys ::
  "env \<Rightarrow> (entry \<Rightarrow> bool) option \<Rightarrow> gostring \<Rightarrow> byte list \<Rightarrow> (gostring \<times> entry) list \<Rightarrow> (gostring \<times> entry) list" where
  "collect_keys env flt key value acc =
     (case decode_entry env value of
        None \<Rightarrow> acc
      | Some e \<Rightarrow> if flt = None \<or> the flt e then acc @ [(key, e)] else acc)"

text \<open>The entries handed to the cleanup, in order, are returned.\<close>

definition DeleteWhereQueued :: "env \<Rightarrow> storage \<Rightarrow> (entry \<Rightarrow> bool) option \<Rightarrow> entry list \<times> storage" where
  "DeleteWhereQueued env st predicate =
     (case store_ForEach (st_queue st) (\<lambda>k v (c, s). (None, collect_keys env predicate k v c, s)) [] of
        (_, found, q) \<Rightarrow>
          (map snd found, st\<lparr>st_queue := fold (\<lambda>k s. snd (store_Delete s k)) (map fst found) q\<rparr>))"

definition collect_updates ::
  "env \<Rightarrow> (entry \<Rightarrow> bool) option \<Rightarrow> (entry \<Rightarrow> bool \<times> entry) option \<Rightarrow> gostring \<Rightarrow> byte list \<Rightarrow> entry list \<Rightarrow> entry list" where
  "collect_updates env flt upd key value acc =
     (case decode_entry env value of
        None \<Rightarrow> acc
      | Some e \<Rightarrow>
          if flt = None \<or> the flt e then
            (case upd of
               None \<Rightarrow> acc
             | Some f \<Rightarrow> (case f e of (changed, e') \<Rightarrow> if changed then acc @ [e'] else acc))
          else acc)"

definition UpdateWhereQueued ::
  "env \<Rightarrow> gotime \<Rightarrow> storage \<Rightarrow> (entry \<Rightarrow> bool) option \<Rightarrow> (entry \<Rightarrow> bool \<times> entry) option \<Rightarrow> storage" where
  "UpdateWhereQueued env now st flt upd =
     (case store_ForEach (st_queue st) (\<lambda>k v (c, s). (None, collect_updates env flt upd k v c, s)) [] of
        (_, es, q) \<Rightarrow> fold (\<lambda>e st. fst (snd (UpdateQueue env now st e))) es (st\<lparr>st_queue := q\<rparr>))"

section \<open>The whole storage\<close>

definition storeNames :: "gostring list" where
  "storeNames = map gs [''entries'', ''queue'', ''items'', ''repair_jobs'', ''repair_keys'']"

fun createItemStores ::
  "gostring list \<Rightarrow> gostring \<Rightarrow> config \<Rightarrow> filesys \<Rightarrow> st_error + (gostring \<times> store) list" where
  "createItemStores [] baseDir cfg fs = Inr []"
| "createItemStores (name # names) baseDir cfg fs =
     (case store_New (cfg\<lparr>DataPath := path_Join baseDir (name @ gs ''.db'')\<rparr>) fs of
        Inl (e, _) \<Rightarrow> Inl (CreateStoreFailed name e)
      | Inr s \<Rightarrow>
          (case createItemStores names baseDir cfg fs of
             Inl e \<Rightarrow> Inl e
           | Inr ss \<Rightarrow> Inr ((name, s) # ss)))"

definition storage_stores :: "storage \<Rightarrow> store list" where
  "storage_stores st = [st_entries st, st_queue st, st_items st, st_repairJobs st, st_repairKeys st]"

definition storage_Close :: "storage \<Rightarrow> st_error option \<times> storage" where
  "storage_Close st =
     (let errs = concat (map (\<lambda>s. case store_Close s of (Some e, _) \<Rightarrow> [e] | (None, _) \<Rightarrow> []) (storage_stores st));
          st1 = \<lparr>st_entries = snd (store_Close (st_entries st)), st_queue = snd (store_Close (st_queue st)),
                 st_items = snd (store_Close (st_items st)),
                 st_repairJobs = snd (store_Close (st_repairJobs st)),
                 st_repairKeys = snd (store_Close (st_repairKeys st))\<rparr>
      in (if errs \<noteq> [] then Some (CloseFailed errs) else None, st1))"

definition storage_DiskSize :: "storage \<Rightarrow> int" where
  "storage_DiskSize st = fold (\<lambda>s size. i64 (size + int (DiskSize s))) (storage_stores st) 0"

definition migration_key :: gostring where
  "migration_key = gs ''__migration_status__''"

definition SaveMigrationStatus :: "env \<Rightarrow> storage \<Rightarrow> migration_status \<Rightarrow> st_error option \<times> storage" where
  "SaveMigrationStatus env st status =
     (case marshalStatus env (SystemMigrationStatusToProto status) of
        None \<Rightarrow> (Some MarshalFailed, st)
      | Some data \<Rightarrow>
          (case store_Put (st_entries st) migration_key data None of
             (r, s1) \<Rightarrow> (map_option InStore r, st\<lparr>st_entries := s1\<rparr>)))"

definition GetMigrationStatus :: "env \<Rightarrow> storage \<Rightarrow> (st_error + migration_status) \<times> storage" where
  "GetMigrationStatus env st =
     (case store_Get (st_entries st) migration_key of
        (Inl e, s1) \<Rightarrow> (Inl (InStore e), st\<lparr>st_entries := s1\<rparr>)
      | (Inr data, s1) \<Rightarrow>
          (case unmarshalStatus env data of
             None \<Rightarrow> (Inl UnmarshalFailed, st\<lparr>st_entries := s1\<rparr>)
           | Some pb \<Rightarrow> (Inr (ProtoToSystemMigrationStatus pb), st\<lparr>st_entries := s1\<rparr>)))"

text \<open>One of the five loops of \<open>copyFrom\<close>: the records of \<open>src\<close> are put into \<open>dst\<close>, without metadata.\<close>

definition copy_store :: "store \<Rightarrow> store \<Rightarrow> store_error option \<times> store \<times> store" where
  "copy_store src dst =
     store_ForEach src
       (\<lambda>k v (dst, src). case store_Put dst k v None of (r, dst') \<Rightarrow> (r, dst', src)) dst"

text \<open>The five loops, each of which ends the copy with its error.\<close>

definition copy_step ::
  "string \<Rightarrow> (storage \<Rightarrow> store) \<Rightarrow> (store \<Rightarrow> storage \<Rightarrow> storage) \<Rightarrow>
   st_error option \<times> storage \<times> storage \<Rightarrow> st_error option \<times> storage \<times> storage" where
  "copy_step what sel upd r =
     (case r of
        (Some e, st, other) \<Rightarrow> (Some e, st, other)
      | (None, st, other) \<Rightarrow>
          (case copy_store (sel other) (sel st) of
             (err, dst, src) \<Rightarrow> (map_option (CopyFailed what) err, upd dst st, upd src other)))"

definition copyFrom :: "storage \<Rightarrow> storage \<Rightarrow> st_error option \<times> storage \<times> storage" where
  "copyFrom st other =
     copy_step ''repair keys'' st_repairKeys (\<lambda>s st. st\<lparr>st_repairKeys := s\<rparr>)
       (copy_step ''repair jobs'' st_repairJobs (\<lambda>s st. st\<lparr>st_repairJobs := s\<rparr>)
         (copy_step ''entry items'' st_items (\<lambda>s st. st\<lparr>st_items := s\<rparr>)
           (copy_step ''queue'' st_queue (\<lambda>s st. st\<lparr>st_queue := s\<rparr>)
             (copy_step ''entries'' st_entries (\<lambda>s st. st\<lparr>st_entries := s\<rparr>) (None, st, other)))))"

section \<open>What the stores stand for\<close>

definition decoded :: "(byte list \<Rightarrow> 'a option) \<Rightarrow> store \<Rightarrow> gostring \<Rightarrow> 'a option" where
  "decoded dec s k = (case store_abs s k of None \<Rightarrow> None | Some x \<Rightarrow> dec (fst x))"

definition entry_view :: "env \<Rightarrow> storage \<Rightarrow> gostring \<Rightarrow> entry option" where
  "entry_view env st = decoded (decode_entry env) (st_entries st)"

definition queue_view :: "env \<Rightarrow> storage \<Rightarrow> gostring \<Rightarrow> entry option" where
  "queue_view env st = decoded (decode_entry env) (st_queue st)"

definition item_view :: "env \<Rightarrow> storage \<Rightarrow> gostring \<Rightarrow> entry_item option" where
  "item_view env st = decoded (decode_item env) (st_items st)"

lemma decode_entry_marshal:
  "codec_ok env \<Longrightarrow> marshalEntry env (EntryToProto e) = Some d \<Longrightarrow> decode_entry env d = Some (stored_entry e)"
  by (simp add: codec_ok_def decode_entry_def entry_roundtrip)

lemma decode_item_marshal:
  "codec_ok env \<Longrightarrow> marshalItem env (EntryItemToProto i) = Some d \<Longrightarrow> decode_item env d = Some (stored_item i)"
  by (simp add: codec_ok_def decode_item_def item_roundtrip)

lemma decoded_put:
  assumes "store_up s" "put_fits k v m" "store_Put s k v m = (r, s')" "dec v = Some a"
  shows "store_up s' \<and> decoded dec s' = (if r = None then (decoded dec s)(k \<mapsto> a) else decoded dec s)"
  using kv.put_law[OF assms(1-3)] assms(4) by (auto simp: decoded_def fun_eq_iff)

lemma decoded_get:
  assumes "store_up s" "store_Get s k = (r, s')"
  shows "store_up s' \<and> decoded dec s' = decoded dec s
    \<and> decoded dec s k = (case r of Inl _ \<Rightarrow> None | Inr d \<Rightarrow> dec d)
    \<and> (store_abs s k = None \<longleftrightarrow> (\<exists>e. r = Inl e))"
  using kv.get_law[OF assms] by (auto simp: decoded_def fun_eq_iff split: option.splits)

lemma decoded_delete:
  assumes "store_up s" "store_Delete s k = (r, s')"
  shows "store_up s' \<and> decoded dec s' = (if r = None then (decoded dec s)(k := None) else decoded dec s)"
  using kv.delete_any[OF assms] by (auto simp: decoded_def fun_eq_iff)

lemma get_entry_from_view:
  assumes "store_up s" "get_entry_from env s k = (r, s')"
  shows "store_up s' \<and> decoded (decode_entry env) s' = decoded (decode_entry env) s
    \<and> (case decoded (decode_entry env) s k of None \<Rightarrow> \<exists>e. r = Inl e | Some x \<Rightarrow> r = Inr x)"
proof -
  obtain q s1 where g: "store_Get s k = (q, s1)" by fastforce
  from decoded_get[OF assms(1) g, of "decode_entry env"] assms(2) g show ?thesis
    by (auto simp: get_entry_from_def split: sum.splits option.splits)
qed

lemma GetQueued_view:
  assumes "store_up (st_queue st)" "GetQueued env st h = (r, st')"
  shows "store_up (st_queue st') \<and> queue_view env st' = queue_view env st
    \<and> (case queue_view env st (ToLower h) of None \<Rightarrow> \<exists>e. r = Inl e | Some x \<Rightarrow> r = Inr x)"
proof -
  obtain q s1 where g: "get_entry_from env (st_queue st) (ToLower h) = (q, s1)" by fastforce
  with get_entry_from_view[OF assms(1) g] assms(2) show ?thesis
    by (auto simp: GetQueued_def queue_view_def)
qed

definition queue_fits :: "env \<Rightarrow> entry \<Rightarrow> bool" where
  "queue_fits env e \<longleftrightarrow> (\<forall>d. marshalEntry env (EntryToProto e) = Some d \<longrightarrow>
     put_fits (ToLower (en_InfoHash e)) d (Some (entry_meta env e)))"

lemma UpdateQueue_view:
  assumes "codec_ok env" "store_up (st_queue st)" "queue_fits env (e\<lparr>en_UpdatedAt := now\<rparr>)"
    and "UpdateQueue env now st e = (r, st', e')"
  shows "e' = e\<lparr>en_UpdatedAt := now\<rparr> \<and> store_up (st_queue st')
    \<and> queue_view env st' = (if r = None
         then (queue_view env st)(ToLower (en_InfoHash e) \<mapsto> stored_entry (e\<lparr>en_UpdatedAt := now\<rparr>))
         else queue_view env st)"
proof (cases "marshalEntry env (EntryToProto (e\<lparr>en_UpdatedAt := now\<rparr>))")
  case None
  with assms(2,4) show ?thesis by (auto simp: UpdateQueue_def)
next
  case (Some d)
  let ?e = "e\<lparr>en_UpdatedAt := now\<rparr>"
  obtain q s' where p: "store_Put (st_queue st) (ToLower (en_InfoHash ?e)) d (Some (entry_meta env ?e)) = (q, s')"
    by fastforce
  have "put_fits (ToLower (en_InfoHash ?e)) d (Some (entry_meta env ?e))"
    using assms(3) Some by (simp only: queue_fits_def)
  from decoded_put[OF assms(2) this p, of "decode_entry env", OF decode_entry_marshal[OF assms(1) Some]]
  show ?thesis using assms(4) Some p by (auto simp: UpdateQueue_def queue_view_def)
qed

text \<open>The listing behind the iterations: every record once, in the order of the disk.\<close>

definition live_records :: "store \<Rightarrow> (gostring \<times> byte list) list" where
  "live_records s = map (\<lambda>k. (k, fst (the (store_abs s k)))) (fst (KeysSortedByOffset (s_index s)))"

lemma live_records_exact:
  assumes "store_up s"
  shows "distinct (map fst (live_records s))"
    and "(k, v) \<in> set (live_records s) \<longleftrightarrow> (\<exists>m. store_abs s k = Some (v, m))"
proof -
  note l = store_ForEach_listing(2,3)[OF assms]
  show "distinct (map fst (live_records s))"
    using l(2) by (simp add: live_records_def comp_def)
  show "(k, v) \<in> set (live_records s) \<longleftrightarrow> (\<exists>m. store_abs s k = Some (v, m))"
    using l(1) by (auto simp: live_records_def image_iff dom_def)
qed

lemma ForEach_collects_records:
  assumes "store_up s"
  shows "case store_ForEach s (\<lambda>k v (c, s). (None, f k v c, s)) acc of
    (e, c, s') \<Rightarrow> e = None \<and> c = fold (\<lambda>(k, v). f k v) (live_records s) acc
      \<and> store_up s' \<and> store_abs s' = store_abs s \<and> DiskSize s' = DiskSize s
      \<and> fs_limit (s_fs s') = fs_limit (s_fs s)"
proof -
  have "fold (\<lambda>(k, v). f k v) (live_records s) acc
      = fold (\<lambda>k. f k (fst (the (store_abs s k)))) (fst (KeysSortedByOffset (s_index s))) acc"
    by (simp add: live_records_def fold_map comp_def)
  with store_ForEach_listing(1)[OF assms, of f acc] store_ForEach_log[of s f acc] show ?thesis
    by (auto simp: DiskSize_def log_Size_def split: prod.splits)
qed

definition matching :: "env \<Rightarrow> (entry \<Rightarrow> bool) option \<Rightarrow> (gostring \<times> byte list) list \<Rightarrow> (gostring \<times> entry) list" where
  "matching env flt rs =
     concat (map (\<lambda>(k, v). case decode_entry env v of
        None \<Rightarrow> []
      | Some e \<Rightarrow> if flt = None \<or> the flt e then [(k, e)] else []) rs)"

lemma collect_keys_fold:
  "fold (\<lambda>(k, v). collect_keys env flt k v) rs acc = acc @ matching env flt rs"
  by (induction rs arbitrary: acc) (auto simp: collect_keys_def matching_def split: option.split)

lemma collect_fold:
  "fold (\<lambda>(k, v). collect env flt k v) rs acc = acc @ map snd (matching env flt rs)"
  by (induction rs arbitrary: acc) (auto simp: collect_def matching_def split: option.split)

lemma matching_simps:
  "matching env flt [] = []"
  "matching env flt ((k, v) # rs) = (case decode_entry env v of None \<Rightarrow> []
     | Some e \<Rightarrow> if flt = None \<or> the flt e then [(k, e)] else []) @ matching env flt rs"
  by (simp_all add: matching_def)

lemma matching_keys: "distinct (map fst rs) \<Longrightarrow> distinct (map fst (matching env flt rs))
    \<and> set (map fst (matching env flt rs)) \<subseteq> set (map fst rs)"
proof (induction rs)
  case (Cons r rs)
  obtain k v where r: "r = (k, v)" by fastforce
  have "k \<notin> set (map fst (matching env flt rs))" using Cons r by auto
  with Cons r show ?case by (auto simp: matching_simps split: option.split)
qed (simp add: matching_simps)

lemma matching_exact:
  assumes "store_up s"
  shows "(k, e) \<in> set (matching env flt (live_records s)) \<longleftrightarrow>
    decoded (decode_entry env) s k = Some e \<and> (flt = None \<or> the flt e)"
proof -
  have "(k, e) \<in> set (matching env flt rs) \<longleftrightarrow>
      (\<exists>v. (k, v) \<in> set rs \<and> decode_entry env v = Some e) \<and> (flt = None \<or> the flt e)" for rs
    by (induction rs) (auto simp: matching_simps split: option.splits if_splits)
  then show ?thesis
    using live_records_exact(2)[OF assms, of k] by (auto simp: decoded_def split: option.split)
qed

section \<open>The folder index after an operation\<close>

lemma merge_item_files_lookup:
  "mlookup (merge_item_files a b) k =
     (case mlookup a k of
        None \<Rightarrow> mlookup b k
      | Some x \<Rightarrow> (case mlookup b k of None \<Rightarrow> Some x | Some y \<Rightarrow> Some (if item_replaces x y then y else x)))"
  by (auto simp: merge_item_files_def mlookup_mget fmdom_notI map_add_def split: option.split)

definition fresh_item :: "gostring \<Rightarrow> entry_item" where
  "fresh_item name = \<lparr>it_Name = name, it_Files = Some fmempty, it_Size = 0\<rparr>"

definition sized_item :: "env \<Rightarrow> entry_item \<Rightarrow> entry_item" where
  "sized_item env i = i\<lparr>it_Size := item_GetSize (order env) i\<rparr>"

definition indexed_item :: "env \<Rightarrow> entry_item option \<Rightarrow> entry \<Rightarrow> entry_item" where
  "indexed_item env old e =
     (let item = (case old of None \<Rightarrow> fresh_item (GetFolder env e) | Some i \<Rightarrow> i)
      in sized_item env (item\<lparr>it_Files := merge_item_files (it_Files item) (en_Files e)\<rparr>))"

text \<open>An item can be written: it has a message, the record fits and the disk has room for it.\<close>

definition item_saves :: "env \<Rightarrow> storage \<Rightarrow> gostring \<Rightarrow> entry_item \<Rightarrow> bool" where
  "item_saves env st name i \<longleftrightarrow>
     (\<exists>d. marshalItem env (EntryItemToProto i) = Some d \<and> put_fits name d None
        \<and> DiskSize (st_items st) + length (encode_item (name, Some (d, meta_or None)))
            \<le> fs_limit (s_fs (st_items st)))"

lemma item_write:
  assumes "codec_ok env" "store_up (st_items st)" "item_saves env st name i"
    and "store_Get (st_items st) name = (r, items1)"
  shows "\<exists>d. marshalItem env (EntryItemToProto i) = Some d
      \<and> store_up (snd (store_Put items1 name d None))
      \<and> decoded (decode_item env) (snd (store_Put items1 name d None))
          = (item_view env st)(name \<mapsto> stored_item i)"
proof -
  from assms(3) obtain d where d: "marshalItem env (EntryItemToProto i) = Some d" "put_fits name d None"
    and room: "DiskSize (st_items st) + length (encode_item (name, Some (d, meta_or None)))
        \<le> fs_limit (s_fs (st_items st))"
    by (auto simp: item_saves_def)
  from decoded_get[OF assms(2,4), of "decode_item env"]
  have up: "store_up items1" and v: "decoded (decode_item env) items1 = item_view env st"
    by (simp_all add: item_view_def)
  from Get_log[of "st_items st" name] assms(4)
  have "DiskSize items1 = DiskSize (st_items st)" "s_fs items1 = s_fs (st_items st)"
    by (simp_all add: DiskSize_def)
  then have room1: "DiskSize items1 + length (encode_item (name, Some (d, meta_or None))) \<le> fs_limit (s_fs items1)"
    using room by simp
  from Put_room[OF up d(2) room1] obtain s' where p: "store_Put items1 name d None = (None, s')" by blast
  from decoded_put[OF up d(2) p, of "decode_item env", OF decode_item_marshal[OF assms(1) d(1)]] v d(1) p
  show ?thesis by simp
qed

lemma listed_item_view:
  assumes "store_up (st_items st)" "store_Get (st_items st) name = (r, items1)"
  shows "listed_item env name r = (case item_view env st name of None \<Rightarrow> fresh_item name | Some i \<Rightarrow> i)"
  using decoded_get[OF assms, of "decode_item env"]
  by (auto simp: listed_item_def item_view_def fresh_item_def split: sum.splits option.splits)

lemma updateEntryItem_view:
  assumes "codec_ok env" "store_up (st_items st)" "GetFolder env e \<noteq> []"
    and "item_saves env st (GetFolder env e) (indexed_item env (item_view env st (GetFolder env e)) e)"
  shows "store_up (st_items (updateEntryItem env st e))
    \<and> item_view env (updateEntryItem env st e)
        = (item_view env st)(GetFolder env e
             \<mapsto> stored_item (indexed_item env (item_view env st (GetFolder env e)) e))
    \<and> st_entries (updateEntryItem env st e) = st_entries st"
proof -
  obtain r items1 where g: "store_Get (st_items st) (GetFolder env e) = (r, items1)" by fastforce
  let ?i = "indexed_item env (item_view env st (GetFolder env e)) e"
  let ?old = "listed_item env (GetFolder env e) r"
  from item_write[OF assms(1,2,4) g] obtain d where d: "marshalItem env (EntryItemToProto ?i) = Some d"
    and u: "store_up (snd (store_Put items1 (GetFolder env e) d None))"
    and v: "decoded (decode_item env) (snd (store_Put items1 (GetFolder env e) d None))
        = (item_view env st)(GetFolder env e \<mapsto> stored_item ?i)" by blast
  have i: "?i = sized_item env (?old\<lparr>it_Files := merge_item_files (it_Files ?old) (en_Files e)\<rparr>)"
    unfolding listed_item_view[OF assms(2) g] indexed_item_def Let_def ..
  have "updateEntryItem env st e = st\<lparr>st_items := snd (store_Put items1 (GetFolder env e) d None)\<rparr>"
    using assms(3) d g unfolding i by (simp add: updateEntryItem_def sized_item_def Let_def)
  with u v show ?thesis by (simp add: item_view_def)
qed

lemma GetFolder_update [simp]: "GetFolder env (e\<lparr>en_UpdatedAt := now\<rparr>) = GetFolder env e"
  by (simp add: GetFolder_def GetTorrentFolder_def split: folder_naming.split)

lemma indexed_item_update [simp]: "indexed_item env old (e\<lparr>en_UpdatedAt := now\<rparr>) = indexed_item env old e"
  unfolding indexed_item_def GetFolder_update by simp

definition entry_fits :: "env \<Rightarrow> entry \<Rightarrow> bool" where
  "entry_fits env e \<longleftrightarrow> (\<forall>d. marshalEntry env (EntryToProto e) = Some d \<longrightarrow>
     put_fits (en_InfoHash e) d (Some (entry_meta env e)))"

lemma AddOrUpdate_view:
  assumes "codec_ok env" "store_up (st_entries st)" "store_up (st_items st)" "GetFolder env e \<noteq> []"
    and "item_saves env st (GetFolder env e) (indexed_item env (item_view env st (GetFolder env e)) e)"
    and "entry_fits env (e\<lparr>en_UpdatedAt := now\<rparr>)" "AddOrUpdate env now st e = (r, st1, e1)"
  shows "e1 = e\<lparr>en_UpdatedAt := now\<rparr> \<and> store_up (st_entries st1) \<and> store_up (st_items st1)
    \<and> entry_view env st1 = (if r = None
         then (entry_view env st)(en_InfoHash e \<mapsto> stored_entry (e\<lparr>en_UpdatedAt := now\<rparr>))
         else entry_view env st)
    \<and> item_view env st1 = (item_view env st)(GetFolder env e
         \<mapsto> stored_item (indexed_item env (item_view env st (GetFolder env e)) e))"
proof -
  let ?e = "e\<lparr>en_UpdatedAt := now\<rparr>"
  define u where "u = updateEntryItem env st ?e"
  have v: "store_up (st_items u)" "st_entries u = st_entries st"
    "item_view env u = (item_view env st)(GetFolder env e
         \<mapsto> stored_item (indexed_item env (item_view env st (GetFolder env e)) e))"
    using updateEntryItem_view[OF assms(1,3), of ?e] assms(4,5) by (simp_all add: u_def)
  show ?thesis
  proof (cases "marshalEntry env (EntryToProto ?e)")
    case None
    with assms(2,7) v show ?thesis by (auto simp: AddOrUpdate_def u_def[symmetric] entry_view_def)
  next
    case (Some d)
    obtain q s' where p: "store_Put (st_entries st) (en_InfoHash ?e) d (Some (entry_meta env ?e)) = (q, s')"
      by fastforce
    have "put_fits (en_InfoHash ?e) d (Some (entry_meta env ?e))"
      using assms(6) Some by (simp only: entry_fits_def)
    from decoded_put[OF assms(2) this p, of "decode_entry env", OF decode_entry_marshal[OF assms(1) Some]]
    show ?thesis using assms(7) Some p v
      by (auto simp: AddOrUpdate_def u_def[symmetric] entry_view_def item_view_def)
  qed
qed

definition remaining_files :: "entry \<Rightarrow> entry_item \<Rightarrow> entry_item" where
  "remaining_files e item =
     item\<lparr>it_Files := Some (fmfilter (\<lambda>k. \<not> (mlookup (en_Files e) k \<noteq> None
        \<and> (case mlookup (it_Files item) k of None \<Rightarrow> False
            | Some f \<Rightarrow> fi_InfoHash f = en_InfoHash e))) (mget (it_Files item)))\<rparr>"

lemma remaining_lookup:
  "mlookup (it_Files (remaining_files e item)) k =
     (case mlookup (it_Files item) k of
        None \<Rightarrow> None
      | Some f \<Rightarrow> if mlookup (en_Files e) k \<noteq> None \<and> fi_InfoHash f = en_InfoHash e then None else Some f)"
  by (simp add: remaining_files_def mlookup_mget split: option.split)

definition reduced_item :: "env \<Rightarrow> entry \<Rightarrow> entry_item \<Rightarrow> entry_item option" where
  "reduced_item env e item =
     (let i = remaining_files e item in if mlen (it_Files i) = 0 then None else Some (sized_item env i))"

definition removal_saves :: "env \<Rightarrow> storage \<Rightarrow> entry \<Rightarrow> bool" where
  "removal_saves env st e =
     (case item_view env st (GetFolder env e) of
        None \<Rightarrow> True
      | Some item \<Rightarrow>
          (case reduced_item env e item of
             None \<Rightarrow> DiskSize (st_items st) + tombstone_size (GetFolder env e) \<le> fs_limit (s_fs (st_items st))
           | Some i \<Rightarrow> item_saves env st (GetFolder env e) i))"

lemma removeFromEntryItem_view:
  assumes "codec_ok env" "store_up (st_items st)" "GetFolder env e \<noteq> []" "removal_saves env st e"
  shows "store_up (st_items (removeFromEntryItem env st e))
    \<and> item_view env (removeFromEntryItem env st e) =
        (case item_view env st (GetFolder env e) of
           None \<Rightarrow> item_view env st
         | Some item \<Rightarrow> (item_view env st)(GetFolder env e := map_option stored_item (reduced_item env e item)))
    \<and> st_entries (removeFromEntryItem env st e) = st_entries st"
proof -
  let ?n = "GetFolder env e"
  obtain r items1 where g: "store_Get (st_items st) ?n = (r, items1)" by fastforce
  note dg = decoded_get[OF assms(2) g, of "decode_item env", folded item_view_def]
  show ?thesis
  proof (cases "item_view env st ?n")
    case None
    have "removeFromEntryItem env st e = st\<lparr>st_items := items1\<rparr>"
      using dg None assms(3) g
      by (cases r) (auto simp: removeFromEntryItem_def split: option.split)
    with dg None show ?thesis by (simp add: item_view_def)
  next
    case (Some item)
    with dg obtain data where r: "r = Inr data" and dec: "decode_item env data = Some item"
      by (cases r) auto
    have run: "removeFromEntryItem env st e =
        (case reduced_item env e item of
           None \<Rightarrow> st\<lparr>st_items := snd (store_Delete items1 ?n)\<rparr>
         | Some i \<Rightarrow> (case marshalItem env (EntryItemToProto i) of
               None \<Rightarrow> st\<lparr>st_items := items1\<rparr>
             | Some d \<Rightarrow> st\<lparr>st_items := snd (store_Put items1 ?n d None)\<rparr>))"
      using assms(3) g r dec
      by (simp add: removeFromEntryItem_def reduced_item_def remaining_files_def sized_item_def Let_def)
    show ?thesis
    proof (cases "reduced_item env e item")
      case n: None
      have room: "DiskSize (st_items st) + tombstone_size ?n \<le> fs_limit (s_fs (st_items st))"
        using assms(4) Some n by (simp add: removal_saves_def)
      from Get_log[of "st_items st" ?n] g
      have "DiskSize items1 = DiskSize (st_items st)" "s_fs items1 = s_fs (st_items st)"
        by (simp_all add: DiskSize_def)
      moreover have "store_abs items1 ?n \<noteq> None" using kv.get_law[OF assms(2) g] dg r by simp
      ultimately obtain s' where d: "store_Delete items1 ?n = (None, s')"
        using Delete_room[of items1 ?n] dg room by auto
      from decoded_delete[OF _ d, of "decode_item env"] dg have "store_up s'"
        "decoded (decode_item env) s' = (item_view env st)(?n := None)"
        by (simp_all add: item_view_def)
      with run n d Some show ?thesis by (simp add: item_view_def)
    next
      case (Some i)
      have "item_saves env st ?n i"
        using assms(4) Some \<open>item_view env st ?n = Some item\<close> by (simp add: removal_saves_def)
      from item_write[OF assms(1,2) this g] run Some \<open>item_view env st ?n = Some item\<close>
      show ?thesis by (auto simp: item_view_def)
    qed
  qed
qed

section \<open>A concrete storage\<close>

text \<open>A codec that can write two entries and two items, and a storage of five new stores.\<close>

definition base_env :: env where
  "base_env =
     \<lparr>marshalEntry = \<lambda>_. None, unmarshalEntry = \<lambda>_. None, marshalItem = \<lambda>_. None,
      unmarshalItem = \<lambda>_. None, marshalStatus = \<lambda>_. None, unmarshalStatus = \<lambda>_. None,
      naming = WebDavUseFileName, order = sorted_list_of_set\<rparr>"

definition demo_env :: "entry \<Rightarrow> entry \<Rightarrow> entry_item \<Rightarrow> entry_item \<Rightarrow> env" where
  "demo_env e e' i j = base_env
     \<lparr>marshalEntry := \<lambda>x. if x = EntryToProto e then Some [1]
        else if x = EntryToProto e' then Some [4] else None,
      unmarshalEntry := \<lambda>d. if d = [1] then Some (EntryToProto e)
        else if d = [4] then Some (EntryToProto e') else None,
      marshalItem := \<lambda>x. if x = EntryItemToProto i then Some [2]
        else if x = EntryItemToProto j then Some [3] else None,
      unmarshalItem := \<lambda>d. if d = [2] then Some (EntryItemToProto i)
        else if d = [3] then Some (EntryItemToProto j) else None\<rparr>"

definition demo_storage :: storage where
  "demo_storage = \<lparr>st_entries = demo_store, st_queue = demo_store, st_items = demo_store,
     st_repairJobs = demo_store, st_repairKeys = demo_store\<rparr>"

lemma demo_env_codec: "codec_ok (demo_env e e' i j)"
  by (simp add: codec_ok_def demo_env_def base_env_def)

lemma demo_env_folder [simp]: "GetFolder (demo_env e e' i j) x = path_Clean (en_Name x)" "GetFolder base_env x = path_Clean (en_Name x)"
  by (simp_all add: GetFolder_def GetTorrentFolder_def demo_env_def base_env_def)

lemma demo_env_order [simp]: "order (demo_env e e' i j) = sorted_list_of_set"
  by (simp add: demo_env_def base_env_def)

lemma demo_env_indexed [simp]: "indexed_item (demo_env e e' i j) old x = indexed_item base_env old x"
  unfolding indexed_item_def demo_env_folder by (simp add: sized_item_def demo_env_def)

lemma demo_store_room: "DiskSize demo_store = 16 \<and> fs_limit (s_fs demo_store) = 100000"
  by code_simp

lemma demo_storage_up: "store_up (st_entries demo_storage) \<and> store_up (st_queue demo_storage)
    \<and> store_up (st_items demo_storage)"
  using demo_store_up by (simp add: demo_storage_def)

lemma demo_entry_hash [simp]: "en_InfoHash demo_entry = [65]" "ToLower [65] = [97]"
    "en_Name demo_entry = [109]" "path_Clean [109] = [109]"
  by (simp_all add: demo_entry_def ToLower_def lower_byte_def path_Clean_def Let_def)

lemma demo_entry_fits:
  "entry_fits (demo_env (demo_entry\<lparr>en_UpdatedAt := now\<rparr>) e' i j) (demo_entry\<lparr>en_UpdatedAt := now\<rparr>)"
  "queue_fits (demo_env (demo_entry\<lparr>en_UpdatedAt := now\<rparr>) e' i j) (demo_entry\<lparr>en_UpdatedAt := now\<rparr>)"
  by (simp_all add: entry_fits_def queue_fits_def demo_env_def put_fits_def meta_or_def entry_meta_def
      demo_entry_def record_fits_def fits64_def GetFolder_def GetTorrentFolder_def base_env_def
      TorrentStatusDownloaded_def ProtocolTorrent_def gs_def t_Unix_def ToLower_def)

lemma demo_item_saves:
  assumes "DiskSize (st_items st) \<le> 1000" "fs_limit (s_fs (st_items st)) = 100000"
  shows "item_saves (demo_env e e' i j) st [109] j"
proof -
  have "\<exists>b. marshalItem (demo_env e e' i j) (EntryItemToProto j) = Some [b]"
    by (simp add: demo_env_def)
  then obtain b where b: "marshalItem (demo_env e e' i j) (EntryItemToProto j) = Some [b]" by blast
  have "put_fits [109] [b] None"
    by (simp add: put_fits_def meta_or_def no_meta_def record_fits_def fits64_def)
  moreover have "length (encode_item ([109], Some ([b], meta_or None))) \<le> 1000"
    by (simp add: meta_or_def no_meta_def encode_record_def put_str16_def)
  ultimately show ?thesis using b assms unfolding item_saves_def by (intro exI[of _ "[b]"]) linarith
qed

section \<open>Properties of the queue\<close>

text \<open>C19. A queued entry reads back: after a successful save the queue holds, under the lower-cased hash,
  the entry with its update time as the message keeps it, whatever the case of the hash asked for,
  and every other queued entry is as before; a failed save changes nothing.\<close>

theorem queue_save_load:
  assumes "codec_ok env" "store_up (st_queue st)" "queue_fits env (e\<lparr>en_UpdatedAt := now\<rparr>)"
  shows "case UpdateQueue env now st e of (r, st1, e1) \<Rightarrow>
      e1 = e\<lparr>en_UpdatedAt := now\<rparr> \<and> store_up (st_queue st1)
      \<and> (if r = None then
            fst (GetQueued env st1 (en_InfoHash e)) = Inr (stored_entry e1)
            \<and> fst (GetQueued env st1 (ToLower (en_InfoHash e))) = Inr (stored_entry e1)
            \<and> (\<forall>k. k = ToLower (en_InfoHash e) \<or> queue_view env st1 k = queue_view env st k)
          else queue_view env st1 = queue_view env st)"
proof -
  obtain r st1 e1 where u: "UpdateQueue env now st e = (r, st1, e1)" by (metis prod_cases3)
  note v = UpdateQueue_view[OF assms u]
  have "fst (GetQueued env st1 h) = Inr (stored_entry e1)" if "r = None" "ToLower h = ToLower (en_InfoHash e)" for h
  proof -
    have up: "store_up (st_queue st1)" using v by simp
    obtain q st2 where g: "GetQueued env st1 h = (q, st2)" by fastforce
    from GetQueued_view[OF up g] v that g show ?thesis by simp
  qed
  with u v show ?thesis by auto
qed

theorem queue_save_load_witness:
  "case UpdateQueue (demo_env (demo_entry\<lparr>en_UpdatedAt := 9\<rparr>) demo_entry (fresh_item [1]) (fresh_item [1])) 9 demo_storage demo_entry of
     (r, st1, e1) \<Rightarrow> r = None \<and>
        fst (GetQueued (demo_env (demo_entry\<lparr>en_UpdatedAt := 9\<rparr>) demo_entry (fresh_item [1]) (fresh_item [1])) st1 [97]) = Inr (stored_entry e1)"
proof -
  let ?e = "demo_entry\<lparr>en_UpdatedAt := 9\<rparr>" and ?env = "demo_env (demo_entry\<lparr>en_UpdatedAt := 9\<rparr>) demo_entry (fresh_item [1]) (fresh_item [1])"
  have m: "marshalEntry ?env (EntryToProto ?e) = Some [1]" by (simp add: demo_env_def)
  have fits: "put_fits [97] [1] (Some (entry_meta ?env ?e))"
    using demo_entry_fits(2)[of 9 demo_entry "fresh_item [1]" "fresh_item [1]"] m by (simp add: queue_fits_def)
  have len: "length (encode_item ([97], Some ([1], meta_or (Some (entry_meta ?env ?e))))) \<le> 1000"
    by (simp add: meta_or_def entry_meta_def encode_record_def put_str16_def demo_entry_def gs_def
        TorrentStatusDownloaded_def ProtocolTorrent_def)
  have "DiskSize demo_store + length (encode_item ([97], Some ([1], meta_or (Some (entry_meta ?env ?e)))))
      \<le> fs_limit (s_fs demo_store)"
    using len demo_store_room by linarith
  from Put_room[OF _ fits this] demo_store_up
  obtain s' where "store_Put demo_store [97] [1] (Some (entry_meta ?env ?e)) = (None, s')" by blast
  with m have "fst (UpdateQueue ?env 9 demo_storage demo_entry) = None"
    by (simp add: UpdateQueue_def demo_storage_def)
  with queue_save_load[OF demo_env_codec _ demo_entry_fits(2), of demo_storage 9 demo_entry "fresh_item [1]" "fresh_item [1]"] demo_storage_up
  show ?thesis by (auto split: prod.splits)
qed

lemma DeleteWhereQueued_spec:
  assumes "store_up (st_queue st)"
    and "DiskSize (st_queue st) + sum_list (map (tombstone_size \<circ> fst) (live_records (st_queue st)))
      \<le> fs_limit (s_fs (st_queue st))"
  shows "case DeleteWhereQueued env st flt of (cleaned, st1) \<Rightarrow>
      store_up (st_queue st1)
      \<and> (\<forall>k. store_abs (st_queue st1) k =
            (case queue_view env st k of
               None \<Rightarrow> store_abs (st_queue st) k
             | Some e \<Rightarrow> if flt = None \<or> the flt e then None else store_abs (st_queue st) k))
      \<and> set cleaned = {e. \<exists>k. queue_view env st k = Some e \<and> (flt = None \<or> the flt e)}
      \<and> cleaned = map snd (matching env flt (live_records (st_queue st)))"
proof -
  let ?q = "st_queue st"
  define found where "found = matching env flt (live_records ?q)"
  obtain q where f: "store_ForEach ?q (\<lambda>k v (c, s). (None, collect_keys env flt k v c, s)) [] = (None, found, q)"
    and q: "store_up q" "store_abs q = store_abs ?q" "DiskSize q = DiskSize ?q"
      "fs_limit (s_fs q) = fs_limit (s_fs ?q)"
    using ForEach_collects_records[OF assms(1), of "collect_keys env flt" "[]"]
    by (auto simp: found_def collect_keys_fold split: prod.splits)
  note keys = matching_keys[OF live_records_exact(1)[OF assms(1)], of env flt, folded found_def]
  note mem = matching_exact[OF assms(1), of _ _ env flt, folded found_def queue_view_def]
  have dom: "set (map fst found) \<subseteq> dom (store_abs q)"
    using mem by (auto simp: q(2) queue_view_def decoded_def dom_def split: option.splits)
  have sizes: "sum_list (map tombstone_size ks) = sum tombstone_size (set ks)" if "distinct ks" for ks
    using that by (simp add: sum_list_distinct_conv_sum_set)
  have "sum tombstone_size (set (map fst found)) \<le> sum tombstone_size (set (map fst (live_records ?q)))"
    using keys by (intro sum_mono2) simp_all
  then have room: "DiskSize q + sum_list (map tombstone_size (map fst found)) \<le> fs_limit (s_fs q)"
    using assms(2) keys live_records_exact(1)[OF assms(1)] sizes[of "map fst found"]
      sizes[of "map fst (live_records ?q)"] q(3,4)
    by (simp add: comp_def)
  from deletes_room[OF q(1) _ dom room] keys
  have del: "store_up (fold (\<lambda>k s. snd (store_Delete s k)) (map fst found) q)"
    "store_abs (fold (\<lambda>k s. snd (store_Delete s k)) (map fst found) q) = (store_abs ?q) |` (- set (map fst found))"
    using q(2) by simp_all
  have "k \<in> set (map fst found) \<longleftrightarrow> (\<exists>e. queue_view env st k = Some e \<and> (flt = None \<or> the flt e))" for k
  proof -
    have "k \<in> set (map fst found) \<longleftrightarrow> (\<exists>e. (k, e) \<in> set found)" by force
    then show ?thesis unfolding mem .
  qed
  then have "store_abs (fold (\<lambda>k s. snd (store_Delete s k)) (map fst found) q) k =
      (case queue_view env st k of None \<Rightarrow> store_abs ?q k
       | Some e \<Rightarrow> if flt = None \<or> the flt e then None else store_abs ?q k)" for k
    unfolding del(2) by (auto simp: restrict_map_def split: option.split)
  moreover have "set (map snd found) = {e. \<exists>k. queue_view env st k = Some e \<and> (flt = None \<or> the flt e)}"
    using mem by (force simp: image_iff)
  ultimately show ?thesis using del(1) by (simp add: DeleteWhereQueued_def f found_def)
qed

text \<open>C20. Deleting by predicate removes exactly the queued entries that satisfy it, after handing each of
  them to the cleanup once, in the order of the disk; entries that do not satisfy it, and records
  that cannot be decoded, stay. It needs room on the disk for the tombstones it writes.\<close>

theorem DeleteWhereQueued_exact:
  assumes "store_up (st_queue st)"
    and "DiskSize (st_queue st) + sum_list (map (tombstone_size \<circ> fst) (live_records (st_queue st)))
      \<le> fs_limit (s_fs (st_queue st))"
  shows "case DeleteWhereQueued env st flt of (cleaned, st1) \<Rightarrow>
      store_up (st_queue st1)
      \<and> (\<forall>k. store_abs (st_queue st1) k =
            (case queue_view env st k of
               None \<Rightarrow> store_abs (st_queue st) k
             | Some e \<Rightarrow> if flt = None \<or> the flt e then None else store_abs (st_queue st) k))
      \<and> set cleaned = {e. \<exists>k. queue_view env st k = Some e \<and> (flt = None \<or> the flt e)}
      \<and> cleaned = map snd (matching env flt (live_records (st_queue st)))"
  by (rule DeleteWhereQueued_spec[OF assms])

lemma distinct_singleton: "distinct xs \<Longrightarrow> set xs = {a} \<Longrightarrow> xs = [a]"
proof (cases xs)
  case (Cons x ys)
  assume "distinct xs" "set xs = {a}"
  with Cons have "x = a" "set ys \<subseteq> {a}" "x \<notin> set ys" by auto
  then have "ys = []" by (cases ys) auto
  with Cons \<open>x = a\<close> show ?thesis by simp
qed simp

definition demo_queue :: storage where
  "demo_queue = demo_storage\<lparr>st_queue := snd (store_Put demo_store [97] [1] None)\<rparr>"

text \<open>One entry waits in the queue; it is the one the codec of the environment decodes.\<close>

lemma demo_queue_ready:
  "store_up (st_queue demo_queue) \<and> live_records (st_queue demo_queue) = [([97], [1])]
   \<and> store_abs (st_queue demo_queue) = [[97] \<mapsto> ([1], meta_or None)]
   \<and> DiskSize (st_queue demo_queue) + sum_list (map (tombstone_size \<circ> fst) (live_records (st_queue demo_queue)))
      \<le> fs_limit (s_fs (st_queue demo_queue))"
proof -
  have fits: "put_fits [97] [1] None"
    by (simp add: put_fits_def meta_or_def no_meta_def record_fits_def fits64_def)
  have len: "length (encode_item ([97], Some ([1], meta_or None))) \<le> 1000"
    by (simp add: meta_or_def no_meta_def encode_record_def put_str16_def)
  have "DiskSize demo_store + length (encode_item ([97], Some ([1], meta_or None))) \<le> fs_limit (s_fs demo_store)"
    using len demo_store_room by linarith
  from Put_room[OF _ fits this] demo_store_up
  obtain s where p: "store_Put demo_store [97] [1] None = (None, s)" by blast
  from kv.put_law[OF _ fits p] demo_store_up holds_abs[of demo_store "[]"]
  have up: "store_up s" and ab: "store_abs s = [[97] \<mapsto> ([1], meta_or None)]" by simp_all
  have q: "st_queue demo_queue = s" using p by (simp add: demo_queue_def)
  have lr: "live_records s = [([97], [1])]"
  proof -
    have "set (fst (KeysSortedByOffset (s_index s))) = {[97]}" "distinct (fst (KeysSortedByOffset (s_index s)))"
      using store_ForEach_listing(2,3)[OF up] by (simp_all add: ab)
    then have "fst (KeysSortedByOffset (s_index s)) = [[97]]"
      by (metis distinct_singleton)
    then show ?thesis by (simp add: live_records_def ab)
  qed
  have "DiskSize (st_queue demo_queue) + sum_list (map (tombstone_size \<circ> fst) (live_records (st_queue demo_queue)))
      \<le> fs_limit (s_fs (st_queue demo_queue))"
  proof -
    have "DiskSize (snd (store_Put demo_store [97] [1] None)) \<le> 1000
        \<and> fs_limit (s_fs (snd (store_Put demo_store [97] [1] None))) = 100000" by code_simp
    moreover have "tombstone_size [97] \<le> 1000" by (simp add: tombstone_size_def encode_record_def put_str16_def)
    ultimately show ?thesis unfolding q lr using p by simp
  qed
  with up ab lr show ?thesis by (simp add: q)
qed

lemma demo_queue_view:
  "queue_view (demo_env e f (fresh_item [1]) (fresh_item [1])) demo_queue [97] = Some (stored_entry e)"
  "decode_entry (demo_env e f (fresh_item [1]) (fresh_item [1])) [1] = Some (stored_entry e)"
proof -
  let ?env = "demo_env e f (fresh_item [1]) (fresh_item [1])"
  show dec: "decode_entry ?env [1] = Some (stored_entry e)"
    using decode_entry_marshal[OF demo_env_codec, of e f "fresh_item [1]" "fresh_item [1]" e "[1]"]
    by (simp add: demo_env_def)
  show "queue_view ?env demo_queue [97] = Some (stored_entry e)"
    using demo_queue_ready by (simp add: queue_view_def decoded_def dec)
qed

theorem DeleteWhereQueued_exact_witness:
  "case DeleteWhereQueued (demo_env demo_entry demo_entry (fresh_item [1]) (fresh_item [1])) demo_queue None of (cleaned, st1) \<Rightarrow>
     cleaned = [stored_entry demo_entry] \<and> store_abs (st_queue st1) [97] = None"
proof -
  note ready = demo_queue_ready
  from ready have room: "DiskSize (st_queue demo_queue)
      + sum_list (map (tombstone_size \<circ> fst) (live_records (st_queue demo_queue)))
      \<le> fs_limit (s_fs (st_queue demo_queue))" and up: "store_up (st_queue demo_queue)" by blast+
  from DeleteWhereQueued_exact[OF up room, of None "demo_env demo_entry demo_entry (fresh_item [1]) (fresh_item [1])"]
    demo_queue_view(1)[of demo_entry demo_entry] demo_queue_view(2)[of demo_entry demo_entry] ready
  show ?thesis
    by (auto simp: matching_simps split: prod.splits)
qed

section \<open>Properties of the entries and their index\<close>

text \<open>C17. Saving an entry stores it under its hash and adds its files to the item of its folder. Under a
  name that both have, the entry's file is listed when it was added later than the listed one, or at
  the same time with another size; the listed file stays when it was added later, or at the same time
  with the same size. A name that only one of them has keeps its file, and the item's size is the
  sum of the files that are not deleted. The index is updated also when storing the entry itself
  fails.\<close>

theorem AddOrUpdate_exact:
  assumes "codec_ok env" "store_up (st_entries st)" "store_up (st_items st)" "GetFolder env e \<noteq> []"
    and "item_saves env st (GetFolder env e) (indexed_item env (item_view env st (GetFolder env e)) e)"
    and "entry_fits env (e\<lparr>en_UpdatedAt := now\<rparr>)" "order_ok (order env)"
  shows "case AddOrUpdate env now st e of (r, st1, e1) \<Rightarrow>
      entry_view env st1 = (if r = None then (entry_view env st)(en_InfoHash e \<mapsto> stored_entry e1)
         else entry_view env st)
      \<and> (\<forall>n. n \<noteq> GetFolder env e \<longrightarrow> item_view env st1 n = item_view env st n)
      \<and> (\<exists>item. item_view env st1 (GetFolder env e) = Some (stored_item item)
          \<and> it_Size item = files_size (it_Files item)
          \<and> (\<forall>k. mlookup (it_Files item) k =
                (case item_view env st (GetFolder env e) of
                   None \<Rightarrow> mlookup (en_Files e) k
                 | Some old \<Rightarrow>
                     (case (mlookup (it_Files old) k, mlookup (en_Files e) k) of
                        (Some x, Some y) \<Rightarrow>
                          Some (if fi_AddedOn x < fi_AddedOn y
                                   \<or> fi_AddedOn x = fi_AddedOn y \<and> fi_Size x \<noteq> fi_Size y
                                then y else x)
                      | (Some x, None) \<Rightarrow> Some x
                      | (None, y) \<Rightarrow> y))))"
proof -
  obtain r st1 e1 where a: "AddOrUpdate env now st e = (r, st1, e1)" by (metis prod_cases3)
  note v = AddOrUpdate_view[OF assms(1-6) a]
  let ?i = "indexed_item env (item_view env st (GetFolder env e)) e"
  have "it_Size ?i = files_size (it_Files ?i)"
    by (simp add: indexed_item_def sized_item_def Let_def item_GetSize_any_order[OF assms(7)])
  moreover have "mlookup (it_Files ?i) k =
      (case item_view env st (GetFolder env e) of
         None \<Rightarrow> mlookup (en_Files e) k
       | Some old \<Rightarrow>
           (case (mlookup (it_Files old) k, mlookup (en_Files e) k) of
              (Some x, Some y) \<Rightarrow>
                Some (if fi_AddedOn x < fi_AddedOn y
                         \<or> fi_AddedOn x = fi_AddedOn y \<and> fi_Size x \<noteq> fi_Size y
                      then y else x)
            | (Some x, None) \<Rightarrow> Some x
            | (None, y) \<Rightarrow> y))" for k
    by (cases "item_view env st (GetFolder env e)")
      (auto simp: indexed_item_def sized_item_def fresh_item_def merge_item_files_lookup item_replaces_def
        split: option.split)
  ultimately show ?thesis using a v by (auto intro!: exI[of _ ?i])
qed

theorem AddOrUpdate_exact_witness:
  "case AddOrUpdate (demo_env (demo_entry\<lparr>en_UpdatedAt := 9\<rparr>) demo_entry
          (fresh_item [1]) (indexed_item base_env None demo_entry)) 9 demo_storage demo_entry of (r, st1, e1) \<Rightarrow>
     \<exists>item. item_view (demo_env (demo_entry\<lparr>en_UpdatedAt := 9\<rparr>) demo_entry
          (fresh_item [1]) (indexed_item base_env None demo_entry)) st1 [109] = Some (stored_item item)
       \<and> (\<forall>k. mlookup (it_Files item) k = mlookup (en_Files demo_entry) k)"
proof -
  let ?env = "demo_env (demo_entry\<lparr>en_UpdatedAt := 9\<rparr>) demo_entry (fresh_item [1]) (indexed_item base_env None demo_entry)"
  have none: "item_view ?env demo_storage [109] = None"
    using holds_abs[of demo_store "[]"] demo_store_up
    by (simp add: item_view_def decoded_def demo_storage_def)
  have room: "DiskSize (st_items demo_storage) \<le> 1000" "fs_limit (s_fs (st_items demo_storage)) = 100000"
    using demo_store_room by (simp_all add: demo_storage_def)
  from AddOrUpdate_exact[where env = ?env and st = demo_storage and e = demo_entry and now = 9]
    demo_item_saves[OF room] demo_entry_fits(1) demo_storage_up none sorted_order_ok demo_env_codec
  show ?thesis by (auto split: prod.splits)
qed

text \<open>C24. A file that a user deleted from a folder stays deleted when the entry it came from is saved again
  only if its time has no fraction of a second: the index keeps whole seconds, so the same file,
  saved again with its fraction, counts as newer and comes back.\<close>

theorem deleted_file_comes_back:
  assumes "codec_ok env" "store_up (st_entries st)" "store_up (st_items st)" "GetFolder env e \<noteq> []"
    and "item_saves env st (GetFolder env e) (indexed_item env (item_view env st (GetFolder env e)) e)"
    and "entry_fits env (e\<lparr>en_UpdatedAt := now\<rparr>)"
    and "item_view env st (GetFolder env e) = Some item" "mlookup (en_Files e) k = Some f"
    and "mlookup (it_Files item) k = Some ((stored_file f)\<lparr>fi_Deleted := True\<rparr>)"
    and "\<not> fi_Deleted f" "0 \<le> fi_AddedOn f"
  shows "\<exists>item' g. item_view env (fst (snd (AddOrUpdate env now st e))) (GetFolder env e) = Some item'
    \<and> mlookup (it_Files item') k = Some g \<and> (fi_Deleted g \<longleftrightarrow> time_exact (fi_AddedOn f))"
proof -
  obtain r st1 e1 where a: "AddOrUpdate env now st e = (r, st1, e1)" by (metis prod_cases3)
  note v = AddOrUpdate_view[OF assms(1-6) a]
  let ?old = "(stored_file f)\<lparr>fi_Deleted := True\<rparr>"
  let ?i = "indexed_item env (Some item) e"
  have "stored_time (fi_AddedOn f) \<le> fi_AddedOn f"
    using assms(11) by (simp add: stored_time_def whole_seconds_def)
  then have rep: "item_replaces ?old f \<longleftrightarrow> \<not> time_exact (fi_AddedOn f)"
    using stored_time_exact[of "fi_AddedOn f"] by (auto simp: item_replaces_def stored_file_def)
  have "mlookup (it_Files ?i) k = Some (if item_replaces ?old f then f else ?old)"
    using assms(8,9) by (simp add: indexed_item_def sized_item_def merge_item_files_lookup)
  then have "mlookup (it_Files (stored_item ?i)) k = Some (stored_file (if item_replaces ?old f then f else ?old))"
    by (simp add: stored_item_def mlookup_mget)
  then show ?thesis
    using a v assms(7,10) rep by (auto simp: stored_file_def)
qed

text \<open>A storage whose folder index holds one item.\<close>

definition with_item :: storage where
  "with_item = demo_storage\<lparr>st_entries := snd (store_Put demo_store [65] [1] None),
     st_items := snd (store_Put demo_store [109] [2] None)\<rparr>"

lemma small_put:
  assumes "k = [x]" "v = [y]"
  shows "store_up (snd (store_Put demo_store k v None))
    \<and> store_abs (snd (store_Put demo_store k v None)) = [k \<mapsto> (v, meta_or None)]"
proof -
  have fits: "put_fits k v None"
    by (simp add: assms put_fits_def meta_or_def no_meta_def record_fits_def fits64_def)
  have len: "length (encode_item (k, Some (v, meta_or None))) \<le> 1000"
    by (simp add: assms meta_or_def no_meta_def encode_record_def put_str16_def)
  have "DiskSize demo_store + length (encode_item (k, Some (v, meta_or None))) \<le> fs_limit (s_fs demo_store)"
    using len demo_store_room by linarith
  from Put_room[OF _ fits this] demo_store_up
  obtain s where p: "store_Put demo_store k v None = (None, s)" by blast
  from kv.put_law[OF _ fits p] demo_store_up holds_abs[of demo_store "[]"] p show ?thesis by simp
qed

lemma with_item_up: "store_up (st_entries with_item) \<and> store_up (st_items with_item)"
  using small_put[of "[65]" 65 "[1]" 1] small_put[of "[109]" 109 "[2]" 2] by (simp add: with_item_def)

lemma with_item_room: "DiskSize (st_items with_item) \<le> 1000 \<and> fs_limit (s_fs (st_items with_item)) = 100000"
proof -
  have "DiskSize (snd (store_Put demo_store [109] [2] None)) \<le> 1000
      \<and> fs_limit (s_fs (snd (store_Put demo_store [109] [2] None))) = 100000" by code_simp
  then show ?thesis by (simp add: with_item_def)
qed

lemma with_item_views:
  "item_view (demo_env e e' i j) with_item = [[109] \<mapsto> stored_item i]"
  "entry_view (demo_env e e' i j) with_item = [[65] \<mapsto> stored_entry e]"
  using small_put[of "[65]" 65 "[1]" 1] small_put[of "[109]" 109 "[2]" 2]
  by (auto simp: item_view_def entry_view_def with_item_def decoded_def fun_eq_iff decode_item_def decode_entry_def
      demo_env_def item_roundtrip entry_roundtrip)

lemma fmmap_single: "fmmap f (fmupd k v fmempty) = fmupd k (f v) fmempty"
  by (rule fmap_ext) simp

definition demo_item :: entry_item where
  "demo_item = \<lparr>it_Name = [109], it_Files = Some (fmap_of_list [([109], (stored_file demo_file)\<lparr>fi_Deleted := True\<rparr>)]),
     it_Size = 0\<rparr>"

theorem deleted_file_comes_back_witness:
  "\<exists>item g. item_view (demo_env (demo_entry\<lparr>en_UpdatedAt := 9\<rparr>) demo_entry demo_item
        (indexed_item base_env (Some demo_item) demo_entry))
      (fst (snd (AddOrUpdate (demo_env (demo_entry\<lparr>en_UpdatedAt := 9\<rparr>) demo_entry demo_item
        (indexed_item base_env (Some demo_item) demo_entry)) 9 with_item demo_entry))) [109] = Some item
    \<and> mlookup (it_Files item) [109] = Some g \<and> \<not> fi_Deleted g"
proof -
  let ?env = "demo_env (demo_entry\<lparr>en_UpdatedAt := 9\<rparr>) demo_entry demo_item (indexed_item base_env (Some demo_item) demo_entry)"
  have st: "stored_item demo_item = demo_item"
    by (rule entry_item.equality) (simp_all add: stored_item_def demo_item_def fmmap_single stored_file_def demo_file_def)
  have files: "mlookup (en_Files demo_entry) [109] = Some demo_file"
    "mlookup (it_Files demo_item) [109] = Some ((stored_file demo_file)\<lparr>fi_Deleted := True\<rparr>)"
    by (simp_all add: demo_entry_def demo_item_def fmlookup_of_list)
  have f: "\<not> fi_Deleted demo_file" "0 \<le> fi_AddedOn demo_file" "\<not> time_exact (fi_AddedOn demo_file)"
    by (simp_all add: demo_file_def time_exact_def)
  from deleted_file_comes_back[where env = ?env and st = with_item and e = demo_entry and now = 9
      and item = demo_item and k = "[109]" and f = demo_file]
    demo_env_codec with_item_up with_item_views(1) demo_item_saves with_item_room demo_entry_fits(1) st files f
  show ?thesis by auto
qed

lemma entry_Delete_view:
  assumes "codec_ok env" "store_up (st_entries st)" "store_up (st_items st)"
    and "entry_view env st h = Some e" "GetFolder env e \<noteq> []" "removal_saves env st e"
    and "entry_Delete env st h = (r, st1)"
  shows "entry_view env st1 = (if r = None then (entry_view env st)(h := None) else entry_view env st)"
    and "item_view env st1 = (case item_view env st (GetFolder env e) of
        None \<Rightarrow> item_view env st
      | Some item \<Rightarrow> (item_view env st)(GetFolder env e := map_option stored_item (reduced_item env e item)))"
proof -
  obtain q s1 where g: "get_entry_from env (st_entries st) h = (q, s1)" by fastforce
  note v = get_entry_from_view[OF assms(2) g, folded entry_view_def]
  let ?st1 = "st\<lparr>st_entries := s1\<rparr>"
  have q: "q = Inr e" using v assms(4) by simp
  have same: "item_view env ?st1 = item_view env st" "st_items ?st1 = st_items st"
    by (simp_all add: item_view_def)
  have rs: "removal_saves env ?st1 e = removal_saves env st e"
    unfolding removal_saves_def same item_saves_def ..
  have up: "store_up (st_items ?st1)" using assms(3) by simp
  note w = removeFromEntryItem_view[OF assms(1) up assms(5) rs[THEN iffD2, OF assms(6)], unfolded same]
  let ?st2 = "removeFromEntryItem env ?st1 e"
  obtain r' s' where d: "store_Delete (st_entries ?st2) h = (r', s')" by fastforce
  have up2: "store_up (st_entries ?st2)" and ev: "entry_view env ?st2 = entry_view env st"
    using w v by (simp_all add: entry_view_def)
  have run: "r = r'" "st1 = ?st2\<lparr>st_entries := s'\<rparr>"
    using g q d assms(7) by (simp_all add: entry_Delete_def entry_Get_def)
  from decoded_delete[OF up2 d, of "decode_entry env", folded entry_view_def] ev
  show "entry_view env st1 = (if r = None then (entry_view env st)(h := None) else entry_view env st)"
    by (simp add: run entry_view_def)
  show "item_view env st1 = (case item_view env st (GetFolder env e) of
        None \<Rightarrow> item_view env st
      | Some item \<Rightarrow> (item_view env st)(GetFolder env e := map_option stored_item (reduced_item env e item)))"
    using w by (simp add: run item_view_def)
qed

text \<open>C18. Deleting an entry removes it and takes out of the item of its folder exactly the files that carry
  its hash under a name it has; an item left without files goes.\<close>

theorem entry_Delete_exact:
  assumes "codec_ok env" "store_up (st_entries st)" "store_up (st_items st)"
    and "entry_view env st h = Some e" "GetFolder env e \<noteq> []" "removal_saves env st e"
  shows "case entry_Delete env st h of (r, st1) \<Rightarrow>
      entry_view env st1 = (if r = None then (entry_view env st)(h := None) else entry_view env st)
      \<and> (\<forall>n. n \<noteq> GetFolder env e \<longrightarrow> item_view env st1 n = item_view env st n)
      \<and> (case item_view env st (GetFolder env e) of
           None \<Rightarrow> item_view env st1 (GetFolder env e) = None
         | Some item \<Rightarrow>
             item_view env st1 (GetFolder env e) = map_option stored_item (reduced_item env e item)
             \<and> (\<forall>k. mlookup (it_Files (remaining_files e item)) k =
                  (case mlookup (it_Files item) k of
                     None \<Rightarrow> None
                   | Some f \<Rightarrow> if mlookup (en_Files e) k \<noteq> None \<and> fi_InfoHash f = en_InfoHash e
                             then None else Some f)))"
proof -
  obtain r st1 where d: "entry_Delete env st h = (r, st1)" by fastforce
  note v = entry_Delete_view[OF assms d]
  show ?thesis unfolding d prod.case v by (auto simp: remaining_lookup split: option.split)
qed

definition listing_item :: entry_item where
  "listing_item = \<lparr>it_Name = [109], it_Files = Some (fmap_of_list [([109], stored_file demo_file)]), it_Size = 100\<rparr>"

lemma listing_item_stored: "stored_item listing_item = listing_item"
  by (rule entry_item.equality) (simp_all add: stored_item_def listing_item_def fmmap_single stored_file_def)

lemma listing_files:
  "mlookup (it_Files listing_item) k = (if k = [109] then Some (stored_file demo_file) else None)"
  "mlookup (en_Files (stored_entry demo_entry)) k = (if k = [109] then Some (stored_file demo_file) else None)"
  "en_InfoHash (stored_entry demo_entry) = [65]"
  "en_Name (stored_entry demo_entry) = [109]"
  by (simp_all add: listing_item_def stored_entry_def demo_entry_def stored_file_def demo_file_def
      fmlookup_of_list mlookup_mget)

lemma demo_file_hash: "fi_InfoHash (stored_file demo_file) = [65]"
  unfolding stored_file_def demo_file_def by simp

lemma listing_reduced: "reduced_item env (stored_entry demo_entry) listing_item = None"
proof -
  have "mlen (it_Files (remaining_files (stored_entry demo_entry) listing_item)) = 0"
    unfolding mlen_0 remaining_lookup listing_files by (simp add: demo_file_hash)
  then show ?thesis by (simp add: reduced_item_def Let_def)
qed

lemma listing_removal:
  "removal_saves (demo_env demo_entry e' listing_item j) with_item (stored_entry demo_entry)"
proof -
  have "tombstone_size [109] \<le> 1000" by (simp add: tombstone_size_def encode_record_def put_str16_def)
  with with_item_room show ?thesis
    by (simp add: removal_saves_def with_item_views listing_files listing_item_stored listing_reduced)
qed

theorem entry_Delete_exact_witness:
  "item_view (demo_env demo_entry demo_entry listing_item listing_item)
     (snd (entry_Delete (demo_env demo_entry demo_entry listing_item listing_item) with_item [65])) [109] = None"
  using entry_Delete_exact[where env = "demo_env demo_entry demo_entry listing_item listing_item" and st = with_item
      and h = "[65]" and e = "stored_entry demo_entry"] with_item_up demo_env_codec listing_removal
  by (auto simp: with_item_views listing_files listing_item_stored listing_reduced split: prod.splits)

text \<open>Two entries that share a folder and a file name share its listing, which carries the hash of one
  of them. Deleting that one takes the file out of the folder although the other entry, which is
  still stored, has it.\<close>

lemma shared_file_is_unlisted:
  assumes "codec_ok env" "store_up (st_entries st)" "store_up (st_items st)"
    and "entry_view env st h = Some e" "GetFolder env e \<noteq> []" "removal_saves env st e"
    and "entry_view env st h' = Some e'" "h' \<noteq> h" "GetFolder env e' = GetFolder env e"
    and "mlookup (en_Files e) k \<noteq> None" "mlookup (en_Files e') k \<noteq> None"
    and "item_view env st (GetFolder env e) = Some item" "mlookup (it_Files item) k = Some f"
    and "fi_InfoHash f = en_InfoHash e"
  shows "case entry_Delete env st h of (r, st1) \<Rightarrow>
    entry_view env st1 h' = Some e'
    \<and> (case item_view env st1 (GetFolder env e') of
         None \<Rightarrow> True
       | Some item' \<Rightarrow> mlookup (it_Files item') k = None)"
proof -
  obtain r st1 where d: "entry_Delete env st h = (r, st1)" by fastforce
  note v = entry_Delete_view[OF assms(1-6) d]
  have "mlookup (it_Files (remaining_files e item)) k = None"
    using assms(10,13,14) by (simp add: remaining_lookup)
  then have "case map_option stored_item (reduced_item env e item) of None \<Rightarrow> True
      | Some item' \<Rightarrow> mlookup (it_Files item') k = None"
    by (simp add: reduced_item_def sized_item_def stored_item_def mlookup_mget Let_def)
  then show ?thesis using assms(7-9,12) by (simp add: d v)
qed

text \<open>A second entry beside the first, with another hash and the same folder and file.\<close>

definition other_entry :: entry where
  "other_entry = demo_entry\<lparr>en_InfoHash := [66]\<rparr>"

definition shared_storage :: storage where
  "shared_storage = with_item\<lparr>st_entries := snd (store_Put (st_entries with_item) [66] [4] None)\<rparr>"

lemma shared_file_is_unlisted_witness:
  "case entry_Delete (demo_env demo_entry other_entry listing_item listing_item) shared_storage [65] of (r, st1) \<Rightarrow>
     entry_view (demo_env demo_entry other_entry listing_item listing_item) st1 [66] = Some (stored_entry other_entry)
     \<and> (case item_view (demo_env demo_entry other_entry listing_item listing_item) st1 [109] of
          None \<Rightarrow> True
        | Some item' \<Rightarrow> mlookup (it_Files item') [109] = None)"
proof -
  let ?env = "demo_env demo_entry other_entry listing_item listing_item"
  let ?s = "st_entries with_item"
  have fits: "put_fits [66] [4] None"
    by (simp add: put_fits_def meta_or_def no_meta_def record_fits_def fits64_def)
  have "DiskSize (snd (store_Put demo_store [65] [1] None)) \<le> 1000
      \<and> fs_limit (s_fs (snd (store_Put demo_store [65] [1] None))) = 100000" by code_simp
  then have "DiskSize ?s \<le> 1000" "fs_limit (s_fs ?s) = 100000" by (simp_all add: with_item_def)
  moreover have len: "length (encode_item ([66], Some ([4], meta_or None))) \<le> 1000"
    by (simp add: meta_or_def no_meta_def encode_record_def put_str16_def)
  ultimately have "DiskSize ?s + length (encode_item ([66], Some ([4], meta_or None))) \<le> fs_limit (s_fs ?s)"
    by linarith
  from Put_room[OF _ fits this] with_item_up obtain s where p: "store_Put ?s [66] [4] None = (None, s)" by blast
  have dec: "decode_entry ?env [4] = Some (stored_entry other_entry)"
    by (simp add: decode_entry_def demo_env_def entry_roundtrip)
  from decoded_put[OF _ fits p, of "decode_entry ?env", OF _ dec] with_item_up with_item_views(2)[of demo_entry other_entry]
  have up: "store_up s" and ev: "entry_view ?env shared_storage
      = [[65] \<mapsto> stored_entry demo_entry, [66] \<mapsto> stored_entry other_entry]"
    using p by (simp_all add: entry_view_def shared_storage_def)
  have it: "st_items shared_storage = st_items with_item" "st_entries shared_storage = s"
    "item_view ?env shared_storage = item_view ?env with_item"
    using p by (simp_all add: shared_storage_def item_view_def)
  have "removal_saves ?env shared_storage (stored_entry demo_entry)"
    using listing_removal[of other_entry listing_item] unfolding removal_saves_def item_saves_def it .
  moreover have "en_Name (stored_entry other_entry) = [109]"
    "mlookup (en_Files (stored_entry other_entry)) [109] = Some (stored_file demo_file)"
    using listing_files(2,4) by (simp_all add: other_entry_def stored_entry_def)
  ultimately show ?thesis
    using shared_file_is_unlisted[where env = ?env and st = shared_storage and h = "[65]"
        and e = "stored_entry demo_entry" and h' = "[66]" and e' = "stored_entry other_entry" and k = "[109]"
        and item = listing_item and f = "stored_file demo_file"] demo_env_codec
      up ev it with_item_up
    by (simp add: listing_files demo_file_hash with_item_views listing_item_stored split: prod.splits)
qed

section \<open>The migration status among the entries\<close>

lemma idx_ForEach_collects:
  "idx_ForEach_loop es (\<lambda>k m ks. (None, ks @ [f k m])) acc = (None, acc @ map (\<lambda>(k, m). f k m) es)"
  by (induction es arbitrary: acc) auto

lemma ForEachMeta_collects:
  "store_ForEachMeta s (\<lambda>k m ks. (None, ks @ [f k m])) acc =
     (if s_closed s then (Some ErrStoreClosed, acc)
      else (None, acc @ map (\<lambda>(k, m). f k m) (entries (s_index s))))"
  by (simp add: store_ForEachMeta_def idx_ForEach_def idx_ForEach_collects)

definition list_infos :: "storage \<Rightarrow> entry_meta_info list" where
  "list_infos st = snd (entry_ForEachMeta st (\<lambda>i c. (None, c @ [i])) [])"

lemma abs_listed:
  assumes "store_up s" "store_abs s k = Some (v, m)"
  shows "\<exists>e. (k, e) \<in> set (entries (s_index s)) \<and> meta_of e = m"
  using assms(2) by (auto simp: store_abs_def idx_Get_map_of dest: map_of_SomeD split: option.splits sum.splits)

text \<open>The migration status reads back, with its times cut to seconds and its counters to 32 bits. It is
  kept among the entries, and the listing of entries that serves the folders includes it, as an
  entry with an empty name.\<close>

lemma migration_status_is_listed:
  assumes "codec_ok env" "store_up (st_entries st)"
    and "marshalStatus env (SystemMigrationStatusToProto status) = Some d" "put_fits migration_key d None"
  shows "case SaveMigrationStatus env st status of (r, st1) \<Rightarrow>
      if r = None then
        fst (GetMigrationStatus env st1)
            = Inr (status\<lparr>ms_Total := i32 (ms_Total status), ms_Completed := i32 (ms_Completed status),
                ms_Errors := i32 (ms_Errors status), ms_StartedAt := stored_time (ms_StartedAt status),
                ms_UpdatedAt := stored_time (ms_UpdatedAt status)\<rparr>)
        \<and> (\<exists>i. i \<in> set (list_infos st1) \<and> mi_InfoHash i = migration_key \<and> mi_Name i = [])
      else store_abs (st_entries st1) = store_abs (st_entries st)"
proof -
  obtain r s1 where p: "store_Put (st_entries st) migration_key d None = (r, s1)" by fastforce
  note law = kv.put_law[OF assms(2,4) p]
  have run: "SaveMigrationStatus env st status = (map_option InStore r, st\<lparr>st_entries := s1\<rparr>)"
    using assms(3) p by (simp add: SaveMigrationStatus_def)
  show ?thesis
  proof (cases r)
    case None
    with law have up: "store_up s1" and ab: "store_abs s1 migration_key = Some (d, meta_or None)" by simp_all
    obtain q s2 where g: "store_Get s1 migration_key = (q, s2)" by fastforce
    with kv.get_law[OF up g] ab have "q = Inr d" by simp
    moreover have "unmarshalStatus env d = Some (SystemMigrationStatusToProto status)"
      using assms(1,3) by (simp add: codec_ok_def)
    moreover obtain e where e: "(migration_key, e) \<in> set (entries (s_index s1))" "meta_of e = meta_or None"
      using abs_listed[OF up ab] by blast
    have "Name e = []"
      using arg_cong[OF e(2), of mName] by (simp add: meta_of_def meta_or_def no_meta_def)
    moreover have "\<not> s_closed s1" using up by (simp add: store_up_def)
    ultimately show ?thesis
      using None run g e(1)
      by (force simp: GetMigrationStatus_def migration_roundtrip list_infos_def entry_ForEachMeta_def
          ForEachMeta_collects meta_info_def)
  qed (use law run in simp)
qed

definition demo_status :: migration_status where
  "demo_status = \<lparr>ms_Running = True, ms_Total = 3, ms_Completed = 1, ms_Errors = 0, ms_StartedAt = 0,
     ms_UpdatedAt = 0, ms_ErrorList = []\<rparr>"

definition status_env :: env where
  "status_env = base_env
     \<lparr>marshalStatus := \<lambda>x. if x = SystemMigrationStatusToProto demo_status then Some [5] else None,
      unmarshalStatus := \<lambda>d. if d = [5] then Some (SystemMigrationStatusToProto demo_status) else None\<rparr>"

lemma migration_status_is_listed_witness:
  "case SaveMigrationStatus status_env demo_storage demo_status of (r, st1) \<Rightarrow>
     if r = None then \<exists>i. i \<in> set (list_infos st1) \<and> mi_InfoHash i = migration_key \<and> mi_Name i = []
     else store_abs (st_entries st1) = store_abs (st_entries demo_storage)"
proof -
  have "put_fits migration_key [5] None"
    by (simp add: put_fits_def meta_or_def no_meta_def record_fits_def fits64_def migration_key_def gs_def)
  moreover have "codec_ok status_env" "marshalStatus status_env (SystemMigrationStatusToProto demo_status) = Some [5]"
    by (simp_all add: codec_ok_def status_env_def base_env_def)
  ultimately show ?thesis
    using migration_status_is_listed[of status_env demo_storage demo_status "[5]"] demo_storage_up
    by (auto split: prod.splits if_splits)
qed

end
