(* ===== verification/Job_Queues.thy ===== *)
theory Job_Queues
  imports Contracts Entry_Storage "HOL-Library.Multiset"
begin

text \<open>
  The queues of work of the manager: \<open>pkg/manager/queue.go\<close> (the bounded queue of import requests, the
  operations on queued entries, the queue of NZB jobs) and \<open>pkg/manager/jobqueue.go\<close> (the unbounded
  queue of jobs with its workers). Each operation runs under the lock of its queue and is one step.
  A queue of the code is a slice: here its elements and, where the code asks for it, its capacity. A
  pop that returns \<open>None\<close> waits on the condition variable. Requests and jobs are values; the code holds
  pointers to them, but changes a request only when it is in no queue.
\<close>

section \<open>Requests\<close>

record magnet =
  mg_Name :: gostring
  mg_InfoHash :: gostring
  mg_Size :: int
  mg_Link :: gostring
  mg_File :: "byte list option"

record arr =
  ar_Name :: gostring
  ar_Host :: gostring
  ar_Token :: gostring
  ar_Type :: gostring
  ar_Cleanup :: bool
  ar_SkipRepair :: bool
  ar_DownloadUncached :: "bool option"
  ar_SelectedDebrid :: gostring
  ar_Source :: gostring

record import_request =
  iq_Name :: gostring
  iq_NZBContent :: "byte list"
  iq_Id :: gostring
  iq_DownloadFolder :: gostring
  iq_SelectedDebrid :: gostring
  iq_Magnet :: "magnet option"
  iq_Arr :: "arr option"
  iq_Action :: gostring
  iq_DownloadUncached :: "bool option"
  iq_CallBackUrl :: gostring
  iq_SkipMultiSeason :: bool
  iq_Status :: gostring
  iq_CompletedAt :: gotime
  iq_Error :: gostring
  iq_Type :: gostring
  iq_Async :: bool

text \<open>The constructors; \<open>uuid\<close> is the fresh identifier. A nil arr is a panic (\<open>None\<close>).\<close>

definition NewTorrentRequest ::
  "gostring \<Rightarrow> gostring \<Rightarrow> gostring \<Rightarrow> magnet option \<Rightarrow> arr option \<Rightarrow> gostring \<Rightarrow> bool option \<Rightarrow> gostring \<Rightarrow> gostring \<Rightarrow> bool
     \<Rightarrow> import_request option" where
  "NewTorrentRequest uuid debrid downloadFolder magnet a action downloadUncached callBackUrl importType skipMultiSeason =
     (case a of
        None \<Rightarrow> None
      | Some ar \<Rightarrow> Some
          \<lparr>iq_Name = [], iq_NZBContent = [], iq_Id = uuid, iq_DownloadFolder = downloadFolder,
           iq_SelectedDebrid = (if ar_SelectedDebrid ar \<noteq> [] then ar_SelectedDebrid ar else debrid),
           iq_Magnet = magnet, iq_Arr = a, iq_Action = action, iq_DownloadUncached = downloadUncached,
           iq_CallBackUrl = callBackUrl, iq_SkipMultiSeason = skipMultiSeason, iq_Status = gs ''started'',
           iq_CompletedAt = 0, iq_Error = [], iq_Type = importType, iq_Async = False\<rparr>)"

definition NewNZBRequest ::
  "gostring \<Rightarrow> gostring \<Rightarrow> gostring \<Rightarrow> byte list \<Rightarrow> arr option \<Rightarrow> gostring \<Rightarrow> gostring \<Rightarrow> gostring \<Rightarrow> bool \<Rightarrow> import_request" where
  "NewNZBRequest uuid name downloadFolder nzbContent a action callBackUrl importType skipMultiSeason =
     \<lparr>iq_Name = name, iq_NZBContent = nzbContent, iq_Id = uuid, iq_DownloadFolder = downloadFolder,
      iq_SelectedDebrid = usenet, iq_Magnet = None, iq_Arr = a, iq_Action = action, iq_DownloadUncached = None,
      iq_CallBackUrl = callBackUrl, iq_SkipMultiSeason = skipMultiSeason, iq_Status = gs ''started'',
      iq_CompletedAt = 0, iq_Error = [], iq_Type = importType, iq_Async = False\<rparr>"

section \<open>The queue of import requests\<close>

datatype queue_error = RequestNil | ShuttingDown | QueueFull | NoRequests | MagnetRequired | ArrRequired | JobQueueClosed

record request_queue =
  rq_items :: "import_request list"
  rq_cap :: nat
  rq_done :: bool
  removeStalledAfter :: int

text \<open>\<open>parse\<close> stands for \<open>utils.ParseDuration\<close>.\<close>

definition newQueue :: "(gostring \<Rightarrow> int option) \<Rightarrow> nat \<Rightarrow> gostring \<Rightarrow> request_queue" where
  "newQueue parse n removeStalledAfterStr =
     \<lparr>rq_items = [], rq_cap = n, rq_done = False,
      removeStalledAfter =
        (if removeStalledAfterStr \<noteq> []
         then (case parse removeStalledAfterStr of Some d \<Rightarrow> d | None \<Rightarrow> 0) else 0)\<rparr>"

definition PushRequest :: "request_queue \<Rightarrow> import_request option \<Rightarrow> queue_error option \<times> request_queue" where
  "PushRequest q req =
     (case req of
        None \<Rightarrow> (Some RequestNil, q)
      | Some r \<Rightarrow>
          if rq_done q then (Some ShuttingDown, q)
          else if length (rq_items q) \<ge> rq_cap q then (Some QueueFull, q)
          else (None, q\<lparr>rq_items := rq_items q @ [r]\<rparr>))"

text \<open>\<open>q.queue[1:]\<close> also gives up the first slot of the array below.\<close>

definition PopRequest :: "request_queue \<Rightarrow> (queue_error + import_request) \<times> request_queue" where
  "PopRequest q =
     (if rq_done q then (Inl ShuttingDown, q)
      else case rq_items q of
             [] \<Rightarrow> (Inl NoRequests, q)
           | r # rest \<Rightarrow> (Inr r, q\<lparr>rq_items := rest, rq_cap := rq_cap q - 1\<rparr>))"

definition ReQueue :: "request_queue \<Rightarrow> import_request \<Rightarrow> queue_error option \<times> request_queue \<times> import_request" where
  "ReQueue q r =
     (if iq_Magnet r = None then (Some MagnetRequired, q, r)
      else if iq_Arr r = None then (Some ArrRequired, q, r)
      else
        let r1 = r\<lparr>iq_Status := gs ''queued'', iq_CompletedAt := 0, iq_Error := []\<rparr>
        in case PushRequest q (Some r1) of (err, q') \<Rightarrow> (err, q', r1))"

fun first_match :: "('a \<Rightarrow> bool) \<Rightarrow> 'a list \<Rightarrow> nat option" where
  "first_match p [] = None"
| "first_match p (x # xs) = (if p x then Some 0 else map_option Suc (first_match p xs))"

definition DeleteRequest :: "request_queue \<Rightarrow> gostring \<Rightarrow> bool \<times> request_queue" where
  "DeleteRequest q requestID =
     (case first_match (\<lambda>r. iq_Id r = requestID) (rq_items q) of
        None \<Rightarrow> (False, q)
      | Some i \<Rightarrow> (True, q\<lparr>rq_items := take i (rq_items q) @ drop (i + 1) (rq_items q)\<rparr>))"

text \<open>The loop of \<open>DeleteRequestWhere\<close> from the back.\<close>

fun delete_where :: "('a \<Rightarrow> bool) option \<Rightarrow> nat \<Rightarrow> 'a list \<Rightarrow> nat \<Rightarrow> 'a list \<times> nat" where
  "delete_where predicate 0 xs deleted = (xs, deleted)"
| "delete_where predicate (Suc i) xs deleted =
     (if predicate = None \<or> the predicate (xs ! i)
      then delete_where predicate i (take i xs @ drop (i + 1) xs) (deleted + 1)
      else delete_where predicate i xs deleted)"

definition DeleteRequestWhere :: "request_queue \<Rightarrow> (import_request \<Rightarrow> bool) option \<Rightarrow> nat \<times> request_queue" where
  "DeleteRequestWhere q predicate =
     (case delete_where predicate (length (rq_items q)) (rq_items q) 0 of
        (xs, n) \<Rightarrow> (n, q\<lparr>rq_items := xs\<rparr>))"

definition FindRequest :: "request_queue \<Rightarrow> gostring \<Rightarrow> import_request option" where
  "FindRequest q requestID = find (\<lambda>r. iq_Id r = requestID) (rq_items q)"

definition RequestsSize :: "request_queue \<Rightarrow> nat" where
  "RequestsSize q = length (rq_items q)"

definition IsEmpty :: "request_queue \<Rightarrow> bool" where
  "IsEmpty q \<longleftrightarrow> RequestsSize q = 0"

definition queue_Close :: "request_queue \<Rightarrow> request_queue" where
  "queue_Close q = q\<lparr>rq_done := True\<rparr>"

section \<open>Queued entries\<close>

text \<open>The entries wait in the store \<open>queue\<close> of \<open>storage\<close>. \<open>Delete\<close> removes the downloaded path of the entry
  and then calls the cleanup it was given; the paths removed are returned.\<close>

definition queue_Delete :: "env \<Rightarrow> storage \<Rightarrow> gostring \<Rightarrow> store_error option \<times> gostring list \<times> storage" where
  "queue_Delete env st infohash =
     (case DeleteQueued env st infohash True of
        (err, cleaned, st1) \<Rightarrow>
          (err, (case cleaned of
                   None \<Rightarrow> []
                 | Some e \<Rightarrow> if DownloadPath e \<noteq> [] then [DownloadPath e] else []), st1))"

definition ProtocolAll :: gostring where
  "ProtocolAll = []"

definition ListFilterFunc :: "gostring \<Rightarrow> gostring \<Rightarrow> gostring \<Rightarrow> gostring list \<Rightarrow> (entry \<Rightarrow> bool) option" where
  "ListFilterFunc category protocol state hashes =
     (if category \<noteq> [] \<or> length hashes \<noteq> 0 \<or> state \<noteq> [] \<or> protocol \<noteq> ProtocolAll
      then Some (\<lambda>t.
             if category \<noteq> [] \<and> en_Category t \<noteq> category then False
             else if state \<noteq> [] \<and> en_State t \<noteq> state then False
             else if length hashes > 0 \<and> en_InfoHash t \<notin> set hashes then False
             else if protocol \<noteq> ProtocolAll \<and> en_Protocol t \<noteq> protocol then False
             else True)
      else None)"

definition DeleteWhere ::
  "env \<Rightarrow> storage \<Rightarrow> gostring \<Rightarrow> gostring \<Rightarrow> gostring \<Rightarrow> gostring list \<Rightarrow> entry list \<times> storage" where
  "DeleteWhere env st category protocol state hashes =
     DeleteWhereQueued env st (ListFilterFunc category protocol state hashes)"

text \<open>The predicate of \<open>DeleteStalled\<close>.\<close>

definition stalled :: "gotime \<Rightarrow> entry \<Rightarrow> bool" where
  "stalled cutoff t =
     (if \<not> en_AddedOn t < cutoff then False
      else if en_Status t \<noteq> TorrentStatusDownloading \<and> en_Seeders t = 0 \<and> f64_is_zero (en_Progress t) then True
      else if en_State t = EntryStateError \<and> f64_is_zero (en_Progress t) then True
      else False)"

definition DeleteStalled :: "env \<Rightarrow> gotime \<Rightarrow> request_queue \<Rightarrow> storage \<Rightarrow> entry list \<times> storage" where
  "DeleteStalled env now q st = DeleteWhereQueued env st (Some (stalled (now + i64 (- removeStalledAfter q))))"

text \<open>The comparison that \<open>ListFilter\<close> sorts by, of the entries at the two places it is called for; \<open>None\<close>: it
  dereferences nil. Floating-point progress is compared by the caller's \<open>flt\<close>.\<close>

definition list_less ::
  "(float64 \<Rightarrow> float64 \<Rightarrow> bool) \<Rightarrow> gostring \<Rightarrow> bool \<Rightarrow> entry \<Rightarrow> entry \<Rightarrow> bool option" where
  "list_less flt sortBy reverse x y =
     (let (a, b) = (if \<not> reverse then (y, x) else (x, y))
      in if sortBy = gs ''name'' then Some (en_Name a < en_Name b)
         else if sortBy = gs ''size'' then Some (en_Size a < en_Size b)
         else if sortBy = gs ''added_on'' then Some (en_AddedOn a < en_AddedOn b)
         else if sortBy = gs ''completed'' \<or> sortBy = gs ''downloaded'' then
           (case (en_CompletedAt a, en_CompletedAt b) of
              (Some s, Some t) \<Rightarrow> Some (s < t)
            | _ \<Rightarrow> None)
         else if sortBy = gs ''progress'' then Some (flt (en_Progress a) (en_Progress b))
         else if sortBy = gs ''category'' then Some (en_Category a < en_Category b)
         else if sortBy = gs ''seeders'' then Some (en_Seeders a < en_Seeders b)
         else Some (en_AddedOn a < en_AddedOn b))"

section \<open>The queue of NZB jobs\<close>

record 'j nzb_queue =
  nq_jobs :: "'j list"
  nq_closed :: bool

definition newNzbJobQueue :: "'j nzb_queue" where
  "newNzbJobQueue = \<lparr>nq_jobs = [], nq_closed = False\<rparr>"

definition nzb_Push :: "'j nzb_queue \<Rightarrow> 'j \<Rightarrow> 'j nzb_queue" where
  "nzb_Push q job = q\<lparr>nq_jobs := nq_jobs q @ [job]\<rparr>"

definition nzb_Pop :: "'j nzb_queue \<Rightarrow> ('j option \<times> 'j nzb_queue) option" where
  "nzb_Pop q =
     (if nq_jobs q = [] \<and> \<not> nq_closed q then None
      else if nq_closed q \<and> length (nq_jobs q) = 0 then Some (None, q)
      else Some (Some (hd (nq_jobs q)), q\<lparr>nq_jobs := tl (nq_jobs q)\<rparr>))"

definition nzb_Len :: "'j nzb_queue \<Rightarrow> nat" where
  "nzb_Len q = length (nq_jobs q)"

definition nzb_Close :: "'j nzb_queue \<Rightarrow> 'j nzb_queue" where
  "nzb_Close q = q\<lparr>nq_closed := True\<rparr>"

section \<open>The queue of jobs\<close>

text \<open>The metadata of an NZB and its file groups are of any type.\<close>

record ('m, 'g) job =
  jb_ID :: gostring
  jb_Type :: gostring
  jb_Request :: import_request
  jb_NZBMeta :: "'m option"
  jb_NZBGroups :: "'g option"
  jb_Entry :: "entry option"
  jb_CreatedAt :: gotime

definition NewJob :: "gotime \<Rightarrow> gostring \<Rightarrow> import_request \<Rightarrow> ('m, 'g) job" where
  "NewJob now jobType req =
     \<lparr>jb_ID = iq_Id req, jb_Type = jobType, jb_Request = req, jb_NZBMeta = None, jb_NZBGroups = None,
      jb_Entry = None, jb_CreatedAt = now\<rparr>"

record ('m, 'g) job_queue =
  jq_jobs :: "('m, 'g) job list"
  jq_closed :: bool

definition Submit :: "('m, 'g) job_queue \<Rightarrow> ('m, 'g) job \<Rightarrow> queue_error option \<times> ('m, 'g) job_queue" where
  "Submit q job =
     (if jq_closed q then (Some JobQueueClosed, q)
      else (None, q\<lparr>jq_jobs := jq_jobs q @ [job]\<rparr>))"

definition jobs_Len :: "('m, 'g) job_queue \<Rightarrow> nat" where
  "jobs_Len q = length (jq_jobs q)"

text \<open>What \<open>Close\<close> does before it waits for the workers.\<close>

definition jobs_Close :: "('m, 'g) job_queue \<Rightarrow> ('m, 'g) job_queue" where
  "jobs_Close q = q\<lparr>jq_closed := True\<rparr>"

definition jobs_pop :: "('m, 'g) job_queue \<Rightarrow> (('m, 'g) job option \<times> ('m, 'g) job_queue) option" where
  "jobs_pop q =
     (if length (jq_jobs q) = 0 \<and> \<not> jq_closed q then None
      else if jq_closed q \<and> length (jq_jobs q) = 0 then Some (None, q)
      else Some (Some (hd (jq_jobs q)), q\<lparr>jq_jobs := tl (jq_jobs q)\<rparr>))"

definition DeleteJob :: "('m, 'g) job_queue \<Rightarrow> gostring \<Rightarrow> bool \<times> ('m, 'g) job_queue" where
  "DeleteJob q jobID =
     (case first_match (\<lambda>j. jb_ID j = jobID) (jq_jobs q) of
        None \<Rightarrow> (False, q)
      | Some i \<Rightarrow> (True, q\<lparr>jq_jobs := take i (jq_jobs q) @ drop (i + 1) (jq_jobs q)\<rparr>))"

definition FindJob :: "('m, 'g) job_queue \<Rightarrow> gostring \<Rightarrow> ('m, 'g) job option" where
  "FindJob q jobID = find (\<lambda>j. jb_ID j = jobID) (jq_jobs q)"

definition PendingCount :: "('m, 'g) job_queue \<Rightarrow> gostring \<Rightarrow> nat" where
  "PendingCount q jobType =
     (if jobType = [] then length (jq_jobs q)
      else length (filter (\<lambda>j. jb_Type j = jobType) (jq_jobs q)))"

section \<open>Workers\<close>

text \<open>A worker waits for a job, processes one, or has left its loop. The pool also records what was
  submitted, processed and deleted.\<close>

datatype 'j worker = Idle | Processing 'j | Exited

record ('m, 'g) pool =
  pl_queue :: "('m, 'g) job_queue"
  pl_workers :: "('m, 'g) job worker list"
  pl_submitted :: "('m, 'g) job list"
  pl_processed :: "('m, 'g) job list"
  pl_deleted :: "('m, 'g) job list"

definition NewJobQueue :: "int \<Rightarrow> ('m, 'g) pool" where
  "NewJobQueue maxWorkers =
     \<lparr>pl_queue = \<lparr>jq_jobs = [], jq_closed = False\<rparr>,
      pl_workers = replicate (nat (if maxWorkers \<le> 0 then 5 else maxWorkers)) Idle,
      pl_submitted = [], pl_processed = [], pl_deleted = []\<rparr>"

text \<open>A turn of \<open>worker\<close> is three steps: it takes a job, it has processed it, or it leaves.\<close>

inductive work_step :: "('m, 'g) pool \<Rightarrow> ('m, 'g) pool \<Rightarrow> bool" where
  take_job: "i < length (pl_workers p) \<Longrightarrow> pl_workers p ! i = Idle \<Longrightarrow> jobs_pop (pl_queue p) = Some (Some j, q) \<Longrightarrow>
    work_step p (p\<lparr>pl_queue := q, pl_workers := (pl_workers p)[i := Processing j]\<rparr>)"
| finish_job: "i < length (pl_workers p) \<Longrightarrow> pl_workers p ! i = Processing j \<Longrightarrow>
    work_step p (p\<lparr>pl_workers := (pl_workers p)[i := Idle], pl_processed := pl_processed p @ [j]\<rparr>)"
| leave: "i < length (pl_workers p) \<Longrightarrow> pl_workers p ! i = Idle \<Longrightarrow> jobs_pop (pl_queue p) = Some (None, q) \<Longrightarrow>
    work_step p (p\<lparr>pl_queue := q, pl_workers := (pl_workers p)[i := Exited]\<rparr>)"

inductive pool_step :: "('m, 'g) pool \<Rightarrow> ('m, 'g) pool \<Rightarrow> bool" where
  work: "work_step p p' \<Longrightarrow> pool_step p p'"
| submit: "Submit (pl_queue p) j = (None, q) \<Longrightarrow>
    pool_step p (p\<lparr>pl_queue := q, pl_submitted := pl_submitted p @ [j]\<rparr>)"
| remove: "FindJob (pl_queue p) i = Some j \<Longrightarrow> DeleteJob (pl_queue p) i = (True, q) \<Longrightarrow>
    pool_step p (p\<lparr>pl_queue := q, pl_deleted := pl_deleted p @ [j]\<rparr>)"
| close: "pool_step p (p\<lparr>pl_queue := jobs_Close (pl_queue p)\<rparr>)"

section \<open>Queues are first in, first out\<close>

lemma first_match_props: "first_match p xs = Some i \<Longrightarrow> i < length xs \<and> p (xs ! i) \<and> find p xs = Some (xs ! i)"
  by (induction xs arbitrary: i) (auto split: if_splits)

lemma first_match_find: "first_match p xs = None \<longleftrightarrow> find p xs = None"
  by (induction xs) auto

lemma subseq_cut: "subseq (take i xs @ drop (i + 1) xs) xs"
proof -
  have "subseq (drop (i + 1) xs) (drop i xs)" by (metis Suc_eq_plus1 drop_Suc subseq_order.order_refl suffix_drop suffix_imp_subseq drop_drop add.commute plus_1_eq_Suc)
  then have "subseq (take i xs @ drop (i + 1) xs) (take i xs @ drop i xs)"
    by (rule list_emb_append_mono[OF subseq_order.order_refl])
  then show ?thesis by simp
qed

lemma delete_where_spec:
  "i \<le> length xs \<Longrightarrow> delete_where pred i xs n =
     (filter (\<lambda>x. \<not> (pred = None \<or> the pred x)) (take i xs) @ drop i xs,
      n + length (filter (\<lambda>x. pred = None \<or> the pred x) (take i xs)))"
proof (induction pred i xs n rule: delete_where.induct)
  case (2 pred i xs n)
  then have i: "i < length xs" by simp
  have t: "take (Suc i) xs = take i xs @ [xs ! i]" using i by (rule take_Suc_conv_app_nth)
  have d: "drop i xs = xs ! i # drop (Suc i) xs" using i by (rule Cons_nth_drop_Suc[symmetric])
  show ?case
  proof (cases "pred = None \<or> the pred (xs ! i)")
    case True
    with 2(1)[OF True] i show ?thesis by (simp add: t)
  next
    case False
    then obtain f where f: "pred = Some f" "\<not> f (xs ! i)" by auto
    with 2(2)[OF False] i show ?thesis by (simp add: t d)
  qed
qed simp

text \<open>What the interface asks for: whether a push is accepted, and deletions by predicate.\<close>

definition push_request :: "request_queue \<Rightarrow> import_request \<Rightarrow> bool \<times> request_queue" where
  "push_request q r = (case PushRequest q (Some r) of (err, q') \<Rightarrow> (err = None, q'))"

definition pop_request :: "request_queue \<Rightarrow> import_request option \<times> request_queue" where
  "pop_request q = (case PopRequest q of (Inr r, q') \<Rightarrow> (Some r, q') | (Inl e, q') \<Rightarrow> (None, q'))"

definition drop_requests :: "(import_request \<Rightarrow> bool) option \<Rightarrow> request_queue \<Rightarrow> request_queue" where
  "drop_requests pred q = snd (DeleteRequestWhere q pred)"

definition submit_job :: "('m, 'g) job_queue \<Rightarrow> ('m, 'g) job \<Rightarrow> bool \<times> ('m, 'g) job_queue" where
  "submit_job q j = (case Submit q j of (err, q') \<Rightarrow> (err = None, q'))"

definition take_next :: "('m, 'g) job_queue \<Rightarrow> ('m, 'g) job option \<times> ('m, 'g) job_queue" where
  "take_next q = (case jobs_pop q of None \<Rightarrow> (None, q) | Some r \<Rightarrow> r)"

definition drop_job :: "gostring \<Rightarrow> ('m, 'g) job_queue \<Rightarrow> ('m, 'g) job_queue" where
  "drop_job i q = snd (DeleteJob q i)"

definition push_nzb :: "'j nzb_queue \<Rightarrow> 'j \<Rightarrow> bool \<times> 'j nzb_queue" where
  "push_nzb q j = (True, nzb_Push q j)"

definition take_nzb :: "'j nzb_queue \<Rightarrow> 'j option \<times> 'j nzb_queue" where
  "take_nzb q = (case nzb_Pop q of None \<Rightarrow> (None, q) | Some r \<Rightarrow> r)"

interpretation rq: fifo push_request pop_request drop_requests rq_items
proof
  show "subseq (rq_items (drop_requests d q)) (rq_items q)" for d q
    by (simp add: drop_requests_def DeleteRequestWhere_def delete_where_spec)
qed (auto simp: push_request_def pop_request_def PushRequest_def PopRequest_def
    split: if_splits list.splits)

interpretation jq: fifo submit_job take_next drop_job jq_jobs
proof
  show "subseq (jq_jobs (drop_job i q)) (jq_jobs q)" for i and q :: "('m, 'g) job_queue"
    using subseq_cut[of _ "jq_jobs q"] by (auto simp: drop_job_def DeleteJob_def split: option.split)
qed (auto simp: submit_job_def take_next_def Submit_def jobs_pop_def split: if_splits)

interpretation nq: fifo push_nzb take_nzb "\<lambda>(d :: unit) q. q" nq_jobs
  by unfold_locales (auto simp: push_nzb_def take_nzb_def nzb_Push_def nzb_Pop_def split: if_splits)

section \<open>The queues as lists\<close>

text \<open>The queues as their clients see them: calls with answers. A pop that waits for a job is the
  answer \<open>Waiting\<close> and changes nothing.\<close>

datatype 'j queue_answer =
    Accepted
  | Rejected queue_error
  | Popped 'j
  | Drained
  | Waiting
  | Deleted bool
  | Dropped nat
  | Located "'j option"
  | Pending nat
  | Closed

datatype request_op =
    RPush "import_request option"
  | RPop
  | RDelete gostring
  | RDeleteWhere "(import_request \<Rightarrow> bool) option"
  | RFind gostring
  | RSize
  | RClose

definition answered :: "queue_error option \<Rightarrow> 'j queue_answer" where
  "answered err = (case err of None \<Rightarrow> Accepted | Some e \<Rightarrow> Rejected e)"

fun request_call :: "request_op \<Rightarrow> request_queue \<Rightarrow> (import_request queue_answer \<times> request_queue) option" where
  "request_call (RPush r) q = (case PushRequest q r of (err, q') \<Rightarrow> Some (answered err, q'))"
| "request_call RPop q =
     (case PopRequest q of (Inl e, q') \<Rightarrow> Some (Rejected e, q') | (Inr r, q') \<Rightarrow> Some (Popped r, q'))"
| "request_call (RDelete i) q = (case DeleteRequest q i of (b, q') \<Rightarrow> Some (Deleted b, q'))"
| "request_call (RDeleteWhere p) q = (case DeleteRequestWhere q p of (n, q') \<Rightarrow> Some (Dropped n, q'))"
| "request_call (RFind i) q = Some (Located (FindRequest q i), q)"
| "request_call RSize q = Some (Pending (RequestsSize q), q)"
| "request_call RClose q = Some (Closed, queue_Close q)"

datatype 'j job_op = JSubmit 'j | JPop | JDelete gostring | JFind gostring | JPending gostring | JClose

fun job_call ::
  "('m, 'g) job job_op \<Rightarrow> ('m, 'g) job_queue \<Rightarrow> (('m, 'g) job queue_answer \<times> ('m, 'g) job_queue) option" where
  "job_call (JSubmit j) q = (case Submit q j of (err, q') \<Rightarrow> Some (answered err, q'))"
| "job_call JPop q =
     (case jobs_pop q of
        None \<Rightarrow> Some (Waiting, q)
      | Some (None, q') \<Rightarrow> Some (Drained, q')
      | Some (Some j, q') \<Rightarrow> Some (Popped j, q'))"
| "job_call (JDelete i) q = (case DeleteJob q i of (b, q') \<Rightarrow> Some (Deleted b, q'))"
| "job_call (JFind i) q = Some (Located (FindJob q i), q)"
| "job_call (JPending t) q = Some (Pending (PendingCount q t), q)"
| "job_call JClose q = Some (Closed, jobs_Close q)"

datatype 'j nzb_op = NPush 'j | NPop | NLen | NClose

fun nzb_call :: "'j nzb_op \<Rightarrow> 'j nzb_queue \<Rightarrow> ('j queue_answer \<times> 'j nzb_queue) option" where
  "nzb_call (NPush j) q = Some (Accepted, nzb_Push q j)"
| "nzb_call NPop q =
     (case nzb_Pop q of
        None \<Rightarrow> Some (Waiting, q)
      | Some (None, q') \<Rightarrow> Some (Drained, q')
      | Some (Some j, q') \<Rightarrow> Some (Popped j, q'))"
| "nzb_call NLen q = Some (Pending (nzb_Len q), q)"
| "nzb_call NClose q = Some (Closed, nzb_Close q)"

text \<open>The list queues they refine: additions at the end, the head is taken, the first element of an
  identifier is deleted. The state is the list, the room that is left to the queue of requests, and
  whether it is closed.\<close>

fun remove_first :: "('a \<Rightarrow> bool) \<Rightarrow> 'a list \<Rightarrow> 'a list" where
  "remove_first p [] = []"
| "remove_first p (x # xs) = (if p x then xs else x # remove_first p xs)"

fun request_list ::
  "request_op \<Rightarrow> import_request list \<times> nat \<times> bool
     \<Rightarrow> (import_request queue_answer \<times> import_request list \<times> nat \<times> bool) option" where
  "request_list (RPush None) s = Some (Rejected RequestNil, s)"
| "request_list (RPush (Some r)) (xs, room, closed) =
     (if closed then Some (Rejected ShuttingDown, xs, room, closed)
      else if room \<le> length xs then Some (Rejected QueueFull, xs, room, closed)
      else Some (Accepted, xs @ [r], room, closed))"
| "request_list RPop (xs, room, True) = Some (Rejected ShuttingDown, xs, room, True)"
| "request_list RPop ([], room, False) = Some (Rejected NoRequests, [], room, False)"
| "request_list RPop (x # xs, room, False) = Some (Popped x, xs, room - 1, False)"
| "request_list (RDelete i) (xs, room, closed) =
     Some (Deleted (\<exists>x \<in> set xs. iq_Id x = i), remove_first (\<lambda>x. iq_Id x = i) xs, room, closed)"
| "request_list (RDeleteWhere None) (xs, room, closed) = Some (Dropped (length xs), [], room, closed)"
| "request_list (RDeleteWhere (Some p)) (xs, room, closed) =
     Some (Dropped (length (filter p xs)), filter (\<lambda>x. \<not> p x) xs, room, closed)"
| "request_list (RFind i) (xs, room, closed) =
     Some (Located (find (\<lambda>x. iq_Id x = i) xs), xs, room, closed)"
| "request_list RSize (xs, room, closed) = Some (Pending (length xs), xs, room, closed)"
| "request_list RClose (xs, room, closed) = Some (Closed, xs, room, True)"

fun job_list ::
  "('m, 'g) job job_op \<Rightarrow> ('m, 'g) job list \<times> bool
     \<Rightarrow> (('m, 'g) job queue_answer \<times> ('m, 'g) job list \<times> bool) option" where
  "job_list (JSubmit j) (xs, closed) =
     Some (if closed then (Rejected JobQueueClosed, xs, closed) else (Accepted, xs @ [j], closed))"
| "job_list JPop ([], closed) = Some (if closed then Drained else Waiting, [], closed)"
| "job_list JPop (x # xs, closed) = Some (Popped x, xs, closed)"
| "job_list (JDelete i) (xs, closed) =
     Some (Deleted (\<exists>x \<in> set xs. jb_ID x = i), remove_first (\<lambda>x. jb_ID x = i) xs, closed)"
| "job_list (JFind i) (xs, closed) = Some (Located (find (\<lambda>x. jb_ID x = i) xs), xs, closed)"
| "job_list (JPending t) (xs, closed) =
     Some (Pending (length (filter (\<lambda>x. t = [] \<or> jb_Type x = t) xs)), xs, closed)"
| "job_list JClose (xs, closed) = Some (Closed, xs, True)"

fun nzb_list :: "'j nzb_op \<Rightarrow> 'j list \<times> bool \<Rightarrow> ('j queue_answer \<times> 'j list \<times> bool) option" where
  "nzb_list (NPush j) (xs, closed) = Some (Accepted, xs @ [j], closed)"
| "nzb_list NPop ([], closed) = Some (if closed then Drained else Waiting, [], closed)"
| "nzb_list NPop (x # xs, closed) = Some (Popped x, xs, closed)"
| "nzb_list NLen (xs, closed) = Some (Pending (length xs), xs, closed)"
| "nzb_list NClose (xs, closed) = Some (Closed, xs, True)"

definition request_abs :: "request_queue \<Rightarrow> import_request list \<times> nat \<times> bool" where
  "request_abs q = (rq_items q, rq_cap q, rq_done q)"

definition job_abs :: "('m, 'g) job_queue \<Rightarrow> ('m, 'g) job list \<times> bool" where
  "job_abs q = (jq_jobs q, jq_closed q)"

definition nzb_abs :: "'j nzb_queue \<Rightarrow> 'j list \<times> bool" where
  "nzb_abs q = (nq_jobs q, nq_closed q)"

lemma first_match_remove:
  "(case first_match p xs of None \<Rightarrow> xs | Some i \<Rightarrow> take i xs @ drop (i + 1) xs) = remove_first p xs"
  "first_match p xs = None \<longleftrightarrow> \<not> (\<exists>x \<in> set xs. p x)"
  by (induction xs) (auto split: option.splits)

lemma request_call_list: "map_option (map_prod id request_abs) (request_call x q) = request_list x (request_abs q)"
proof (cases x)
  case (RPush r)
  then show ?thesis
    by (cases r) (auto simp: PushRequest_def request_abs_def answered_def)
next
  case RPop
  then show ?thesis
    by (cases "rq_items q"; cases "rq_done q") (auto simp: PopRequest_def request_abs_def)
next
  case (RDelete i)
  show ?thesis
    unfolding RDelete using first_match_remove[where p = "\<lambda>r. iq_Id r = i" and xs = "rq_items q"]
    by (cases "first_match (\<lambda>r. iq_Id r = i) (rq_items q)") (auto simp: DeleteRequest_def request_abs_def)
next
  case (RDeleteWhere p)
  then show ?thesis
    by (cases p) (auto simp: DeleteRequestWhere_def delete_where_spec request_abs_def)
qed (auto simp: request_abs_def FindRequest_def RequestsSize_def queue_Close_def)

lemma job_call_list: "map_option (map_prod id job_abs) (job_call x q) = job_list x (job_abs q)"
proof (cases x)
  case JPop
  then show ?thesis
    by (cases "jq_jobs q"; cases "jq_closed q") (auto simp: jobs_pop_def job_abs_def)
next
  case (JDelete i)
  show ?thesis
    unfolding JDelete using first_match_remove[where p = "\<lambda>r. jb_ID r = i" and xs = "jq_jobs q"]
    by (cases "first_match (\<lambda>r. jb_ID r = i) (jq_jobs q)") (auto simp: DeleteJob_def job_abs_def)
qed (auto simp: job_abs_def Submit_def answered_def FindJob_def PendingCount_def jobs_Close_def)

lemma nzb_call_list: "map_option (map_prod id nzb_abs) (nzb_call x q) = nzb_list x (nzb_abs q)"
  by (cases x; cases "nq_jobs q"; cases "nq_closed q")
    (auto simp: nzb_abs_def nzb_Push_def nzb_Pop_def nzb_Len_def nzb_Close_def)

lemma refines_by_map:
  "map_option (map_prod id f) r = s \<Longrightarrow>
   case r of None \<Rightarrow> s = None | Some (a, t) \<Rightarrow> True \<and> s = Some (a, f t)"
  by (auto split: option.split)

interpretation request_refines: refinement request_call request_list request_abs "\<lambda>q. True"
  by unfold_locales (rule refines_by_map[OF request_call_list])

interpretation job_refines: refinement job_call job_list job_abs "\<lambda>q. True"
  by unfold_locales (rule refines_by_map[OF job_call_list])

interpretation nzb_refines: refinement nzb_call nzb_list nzb_abs "\<lambda>q. True"
  by unfold_locales (rule refines_by_map[OF nzb_call_list])

section \<open>Lemmas on the pool\<close>

definition in_hand :: "'j worker list \<Rightarrow> 'j list" where
  "in_hand ws = concat (map (\<lambda>w. case w of Processing j \<Rightarrow> [j] | _ \<Rightarrow> []) ws)"

lemma in_hand_update:
  "i < length ws \<Longrightarrow> ws ! i = w \<Longrightarrow>
   mset (in_hand (ws[i := v])) + mset (in_hand [w]) = mset (in_hand ws) + mset (in_hand [v])"
proof -
  assume i: "i < length ws" and w: "ws ! i = w"
  have a: "ws = take i ws @ w # drop (Suc i) ws" using id_take_nth_drop[OF i] w by simp
  have b: "ws[i := v] = take i ws @ v # drop (Suc i) ws" using i by (simp add: upd_conv_take_nth_drop)
  have cut: "mset (in_hand (xs @ x # ys)) = mset (in_hand (xs @ ys)) + mset (in_hand [x])" for xs ys and x :: "'j worker"
    by (simp add: in_hand_def)
  from cut[of "take i ws" w "drop (Suc i) ws"] cut[of "take i ws" v "drop (Suc i) ws"] show ?thesis
    unfolding b a[symmetric] by simp
qed

definition alive :: "'j worker list \<Rightarrow> nat" where
  "alive ws = length (filter (\<lambda>w. w \<noteq> Exited) ws)"

lemma alive_update:
  "i < length ws \<Longrightarrow> ws ! i = w \<Longrightarrow> alive (ws[i := v]) + of_bool (w \<noteq> Exited) = alive ws + of_bool (v \<noteq> Exited)"
proof -
  assume i: "i < length ws" and w: "ws ! i = w"
  have a: "ws = take i ws @ w # drop (Suc i) ws" using id_take_nth_drop[OF i] w by simp
  have b: "ws[i := v] = take i ws @ v # drop (Suc i) ws" using i by (simp add: upd_conv_take_nth_drop)
  have "alive (xs @ x # ys) = alive (xs @ ys) + of_bool (x \<noteq> Exited)" for xs ys and x :: "'j worker"
    by (simp add: alive_def)
  from this[of "take i ws" w "drop (Suc i) ws"] this[of "take i ws" v "drop (Suc i) ws"] show ?thesis
    unfolding b using a by simp
qed

definition pool_inv :: "('m, 'g) pool \<Rightarrow> bool" where
  "pool_inv p \<longleftrightarrow>
     mset (pl_submitted p) = mset (pl_processed p) + mset (pl_deleted p)
       + mset (jq_jobs (pl_queue p)) + mset (in_hand (pl_workers p))
     \<and> (Exited \<in> set (pl_workers p) \<longrightarrow> jq_closed (pl_queue p) \<and> jq_jobs (pl_queue p) = [])
     \<and> pl_workers p \<noteq> []"

text \<open>How many steps the workers have left once the queue is closed.\<close>

definition work_left :: "('m, 'g) pool \<Rightarrow> nat" where
  "work_left p = 2 * length (jq_jobs (pl_queue p)) + length (in_hand (pl_workers p)) + alive (pl_workers p)"

lemma in_hand_simps [simp]: "in_hand [Processing j] = [j]" "in_hand [Idle] = []" "in_hand [Exited] = []"
  by (simp_all add: in_hand_def)

lemma jobs_pop_cases:
  "jobs_pop q = Some (Some j, q') \<longleftrightarrow> (\<exists>js. jq_jobs q = j # js \<and> q' = q\<lparr>jq_jobs := js\<rparr>)"
  "jobs_pop q = Some (None, q') \<longleftrightarrow> jq_closed q \<and> jq_jobs q = [] \<and> q' = q"
  by (cases "jq_jobs q"; auto simp: jobs_pop_def)+

lemma length_in_hand_update:
  "i < length ws \<Longrightarrow> ws ! i = w \<Longrightarrow>
   length (in_hand (ws[i := v])) + length (in_hand [w]) = length (in_hand ws) + length (in_hand [v])"
  using arg_cong[OF in_hand_update[of i ws w v], of size] by simp

lemma work_step_left: "work_step p p' \<Longrightarrow> work_left p = Suc (work_left p')"
proof (induction rule: work_step.induct)
  case (take_job i p j q)
  from take_job(3) obtain js where "jq_jobs (pl_queue p) = j # js" "q = (pl_queue p)\<lparr>jq_jobs := js\<rparr>"
    by (auto simp: jobs_pop_cases)
  with take_job(1) length_in_hand_update[OF take_job(1,2), of "Processing j"]
    alive_update[OF take_job(1,2), of "Processing j"] show ?case by (simp add: work_left_def)
next
  case (finish_job i p j)
  with length_in_hand_update[OF finish_job(1,2), of Idle] alive_update[OF finish_job(1,2), of Idle]
  show ?case by (simp add: work_left_def)
next
  case (leave i p q)
  from leave(3) have "q = pl_queue p" by (simp add: jobs_pop_cases)
  with length_in_hand_update[OF leave(1,2), of Exited] alive_update[OF leave(1,2), of Exited]
  show ?case by (simp add: work_left_def)
qed

lemma work_step_inv: "work_step p p' \<Longrightarrow> pool_inv p \<Longrightarrow> pool_inv p'"
proof (induction rule: work_step.induct)
  case (take_job i p j q)
  from take_job(3) obtain js where js: "jq_jobs (pl_queue p) = j # js" "q = (pl_queue p)\<lparr>jq_jobs := js\<rparr>"
    by (auto simp: jobs_pop_cases)
  have "Exited \<notin> set ((pl_workers p)[i := Processing j])"
    using take_job(4) js(1) set_update_subset_insert[of "pl_workers p" i "Processing j"] by (auto simp: pool_inv_def)
  with take_job(1,4) js in_hand_update[OF take_job(1,2), of "Processing j"] show ?case by (simp add: pool_inv_def)
next
  case (finish_job i p j)
  have "Exited \<in> set ((pl_workers p)[i := Idle]) \<Longrightarrow> Exited \<in> set (pl_workers p)"
    using set_update_subset_insert[of "pl_workers p" i Idle] by auto
  with finish_job(1,3) in_hand_update[OF finish_job(1,2), of Idle] show ?case by (simp add: pool_inv_def)
next
  case (leave i p q)
  from leave(3) have "q = pl_queue p" "jq_closed (pl_queue p)" "jq_jobs (pl_queue p) = []" by (simp_all add: jobs_pop_cases)
  with leave(1,4) in_hand_update[OF leave(1,2), of Exited] show ?case by (simp add: pool_inv_def)
qed

lemma pool_step_inv: "pool_step p p' \<Longrightarrow> pool_inv p \<Longrightarrow> pool_inv p'"
proof (induction rule: pool_step.induct)
  case (remove p i j q)
  from remove(2) obtain k where k: "first_match (\<lambda>j. jb_ID j = i) (jq_jobs (pl_queue p)) = Some k"
    "q = (pl_queue p)\<lparr>jq_jobs := take k (jq_jobs (pl_queue p)) @ drop (k + 1) (jq_jobs (pl_queue p))\<rparr>"
    by (auto simp: DeleteJob_def split: option.splits)
  from first_match_props[OF k(1)] remove(1) have "k < length (jq_jobs (pl_queue p))" "j = jq_jobs (pl_queue p) ! k"
    by (simp_all add: FindJob_def)
  then have "jq_jobs (pl_queue p) = take k (jq_jobs (pl_queue p)) @ j # drop (k + 1) (jq_jobs (pl_queue p))"
    using id_take_nth_drop by simp
  then have "mset (jq_jobs (pl_queue p)) = add_mset j (mset (jq_jobs q))" by (metis k(2) job_queue.select_convs(1)
        job_queue.surjective job_queue.update_convs(1) mset.simps(2) mset_append union_mset_add_mset_right)
  with remove(3) k(2) show ?case by (auto simp: pool_inv_def)
next
  case (work p p')
  then show ?case by (rule work_step_inv)
qed (auto simp: pool_inv_def Submit_def jobs_Close_def split: if_splits)

lemma pool_inv_new: "pool_inv (NewJobQueue n)"
  by (auto simp: pool_inv_def NewJobQueue_def in_hand_def)

lemma pool_inv_reachable: "rtranclp pool_step (NewJobQueue n) p \<Longrightarrow> pool_inv p"
  by (induction rule: rtranclp_induct) (rule pool_inv_new, erule (1) pool_step_inv)

lemma work_step_closed: "work_step p p' \<Longrightarrow> jq_closed (pl_queue p') = jq_closed (pl_queue p)"
  by (induction rule: work_step.induct) (auto simp: jobs_pop_cases)

lemma workers_go_on:
  assumes "pool_inv p" "jq_closed (pl_queue p)" "work_left p \<noteq> 0"
  shows "\<exists>p'. work_step p p'"
proof (cases "\<exists>i < length (pl_workers p). pl_workers p ! i \<noteq> Exited")
  case True
  then obtain i where i: "i < length (pl_workers p)" "pl_workers p ! i \<noteq> Exited" by blast
  show ?thesis
  proof (cases "pl_workers p ! i")
    case Idle
    show ?thesis
    proof (cases "jq_jobs (pl_queue p)")
      case Nil
      with assms(2) have "jobs_pop (pl_queue p) = Some (None, pl_queue p)" by (simp add: jobs_pop_cases)
      with work_step.leave[OF i(1) Idle] show ?thesis by blast
    next
      case (Cons j js)
      then have "jobs_pop (pl_queue p) = Some (Some j, (pl_queue p)\<lparr>jq_jobs := js\<rparr>)" by (simp add: jobs_pop_cases)
      with work_step.take_job[OF i(1) Idle] show ?thesis by blast
    qed
  next
    case (Processing j)
    with work_step.finish_job[OF i(1)] show ?thesis by blast
  qed (use i in simp)
next
  case False
  then have all: "\<forall>w \<in> set (pl_workers p). w = Exited" by (metis in_set_conv_nth)
  then have "alive (pl_workers p) = 0" "in_hand (pl_workers p) = []" by (auto simp: alive_def in_hand_def)
  moreover have "Exited \<in> set (pl_workers p)" using all assms(1) unfolding pool_inv_def by (metis list.set_intros(1) neq_Nil_conv)
  ultimately show ?thesis using assms(1,3) by (simp add: pool_inv_def work_left_def)
qed

lemma work_left_0:
  assumes "work_left p = 0"
  shows "jq_jobs (pl_queue p) = [] \<and> in_hand (pl_workers p) = [] \<and> (\<forall>w \<in> set (pl_workers p). w = Exited)"
  using assms by (auto simp: work_left_def alive_def filter_empty_conv)

lemma work_steps:
  "(work_step ^^ k) p p' \<Longrightarrow> pool_inv p \<Longrightarrow>
   pool_inv p' \<and> work_left p = k + work_left p' \<and> jq_closed (pl_queue p') = jq_closed (pl_queue p)
   \<and> pl_submitted p' = pl_submitted p \<and> pl_deleted p' = pl_deleted p"
proof (induction k arbitrary: p')
  case (Suc k)
  then obtain q where q: "(work_step ^^ k) p q" "work_step q p'" by auto
  have "pl_submitted p' = pl_submitted q \<and> pl_deleted p' = pl_deleted q"
    using q(2) by (induction rule: work_step.induct) simp_all
  with Suc.IH[OF q(1) Suc.prems(2)] work_step_left[OF q(2)] work_step_inv[OF q(2)] work_step_closed[OF q(2)]
  show ?case by simp
qed simp

section \<open>Properties\<close>

text \<open>C28. The bounded queue of import requests never gets back the room of a request that was popped: after
  any sequence of pushes, pops and deletions a push on the open queue is accepted exactly if the
  requests waiting and all the requests ever popped are together fewer than the capacity. After as
  many pops as the capacity, every push fails.\<close>

theorem import_queue_capacity:
  assumes "fifo_run push_request pop_request drop_requests ops (newQueue parse n s, [], []) = (q, accepted, popped)"
  shows "rq_cap q = n - length popped \<and> length (rq_items q) + length popped \<le> n
    \<and> (fst (push_request q r) \<longleftrightarrow> length (rq_items q) + length popped < n)"
proof -
  have inv: "fifo_run push_request pop_request drop_requests ops (q0, acc, out) = (q, accepted, popped) \<Longrightarrow>
    rq_cap q0 + length out = n \<Longrightarrow> length (rq_items q0) \<le> rq_cap q0 \<Longrightarrow> \<not> rq_done q0 \<Longrightarrow>
    rq_cap q + length popped = n \<and> length (rq_items q) \<le> rq_cap q \<and> \<not> rq_done q" for q0 acc out
  proof (induction ops arbitrary: q0 acc out)
    case (Cons a ops)
    show ?case
    proof (cases a)
      case (Push x)
      with Cons show ?thesis by (auto simp: push_request_def PushRequest_def split: if_splits)
    next
      case Pop
      show ?thesis
      proof (cases "rq_items q0")
        case Nil
        with Cons Pop show ?thesis by (auto simp: pop_request_def PopRequest_def)
      next
        case (Cons r rs)
        have "pop_request q0 = (Some r, q0\<lparr>rq_items := rs, rq_cap := rq_cap q0 - 1\<rparr>)"
          using Cons Cons.prems(4) by (simp add: pop_request_def PopRequest_def)
        with Cons.prems Cons.IH[of "q0\<lparr>rq_items := rs, rq_cap := rq_cap q0 - 1\<rparr>" acc "out @ [r]"] Cons Pop
        show ?thesis by simp
      qed
    next
      case (Drop d)
      have "length (rq_items (drop_requests d q0)) \<le> length (rq_items q0)"
        using rq.drop_law list_emb_length by blast
      with Cons Drop show ?thesis
        by (simp add: drop_requests_def DeleteRequestWhere_def split: prod.splits)
    qed
  qed simp
  from inv[OF assms] show ?thesis
    by (auto simp: newQueue_def push_request_def PushRequest_def)
qed

theorem import_queue_capacity_witness:
  "\<not> fst (push_request (fst (fifo_run push_request pop_request drop_requests
      [Push (NewNZBRequest [1] [] [] [] None [] [] [] False), Pop] (newQueue (\<lambda>s. None) 1 [], [], [])))
     (NewNZBRequest [2] [] [] [] None [] [] [] False))"
proof -
  let ?r = "NewNZBRequest [1] [] [] [] None [] [] [] False"
  obtain q where "fifo_run push_request pop_request drop_requests [Push ?r, Pop] (newQueue (\<lambda>s. None) 1 [], [], [])
      = (q, [?r], [?r])"
    by (simp add: push_request_def pop_request_def PushRequest_def PopRequest_def newQueue_def)
  with import_queue_capacity[OF this] show ?thesis by simp
qed

text \<open>C29. The three queues are the list queues: for every sequence of calls each answers exactly as a list
  does to which an accepted element is added at the end, from which a pop takes the head, and from
  which a deletion takes the first element of the identifier (or all those that satisfy the
  predicate), and it holds the list's elements afterwards. A push to the queue of requests is
  refused when it is closed or has no room left; a pop from it when it is closed, even if requests
  wait. The other two hand out what waits after they are closed; the queue of NZB jobs accepts jobs
  even then.\<close>

theorem queues_are_fifo:
  "map_option (map_prod id request_abs) (calls request_call ops1 (newQueue parse n s))
     = calls request_list ops1 ([], n, False)
   \<and> map_option (map_prod id job_abs) (calls job_call ops2 (pl_queue (NewJobQueue m)))
     = calls job_list ops2 ([], False)
   \<and> map_option (map_prod id nzb_abs) (calls nzb_call ops3 newNzbJobQueue)
     = calls nzb_list ops3 ([], False)"
  using request_refines.calls_refine[where s = "newQueue parse n s" and xs = ops1]
    job_refines.calls_refine[where s = "pl_queue (NewJobQueue m)" and xs = ops2]
    nzb_refines.calls_refine[where s = newNzbJobQueue and xs = ops3]
  by (simp add: request_abs_def job_abs_def nzb_abs_def newQueue_def NewJobQueue_def newNzbJobQueue_def)

text \<open>Without deletions, what was popped followed by what is queued is what was accepted, in its
  order.\<close>

lemma nzb_queue_order:
  assumes "fifo_run push_nzb take_nzb (\<lambda>(d :: unit) q. q) ops (newNzbJobQueue, [], []) = (q, accepted, popped)"
    and "\<forall>d. Drop d \<notin> set ops"
  shows "popped @ nq_jobs q = accepted"
  by (rule nq.run_exact[OF assms]) (simp add: newNzbJobQueue_def)

text \<open>C30. No job is lost or done twice: in every order in which producers, workers, deletions and a close
  interleave, each job submitted is exactly one of processed, deleted, waiting or in the hand of a
  worker; and a worker leaves only when the queue is closed and empty.\<close>

theorem jobs_accounted_for:
  assumes "rtranclp pool_step (NewJobQueue n) p"
  shows "mset (pl_submitted p) = mset (pl_processed p) + mset (pl_deleted p)
      + mset (jq_jobs (pl_queue p)) + mset (in_hand (pl_workers p))
    \<and> (Exited \<in> set (pl_workers p) \<longrightarrow> jq_closed (pl_queue p) \<and> jq_jobs (pl_queue p) = [])"
  using pool_inv_reachable[OF assms] by (simp add: pool_inv_def)

definition demo_job :: "(unit, unit) job" where
  "demo_job = NewJob 0 [] (NewNZBRequest [1] [] [] [] None [] [] [] False)"

definition demo_pool :: "(unit, unit) pool" where
  "demo_pool = \<lparr>pl_queue = \<lparr>jq_jobs = [demo_job], jq_closed = True\<rparr>, pl_workers = [Idle],
     pl_submitted = [demo_job], pl_processed = [], pl_deleted = []\<rparr>"

lemma demo_pool_reachable: "rtranclp pool_step (NewJobQueue 1) demo_pool"
proof -
  let ?p = "demo_pool\<lparr>pl_queue := \<lparr>jq_jobs = [demo_job], jq_closed = False\<rparr>\<rparr>"
  have "pool_step (NewJobQueue 1) ?p"
    using pool_step.submit[of "NewJobQueue 1" demo_job] by (simp add: NewJobQueue_def Submit_def demo_pool_def)
  moreover have "pool_step ?p demo_pool"
    using pool_step.close[of ?p] by (simp add: jobs_Close_def demo_pool_def)
  ultimately show ?thesis by (meson converse_rtranclp_into_rtranclp r_into_rtranclp)
qed

theorem jobs_accounted_for_witness:
  "mset (pl_submitted demo_pool) = mset (pl_processed demo_pool) + mset (pl_deleted demo_pool)
      + mset (jq_jobs (pl_queue demo_pool)) + mset (in_hand (pl_workers demo_pool))"
  using jobs_accounted_for[OF demo_pool_reachable] by blast

text \<open>C31. Closing the queue ends the workers after the work is done: from a closed queue the workers make
  a number of steps that is known beforehand, whatever their order; before it is reached some
  worker can go on, and when it is reached every worker has left, no job waits, and every job
  submitted was processed or deleted.\<close>

theorem close_drains_queue:
  assumes "rtranclp pool_step (NewJobQueue n) p" "jq_closed (pl_queue p)" "(work_step ^^ k) p p'"
  shows "k \<le> work_left p
    \<and> (if k < work_left p then \<exists>p''. work_step p' p''
       else (\<forall>w \<in> set (pl_workers p'). w = Exited) \<and> jq_jobs (pl_queue p') = []
         \<and> mset (pl_submitted p) = mset (pl_processed p') + mset (pl_deleted p'))"
proof -
  have inv: "pool_inv p" by (rule pool_inv_reachable[OF assms(1)])
  note st = work_steps[OF assms(3) inv]
  show ?thesis
  proof (cases "k < work_left p")
    case True
    with st workers_go_on[of p'] assms(2) show ?thesis by simp
  next
    case False
    with st have "work_left p' = 0" by simp
    with work_left_0 have z: "jq_jobs (pl_queue p') = []" "in_hand (pl_workers p') = []"
      "\<forall>w \<in> set (pl_workers p'). w = Exited" by blast+
    have "mset (pl_submitted p') = mset (pl_processed p') + mset (pl_deleted p')"
      using z(1,2) conjunct1[OF st] by (simp add: pool_inv_def)
    with st z False show ?thesis by auto
  qed
qed

theorem close_drains_queue_witness:
  "\<exists>p'. work_step demo_pool p'"
proof -
  have "(work_step ^^ 0) demo_pool demo_pool" "jq_closed (pl_queue demo_pool)" "0 < work_left demo_pool"
    by (simp_all add: demo_pool_def work_left_def)
  with close_drains_queue[OF demo_pool_reachable] show ?thesis by metis
qed

text \<open>Removing stalled entries removes exactly the queued entries that were added before the cutoff, have
  no progress, and are either in error or neither downloading nor seeded; every other queued entry
  stays. It needs room on the disk for the tombstones.\<close>

lemma DeleteStalled_exact:
  assumes "store_up (st_queue st)"
    and "DiskSize (st_queue st) + sum_list (map (tombstone_size \<circ> fst) (live_records (st_queue st)))
      \<le> fs_limit (s_fs (st_queue st))"
  shows "case DeleteStalled env now q st of (cleaned, st1) \<Rightarrow>
      store_up (st_queue st1)
      \<and> (\<forall>k. store_abs (st_queue st1) k =
            (case queue_view env st k of
               None \<Rightarrow> store_abs (st_queue st) k
             | Some e \<Rightarrow>
                 if en_AddedOn e < now + i64 (- removeStalledAfter q) \<and> f64_is_zero (en_Progress e)
                    \<and> (en_State e = EntryStateError
                       \<or> en_Status e \<noteq> TorrentStatusDownloading \<and> en_Seeders e = 0)
                 then None else store_abs (st_queue st) k))"
proof -
  have st: "stalled c e \<longleftrightarrow> en_AddedOn e < c \<and> f64_is_zero (en_Progress e)
      \<and> (en_State e = EntryStateError \<or> en_Status e \<noteq> TorrentStatusDownloading \<and> en_Seeders e = 0)" for c e
    by (auto simp: stalled_def)
  show ?thesis
    using DeleteWhereQueued_spec[OF assms, of "Some (stalled (now + i64 (- removeStalledAfter q)))" env]
    unfolding DeleteStalled_def by (simp add: st cong: option.case_cong split: prod.splits)
qed

lemma DeleteStalled_exact_witness:
  "case DeleteStalled (demo_env (demo_entry\<lparr>en_Progress := 0, en_State := EntryStateError\<rparr>) demo_entry
        (fresh_item [1]) (fresh_item [1])) 10000000000 (newQueue (\<lambda>s. Some 5) 1 [49]) demo_queue of (cleaned, st1) \<Rightarrow>
     store_abs (st_queue st1) [97] = None"
proof -
  note ready = demo_queue_ready
  from ready have room: "DiskSize (st_queue demo_queue)
      + sum_list (map (tombstone_size \<circ> fst) (live_records (st_queue demo_queue)))
      \<le> fs_limit (s_fs (st_queue demo_queue))" and up: "store_up (st_queue demo_queue)" by blast+
  let ?e = "demo_entry\<lparr>en_Progress := 0, en_State := EntryStateError\<rparr>"
  have "en_AddedOn (stored_entry ?e) < 9999999995" "f64_is_zero (en_Progress (stored_entry ?e))"
    "en_State (stored_entry ?e) = EntryStateError"
    by (simp_all add: stored_entry_def stored_time_def whole_seconds_def demo_entry_def f64_is_zero_def time_Unix_def t_Unix_def)
  with DeleteStalled_exact[OF up room, where env = "demo_env ?e demo_entry (fresh_item [1]) (fresh_item [1])"
      and now = 10000000000 and q = "newQueue (\<lambda>s. Some 5) 1 [49]"] demo_queue_view(1)[of ?e demo_entry]
  show ?thesis
    by (auto simp: newQueue_def i64_fits split: prod.splits)
qed

text \<open>A delay that cannot be parsed counts as no delay: what is stalled goes at once.\<close>

lemma unparsed_delay_deletes_at_once:
  assumes "parse s = None" "en_AddedOn e < now" "f64_is_zero (en_Progress e)" "en_State e = EntryStateError"
  shows "stalled (now + i64 (- removeStalledAfter (newQueue parse n s))) e"
  using assms by (simp add: newQueue_def stalled_def i64_fits)

text \<open>Sorting by completion dereferences nil as soon as an entry that is not complete is compared.\<close>

lemma list_less_completed_nil:
  "en_CompletedAt x = None \<or> en_CompletedAt y = None \<Longrightarrow> list_less flt (gs ''completed'') backwards x y = None"
  by (auto simp: list_less_def gs_def split: option.splits)

end
