(* ===== verification/Retry.thy ===== *)
theory Retry
  imports Prelude
begin

text \<open>
  The retry loop of \<open>internal/retry/retry.go\<close>. The operation is a list of what its calls return, one
  after the other; the context is the moment at which it is done with its error. \<open>Do\<close> returns what
  the code returns, with the number of calls made and the waits between them. A timer and a
  context that fall together are taken as the timer; calls take no time of their own here, so the
  clock advances by the waits. \<open>OnRetry\<close> is called once before each wait and changes nothing.
\<close>

section \<open>Errors and configuration\<close>

text \<open>An error is a message, an error wrapped with a message (\<open>%w\<close>), or one marked as unrecoverable.\<close>

datatype 'e go_error =
    Plain 'e
  | Wrapped 'e "'e go_error"
  | Unrecoverable_error "'e go_error"

definition Unrecoverable :: "'e go_error option \<Rightarrow> 'e go_error option" where
  "Unrecoverable err = map_option Unrecoverable_error err"

text \<open>\<open>errors.As\<close> for \<open>unrecoverableError\<close>: the first one along the chain, unwrapped.\<close>

fun as_unrecoverable :: "'e go_error \<Rightarrow> 'e go_error option" where
  "as_unrecoverable (Plain e) = None"
| "as_unrecoverable (Wrapped e err) = as_unrecoverable err"
| "as_unrecoverable (Unrecoverable_error err) = Some err"

datatype delay_mode = FixedDelay | BackOffDelay

record 'e retry_config =
  attempts :: int
  delay :: int
  maxDelay :: int
  delayType :: delay_mode
  ctx :: "(int \<times> 'e go_error) option"
  retryIf :: "('e go_error \<Rightarrow> bool) option"
  lastErrorOnly :: bool

definition defaultConfig :: "'e retry_config" where
  "defaultConfig =
     \<lparr>attempts = 1, delay = 0, maxDelay = 0, delayType = FixedDelay, ctx = None, retryIf = None,
      lastErrorOnly = True\<rparr>"

text \<open>The options. \<open>Attempts\<close> converts a \<open>uint\<close> to \<open>int\<close>.\<close>

definition Attempts :: "nat \<Rightarrow> 'e retry_config \<Rightarrow> 'e retry_config" where
  "Attempts n cfg = cfg\<lparr>attempts := i64 (int n)\<rparr>"

definition Delay :: "int \<Rightarrow> 'e retry_config \<Rightarrow> 'e retry_config" where
  "Delay d cfg = cfg\<lparr>delay := d\<rparr>"

definition MaxDelay :: "int \<Rightarrow> 'e retry_config \<Rightarrow> 'e retry_config" where
  "MaxDelay d cfg = cfg\<lparr>maxDelay := d\<rparr>"

definition DelayType :: "delay_mode \<Rightarrow> 'e retry_config \<Rightarrow> 'e retry_config" where
  "DelayType dt cfg = cfg\<lparr>delayType := dt\<rparr>"

definition Context :: "(int \<times> 'e go_error) option \<Rightarrow> 'e retry_config \<Rightarrow> 'e retry_config" where
  "Context c cfg = cfg\<lparr>ctx := c\<rparr>"

definition RetryIf :: "('e go_error \<Rightarrow> bool) option \<Rightarrow> 'e retry_config \<Rightarrow> 'e retry_config" where
  "RetryIf p cfg = cfg\<lparr>retryIf := p\<rparr>"

definition LastErrorOnly :: "bool \<Rightarrow> 'e retry_config \<Rightarrow> 'e retry_config" where
  "LastErrorOnly b cfg = cfg\<lparr>lastErrorOnly := b\<rparr>"

section \<open>The loop\<close>

definition sleepWithContext :: "(int \<times> 'e go_error) option \<Rightarrow> int \<Rightarrow> int \<Rightarrow> 'e go_error option \<times> int" where
  "sleepWithContext c now d =
     (if d \<le> 0 then (None, now)
      else case c of
             None \<Rightarrow> (None, now + d)
           | Some (t, e) \<Rightarrow> if t < now + d then (Some e, max now t) else (None, now + d))"

definition next_delay :: "'e retry_config \<Rightarrow> int \<Rightarrow> int" where
  "next_delay cfg d =
     (let d1 = (if delayType cfg = BackOffDelay \<and> d > 0 then
                  (let d2 = i64 (d * 2) in if maxDelay cfg > 0 \<and> d2 > maxDelay cfg then maxDelay cfg else d2)
                else d)
      in if delayType cfg = FixedDelay \<and> maxDelay cfg > 0 \<and> d1 > maxDelay cfg then maxDelay cfg else d1)"

text \<open>What the loop returns: nil, an error as it is, or the last error to be reported; with the number of
  calls made and the waits.\<close>

datatype 'e outcome = Done | Failed "'e go_error" | GaveUp "'e go_error"

text \<open>\<open>fn n\<close> is what call \<open>n\<close>, counted from 1, returns.\<close>

function do_loop ::
  "'e retry_config \<Rightarrow> (nat \<Rightarrow> 'e go_error option) \<Rightarrow> nat \<Rightarrow> int \<Rightarrow> int \<Rightarrow> int list
     \<Rightarrow> 'e outcome \<times> nat \<times> int list" where
  "do_loop cfg fn attempt now d waits =
     (case (case ctx cfg of None \<Rightarrow> None | Some (t, e) \<Rightarrow> if t \<le> now then Some e else None) of
        Some e \<Rightarrow> (Failed e, attempt - 1, waits)
      | None \<Rightarrow>
          (case fn attempt of
             None \<Rightarrow> (Done, attempt, waits)
           | Some err \<Rightarrow>
               (case as_unrecoverable err of
                  Some e \<Rightarrow> (Failed e, attempt, waits)
                | None \<Rightarrow>
                    if (case retryIf cfg of None \<Rightarrow> False | Some p \<Rightarrow> \<not> p err)
                    then (GaveUp err, attempt, waits)
                    else if attempts cfg \<le> int attempt then (GaveUp err, attempt, waits)
                    else (case sleepWithContext (ctx cfg) now d of
                            (Some e, now') \<Rightarrow> (Failed e, attempt, waits)
                          | (None, now') \<Rightarrow>
                              do_loop cfg fn (attempt + 1) now' (next_delay cfg d) (waits @ [d])))))"
  by pat_completeness auto

termination
  by (relation "measure (\<lambda>(cfg, fn, attempt, now, d, waits). nat (attempts cfg - int attempt))") auto

declare do_loop.simps [simp del]

definition build_config :: "('e retry_config \<Rightarrow> 'e retry_config) option list \<Rightarrow> 'e retry_config" where
  "build_config opts =
     (let cfg = fold (\<lambda>opt cfg. case opt of None \<Rightarrow> cfg | Some g \<Rightarrow> g cfg) opts defaultConfig
      in if attempts cfg \<le> 0 then cfg\<lparr>attempts := 1\<rparr> else cfg)"

text \<open>\<open>fn\<close> is nil or not; \<open>nilFunction\<close> and \<open>retryFailed\<close> are the two messages of the code.\<close>

definition Do ::
  "'e \<Rightarrow> (int \<Rightarrow> 'e) \<Rightarrow> (nat \<Rightarrow> 'e go_error option) option \<Rightarrow> ('e retry_config \<Rightarrow> 'e retry_config) option list
     \<Rightarrow> 'e go_error option \<times> nat \<times> int list" where
  "Do nilFunction retryFailed fn opts =
     (case fn of
        None \<Rightarrow> (Some (Plain nilFunction), 0, [])
      | Some f \<Rightarrow>
          let cfg = build_config opts
          in case do_loop cfg f 1 0 (delay cfg) [] of
               (Done, n, ws) \<Rightarrow> (None, n, ws)
             | (Failed e, n, ws) \<Rightarrow> (Some e, n, ws)
             | (GaveUp e, n, ws) \<Rightarrow>
                 (Some (if lastErrorOnly cfg then e else Wrapped (retryFailed (attempts cfg)) e), n, ws))"

section \<open>Lemmas\<close>

definition retryable :: "'e retry_config \<Rightarrow> 'e go_error \<Rightarrow> bool" where
  "retryable cfg e \<longleftrightarrow> as_unrecoverable e = None \<and> (case retryIf cfg of None \<Rightarrow> True | Some p \<Rightarrow> p e)"

text \<open>Waits are the delays of the schedule, in order.\<close>

definition schedule :: "'e retry_config \<Rightarrow> int \<Rightarrow> nat \<Rightarrow> int list" where
  "schedule cfg d n = map (\<lambda>i. (next_delay cfg ^^ i) d) [0..<n]"

lemma schedule_Suc: "schedule cfg d (Suc n) = d # schedule cfg (next_delay cfg d) n"
  by (simp add: schedule_def upt_conv_Cons map_Suc_upt [symmetric] funpow_swap1 comp_def del: upt_Suc)

lemma do_loop_spec:
  assumes "do_loop cfg fn attempt now d waits = (r, n, ws)" "int attempt \<le> attempts cfg" "1 \<le> attempt"
  shows "attempt \<le> n + 1 \<and> int n \<le> attempts cfg
    \<and> (\<forall>i. attempt \<le> i \<and> i < n \<longrightarrow> (\<exists>e. fn i = Some e \<and> retryable cfg e))
    \<and> (\<exists>k. ws = waits @ schedule cfg d k \<and> k + attempt \<le> n + 1 \<and> n \<le> k + attempt)
    \<and> (case r of
         Done \<Rightarrow> attempt \<le> n \<and> fn n = None
       | GaveUp e \<Rightarrow> attempt \<le> n \<and> fn n = Some e \<and> as_unrecoverable e = None
           \<and> (int n = attempts cfg \<or> \<not> retryable cfg e)
       | Failed e \<Rightarrow> (attempt \<le> n \<and> (\<exists>err. fn n = Some err \<and> as_unrecoverable err = Some e))
           \<or> (\<exists>t. ctx cfg = Some (t, e)))"
  using assms
proof (induction cfg fn attempt now d waits arbitrary: r n ws rule: do_loop.induct)
  case (1 cfg fn attempt now d waits)
  note run = 1(2)[unfolded do_loop.simps[of cfg fn attempt now d waits]]
  have s0: "waits = waits @ schedule cfg d 0" by (simp add: schedule_def)
  show ?case
  proof (cases "case ctx cfg of None \<Rightarrow> None | Some (t, e) \<Rightarrow> if t \<le> now then Some e else None")
    case (Some e)
    then have "\<exists>t. ctx cfg = Some (t, e)" by (auto split: option.splits if_splits)
    with run Some 1(3,4) s0 show ?thesis by auto
  next
    case ctx: None
    show ?thesis
    proof (cases "fn attempt")
      case None
      with run ctx 1(3,4) s0 show ?thesis by auto
    next
      case (Some err)
      show ?thesis
      proof (cases "as_unrecoverable err")
        case u: (Some e)
        with run ctx Some 1(3,4) s0 show ?thesis by auto
      next
        case u: None
        show ?thesis
        proof (cases "(case retryIf cfg of None \<Rightarrow> False | Some p \<Rightarrow> \<not> p err) \<or> attempts cfg \<le> int attempt")
          case True
          then have "\<not> retryable cfg err \<or> int attempt = attempts cfg"
            using 1(3) by (auto simp: retryable_def split: option.splits)
          with True run ctx Some u 1(3,4) s0 show ?thesis by (auto split: if_splits)
        next
          case False
          then have ok: "retryable cfg err" and more: "int (attempt + 1) \<le> attempts cfg"
            using u by (auto simp: retryable_def split: option.splits)
          obtain q now' where sl: "sleepWithContext (ctx cfg) now d = (q, now')" by fastforce
          show ?thesis
          proof (cases q)
            case (Some e)
            then have "\<exists>t. ctx cfg = Some (t, e)" using sl
              by (auto simp: sleepWithContext_def split: option.splits if_splits)
            with run ctx \<open>fn attempt = Some err\<close> u False sl Some 1(3,4) s0 show ?thesis by auto
          next
            case None
            with run ctx Some u False sl
            have "do_loop cfg fn (attempt + 1) now' (next_delay cfg d) (waits @ [d]) = (r, n, ws)" by simp
            from 1(1)[OF ctx Some u _ _ sl[symmetric] None this more] False
            have ih: "attempt + 1 \<le> n + 1 \<and> int n \<le> attempts cfg
              \<and> (\<forall>i. attempt + 1 \<le> i \<and> i < n \<longrightarrow> (\<exists>e. fn i = Some e \<and> retryable cfg e))
              \<and> (\<exists>k. ws = (waits @ [d]) @ schedule cfg (next_delay cfg d) k \<and> k + (attempt + 1) \<le> n + 1
                  \<and> n \<le> k + (attempt + 1))
              \<and> (case r of
                   Done \<Rightarrow> attempt + 1 \<le> n \<and> fn n = None
                 | GaveUp e \<Rightarrow> attempt + 1 \<le> n \<and> fn n = Some e \<and> as_unrecoverable e = None
                     \<and> (int n = attempts cfg \<or> \<not> retryable cfg e)
                 | Failed e \<Rightarrow> (attempt + 1 \<le> n \<and> (\<exists>err. fn n = Some err \<and> as_unrecoverable err = Some e))
                     \<or> (\<exists>t. ctx cfg = Some (t, e)))" by simp
            then obtain k where k: "ws = (waits @ [d]) @ schedule cfg (next_delay cfg d) k"
              "k + (attempt + 1) \<le> n + 1" "n \<le> k + (attempt + 1)" by blast
            have "ws = waits @ schedule cfg d (Suc k)" using k(1) by (simp add: schedule_Suc)
            moreover have "Suc k + attempt \<le> n + 1" "n \<le> Suc k + attempt" using k by simp_all
            moreover have "\<exists>e. fn i = Some e \<and> retryable cfg e" if "attempt \<le> i" "i < n" for i
              using ih that Some ok by (cases "i = attempt") auto
            ultimately show ?thesis using ih by (cases r) (auto intro: exI[of _ "Suc k"])
          qed
        qed
      qed
    qed
  qed
qed

lemma length_schedule [simp]: "length (schedule cfg d n) = n"
  by (simp add: schedule_def)

lemma backoff_delay:
  assumes "delayType cfg = BackOffDelay" "0 < maxDelay cfg" "0 < d" "d < 2 ^ 62"
  shows "next_delay cfg d = min (maxDelay cfg) (d * 2)"
proof -
  have "i64 (d * 2) = d * 2" using assms(3,4) by (simp add: i64_fits)
  with assms show ?thesis by (auto simp: next_delay_def min_def Let_def)
qed

lemma backoff_iterates:
  assumes "delayType cfg = BackOffDelay" "0 < maxDelay cfg" "maxDelay cfg < 2 ^ 62" "0 < d" "d < 2 ^ 62"
  shows "(next_delay cfg ^^ Suc i) d = min (maxDelay cfg) (d * 2 ^ Suc i)"
proof (induction i)
  case 0
  show ?case using backoff_delay[OF assms(1,2,4,5)] by simp
next
  case (Suc i)
  let ?x = "min (maxDelay cfg) (d * 2 ^ Suc i)"
  have x: "0 < ?x" "?x < 2 ^ 62" using assms by simp_all
  have "(next_delay cfg ^^ Suc (Suc i)) d = min (maxDelay cfg) (?x * 2)"
    using Suc backoff_delay[OF assms(1,2) x] by simp
  also have "\<dots> = min (maxDelay cfg) (d * 2 ^ Suc (Suc i))"
    using assms(2) by (simp add: min_def)
  finally show ?case .
qed

section \<open>Properties\<close>

text \<open>C38. The loop makes at most the configured number of calls (one at least, when the count given is not
  positive), each after a failure that may be retried; the waits between them are the delays of
  the schedule; and what it returns is decided by the last call (success, the error inside an
  unrecoverable one, the error itself or wrapped) or is the error of the context.\<close>

theorem Do_exact:
  assumes "Do nf rf (Some f) opts = (r, n, ws)"
  shows "int n \<le> attempts (build_config opts) \<and> 1 \<le> attempts (build_config opts)
    \<and> (\<forall>i. 1 \<le> i \<and> i < n \<longrightarrow> (\<exists>e. f i = Some e \<and> retryable (build_config opts) e))
    \<and> ws = schedule (build_config opts) (delay (build_config opts)) (length ws)
    \<and> length ws \<le> n \<and> n \<le> length ws + 1
    \<and> (case r of
         None \<Rightarrow> 1 \<le> n \<and> f n = None
       | Some e \<Rightarrow>
           (1 \<le> n \<and> (\<exists>err. f n = Some err
              \<and> (as_unrecoverable err = Some e
                 \<or> as_unrecoverable err = None
                   \<and> (int n = attempts (build_config opts) \<or> \<not> retryable (build_config opts) err)
                   \<and> e = (if lastErrorOnly (build_config opts) then err
                         else Wrapped (rf (attempts (build_config opts))) err))))
           \<or> (\<exists>t. ctx (build_config opts) = Some (t, e)))"
proof -
  let ?c = "build_config opts"
  obtain q n' ws' where run: "do_loop ?c f 1 0 (delay ?c) [] = (q, n', ws')" by (metis prod_cases3)
  have a: "1 \<le> attempts ?c" by (auto simp: build_config_def Let_def)
  have same: "n' = n" "ws' = ws" using assms run by (auto simp: Do_def Let_def split: outcome.splits)
  note spec = do_loop_spec[OF run _ order.refl, unfolded same]
  have spec': "1 \<le> n + 1 \<and> int n \<le> attempts ?c
    \<and> (\<forall>i. 1 \<le> i \<and> i < n \<longrightarrow> (\<exists>e. f i = Some e \<and> retryable ?c e))
    \<and> (\<exists>k. ws = schedule ?c (delay ?c) k \<and> k \<le> n \<and> n \<le> k + 1)"
    using spec a by auto
  then have ws: "ws = schedule ?c (delay ?c) (length ws)" "length ws \<le> n" "n \<le> length ws + 1" by auto
  show ?thesis
  proof (cases q)
    case Done
    with assms run have "r = None" by (simp add: Do_def Let_def)
    with Done spec spec' ws a show ?thesis by simp
  next
    case (Failed e)
    with assms run have "r = Some e" by (simp add: Do_def Let_def)
    with Failed spec spec' ws a show ?thesis by auto
  next
    case (GaveUp e)
    with assms run have "r = Some (if lastErrorOnly ?c then e else Wrapped (rf (attempts ?c)) e)"
      by (simp add: Do_def Let_def)
    with GaveUp spec spec' ws a show ?thesis by auto
  qed
qed

theorem Do_exact_witness:
  "Do ''nil function'' (\<lambda>n. ''retry failed'') (Some (\<lambda>i. if i < 3 then Some (Plain ''busy'') else None))
     [Some (Attempts 5), Some (Delay 10)] = (None, 3, [10, 10])
   \<and> int 3 \<le> attempts (build_config [Some (Attempts 5), Some (Delay 10)] :: string retry_config)"
proof -
  have "Do ''nil function'' (\<lambda>n. ''retry failed'') (Some (\<lambda>i. if i < 3 then Some (Plain ''busy'') else None))
     [Some (Attempts 5), Some (Delay 10)] = (None, 3, [10, 10])" by code_simp
  from this Do_exact[OF this, THEN conjunct1] show ?thesis by (rule conjI)
qed

text \<open>C39. Exponential backoff doubles the wait after each failure up to the maximum; the first wait is the
  initial delay even when that is above the maximum.\<close>

theorem backoff_schedule:
  assumes "Do nf rf (Some f) opts = (r, n, ws)" "delayType (build_config opts) = BackOffDelay"
    and "0 < maxDelay (build_config opts)" "maxDelay (build_config opts) < 2 ^ 62"
    and "0 < delay (build_config opts)" "delay (build_config opts) < 2 ^ 62" "i < length ws"
  shows "ws ! i = (if i = 0 then delay (build_config opts)
    else min (maxDelay (build_config opts)) (delay (build_config opts) * 2 ^ i))"
proof -
  let ?c = "build_config opts"
  obtain q n' ws' where run: "do_loop ?c f 1 0 (delay ?c) [] = (q, n', ws')" by (metis prod_cases3)
  have a: "int 1 \<le> attempts ?c" by (auto simp: build_config_def Let_def)
  have "ws' = ws" using assms(1) run by (auto simp: Do_def Let_def split: outcome.splits)
  with do_loop_spec[OF run a order.refl] obtain k where "ws = schedule ?c (delay ?c) k" by auto
  with assms(7) have "ws ! i = (next_delay ?c ^^ i) (delay ?c)" by (auto simp: schedule_def)
  then show ?thesis using backoff_iterates[OF assms(2-6)] by (cases i) auto
qed

theorem backoff_schedule_witness:
  "snd (snd (Do ''nil function'' (\<lambda>n. ''retry failed'') (Some (\<lambda>i. Some (Plain ''busy'')))
     [Some (Attempts 4), Some (Delay 50), Some (MaxDelay 20), Some (DelayType BackOffDelay)])) ! 0 = 50"
proof -
  define opts :: "(string retry_config \<Rightarrow> string retry_config) option list" where
    "opts = [Some (Attempts 4), Some (Delay 50), Some (MaxDelay 20), Some (DelayType BackOffDelay)]"
  have run: "Do ''nil function'' (\<lambda>n. ''retry failed'') (Some (\<lambda>i. Some (Plain ''busy''))) opts
      = (Some (Plain ''busy''), 4, [50, 20, 20])"
    unfolding opts_def by code_simp
  have c: "build_config opts = \<lparr>attempts = 4, delay = 50, maxDelay = 20, delayType = BackOffDelay, ctx = None,
      retryIf = None, lastErrorOnly = True\<rparr>"
    by (simp add: build_config_def opts_def defaultConfig_def Attempts_def Delay_def MaxDelay_def DelayType_def
        i64_fits Let_def)
  from backoff_schedule[OF run, of 0] c have "[50, 20, 20] ! 0 = (50 :: int)" by simp
  with run show ?thesis by (simp add: opts_def)
qed

end
