(* ===== verification/Ranges.thy ===== *)
theory Ranges
  imports Prelude
begin

text \<open>
  The byte-range set of \<open>pkg/mount/dfs/vfs/ranges/ranges.go\<close>: a sorted list of disjoint,
  non-adjacent ranges that records which bytes of a file are present. The invariant
  \<open>ranges_ok\<close> is what the type's comment promises (sorted and coalesced), the abstraction
  \<open>covered\<close> the set of byte offsets the list stands for. All arithmetic is \<open>int64\<close>.
\<close>

section \<open>Range\<close>

record range =
  rPos :: int
  rSize :: int

definition End :: "range \<Rightarrow> int" where
  "End r = i64 (rPos r + rSize r)"

definition IsEmpty :: "range \<Rightarrow> bool" where
  "IsEmpty r \<longleftrightarrow> rSize r \<le> 0"

definition Clip :: "range \<Rightarrow> int \<Rightarrow> range" where
  "Clip r offset =
     (if End r \<le> offset then r
      else let s = i64 (rSize r - i64 (End r - offset))
           in if s < 0 then \<lparr>rPos = 0, rSize = 0\<rparr> else r\<lparr>rSize := s\<rparr>)"

definition empty_range :: range where
  "empty_range = \<lparr>rPos = 0, rSize = 0\<rparr>"

definition Intersection :: "range \<Rightarrow> range \<Rightarrow> range" where
  "Intersection r b =
     (if (rPos r \<ge> rPos b \<and> rPos r < End b) \<or> (rPos b \<ge> rPos r \<and> rPos b < End r)
      then let p = max (rPos r) (rPos b)
           in \<lparr>rPos = p, rSize = i64 (min (End r) (End b) - p)\<rparr>
      else empty_range)"

section \<open>Ranges\<close>

text \<open>\<open>merge\<close> returns the new value of \<open>*dst\<close> and the function's result.\<close>

definition merge :: "range \<Rightarrow> range \<Rightarrow> range \<times> bool" where
  "merge new dst =
     (if End new < rPos dst then (dst, False)
      else (\<lparr>rPos = rPos new,
             rSize = (if End new > End dst then rSize new
                      else i64 (rSize dst + i64 (rPos dst - rPos new)))\<rparr>, True))"

text \<open>The forward loop of \<open>coalesce\<close>: the slice and \<open>endChop\<close>.\<close>

function coalesce_loop :: "range list \<Rightarrow> nat \<Rightarrow> nat \<Rightarrow> range list \<times> nat" where
  "coalesce_loop rs j endChop =
     (if j < length rs - 1 then
        (case merge (rs ! j) (rs ! (j + 1)) of
           (d, True) \<Rightarrow> coalesce_loop (rs[j + 1 := d]) (j + 1) (j + 1)
         | (_, False) \<Rightarrow> (rs, endChop))
      else (rs, endChop))"
  by pat_completeness auto
termination
  by (relation "measure (\<lambda>(rs, j, e). length rs - j)") auto

declare coalesce_loop.simps [simp del]

definition coalesce :: "range list \<Rightarrow> nat \<Rightarrow> range list" where
  "coalesce rs i =
     (let (rs1, startChop) =
            (if i > 0 then
               (case merge (rs ! (i - 1)) (rs ! i) of
                  (d, True) \<Rightarrow> (rs[i := d], i - 1)
                | (_, False) \<Rightarrow> (rs, i))
             else (rs, i));
          (rs2, endChop) = coalesce_loop rs1 i i
      in if endChop > startChop then take startChop rs2 @ drop endChop rs2 else rs2)"

definition search :: "range list \<Rightarrow> range \<Rightarrow> nat" where
  "search rs r = sort_Search (length rs) (\<lambda>i. rPos (rs ! i) \<ge> rPos r)"

definition Insert :: "range list \<Rightarrow> range \<Rightarrow> range list" where
  "Insert rs r =
     (if IsEmpty r then rs
      else if rs = [] then [r]
      else let i = search rs r
           in if i = length rs then coalesce (take i rs @ r # drop i rs) i
              else (case merge r (rs ! i) of
                      (d, True) \<Rightarrow> coalesce (rs[i := d]) i
                    | (_, False) \<Rightarrow> coalesce (take i rs @ r # drop i rs) i))"

text \<open>\<open>Find\<close> returns \<open>(curr, next, present)\<close>.\<close>

definition Find :: "range list \<Rightarrow> range \<Rightarrow> range \<times> range \<times> bool" where
  "Find rs r =
     (if IsEmpty r then (r, empty_range, False)
      else let i = search rs r;
               p = (if i > 0 then Intersection (rs ! (i - 1)) r else empty_range)
           in if i > 0 \<and> \<not> IsEmpty p
              then (p, \<lparr>rPos = End p, rSize = i64 (rSize r - rSize p)\<rparr>, True)
              else if i \<ge> length rs then (r, empty_range, False)
              else let x = Intersection (rs ! i) r
                   in if IsEmpty x then (r, empty_range, False)
                      else if rPos r < rPos x
                      then let c = \<lparr>rPos = rPos r, rSize = i64 (rPos x - rPos r)\<rparr>
                           in (c, \<lparr>rPos = End c, rSize = i64 (rSize r - rSize c)\<rparr>, False)
                      else (x, \<lparr>rPos = End x, rSize = i64 (rSize r - rSize x)\<rparr>, True))"

text \<open>
  The two loops that call \<open>Find\<close> until nothing of \<open>r\<close> is left need not end on lists or
  ranges whose ends wrap around, so they return an option.
\<close>

partial_function (option) FindAll_loop ::
  "range list \<Rightarrow> range \<Rightarrow> (range \<times> bool) list \<Rightarrow> (range \<times> bool) list option" where
  "FindAll_loop rs r frs =
     (if IsEmpty r then Some frs
      else FindAll_loop rs (fst (snd (Find rs r)))
             (frs @ [(fst (Find rs r), snd (snd (Find rs r)))]))"

declare FindAll_loop.simps [code]

definition FindAll :: "range list \<Rightarrow> range \<Rightarrow> (range \<times> bool) list option" where
  "FindAll rs r = FindAll_loop rs r []"

definition Present :: "range list \<Rightarrow> range \<Rightarrow> bool" where
  "Present rs r =
     (if IsEmpty r then True
      else let (_, nxt, present) = Find rs r
           in if \<not> present then False else if IsEmpty nxt then True else False)"

partial_function (option) Ranges_Intersection_loop ::
  "range list \<Rightarrow> range \<Rightarrow> range list \<Rightarrow> range list option" where
  "Ranges_Intersection_loop rs r newRs =
     (if IsEmpty r then Some newRs
      else Ranges_Intersection_loop rs (fst (snd (Find rs r)))
             (if snd (snd (Find rs r)) then Insert newRs (fst (Find rs r)) else newRs))"

declare Ranges_Intersection_loop.simps [code]

definition Ranges_Intersection :: "range list \<Rightarrow> range \<Rightarrow> range list option" where
  "Ranges_Intersection rs r =
     (if rs = [] then Some rs else Ranges_Intersection_loop rs r [])"

fun Equal_loop :: "range list \<Rightarrow> range list \<Rightarrow> bool" where
  "Equal_loop (x # xs) (y # ys) = (if x \<noteq> y then False else Equal_loop xs ys)"
| "Equal_loop _ _ = True"

definition Equal :: "range list \<Rightarrow> range list \<Rightarrow> bool" where
  "Equal rs bs =
     (if length rs \<noteq> length bs then False
      else if rs = [] \<or> bs = [] then True
      else Equal_loop rs bs)"

fun Size_loop :: "int \<Rightarrow> range list \<Rightarrow> int" where
  "Size_loop s [] = s"
| "Size_loop s (r # rs) = Size_loop (i64 (s + rSize r)) rs"

definition Size :: "range list \<Rightarrow> int" where
  "Size rs = Size_loop 0 rs"

definition FindMissing :: "range list \<Rightarrow> range \<Rightarrow> range" where
  "FindMissing rs r =
     (if IsEmpty r then r
      else let (curr, _, present) = Find rs r
           in if \<not> present then r
              else \<lparr>rPos = End curr, rSize = i64 (rSize r - i64 (End curr - rPos r))\<rparr>)"

definition Clear :: "range list \<Rightarrow> range list" where
  "Clear rs = []"

section \<open>Invariant and abstraction\<close>

definition rend :: "range \<Rightarrow> int" where
  "rend r = rPos r + rSize r"

text \<open>A range of a file: it starts at or after 0, is not empty, and its end fits in \<open>int64\<close>.\<close>

definition range_ok :: "range \<Rightarrow> bool" where
  "range_ok r \<longleftrightarrow> 0 \<le> rPos r \<and> 0 < rSize r \<and> rend r < 2 ^ 63"

definition ranges_ok :: "range list \<Rightarrow> bool" where
  "ranges_ok rs \<longleftrightarrow> (\<forall>r \<in> set rs. range_ok r) \<and> sorted_wrt (\<lambda>a b. rend a < rPos b) rs"

definition bytes :: "range \<Rightarrow> int set" where
  "bytes r = {rPos r..<rend r}"

definition covered :: "range list \<Rightarrow> int set" where
  "covered rs = (\<Union>r \<in> set rs. bytes r)"

lemma ranges_ok_Nil [simp]: "ranges_ok []"
  by (simp add: ranges_ok_def)

lemma ranges_ok_Cons:
  "ranges_ok (r # rs) \<longleftrightarrow> range_ok r \<and> (\<forall>x \<in> set rs. rend r < rPos x) \<and> ranges_ok rs"
  by (auto simp: ranges_ok_def)

lemma ranges_ok_append:
  "ranges_ok (as @ bs) \<longleftrightarrow>
     ranges_ok as \<and> ranges_ok bs \<and> (\<forall>a \<in> set as. \<forall>b \<in> set bs. rend a < rPos b)"
  by (auto simp: ranges_ok_def sorted_wrt_append)

lemma covered_simps [simp]:
  "covered [] = {}" "covered (r # rs) = bytes r \<union> covered rs"
  "covered (as @ bs) = covered as \<union> covered bs"
  by (auto simp: covered_def)

lemma range_ok_fits: "range_ok r \<Longrightarrow> rPos r < rend r \<and> rend r < 2 ^ 63 \<and> 0 \<le> rPos r"
  by (simp add: range_ok_def rend_def)

lemma End_ok [go_int]: "range_ok r \<Longrightarrow> End r = rend r"
  by (simp add: End_def i64_fits range_ok_def rend_def)

definition hull :: "range \<Rightarrow> range \<Rightarrow> range" where
  "hull a b = \<lparr>rPos = rPos a, rSize = max (rend a) (rend b) - rPos a\<rparr>"

lemma hull_simps [simp]:
  "rPos (hull a b) = rPos a" "rend (hull a b) = max (rend a) (rend b)"
  by (simp_all add: hull_def rend_def)

lemma hull_ok: "range_ok a \<Longrightarrow> range_ok b \<Longrightarrow> range_ok (hull a b)"
  by (auto simp: range_ok_def hull_def rend_def)

lemma bytes_hull:
  "rPos a \<le> rPos b \<Longrightarrow> rPos b \<le> rend a \<Longrightarrow> bytes (hull a b) = bytes a \<union> bytes b"
  by (auto simp: bytes_def)

lemma merge_ok:
  assumes "range_ok a" "range_ok b" "rPos a \<le> rPos b"
  shows "merge a b = (if rend a < rPos b then (b, False) else (hull a b, True))"
  using assms by (auto simp: merge_def End_ok hull_def range_ok_def rend_def i64_fits)

section \<open>Coalescing\<close>

text \<open>What the forward loop leaves from position \<open>j\<close> on.\<close>

fun absorb :: "range \<Rightarrow> range list \<Rightarrow> range list" where
  "absorb m [] = [m]"
| "absorb m (c # cs) =
     (case merge m c of (d, True) \<Rightarrow> absorb d cs | (_, False) \<Rightarrow> m # c # cs)"

lemma coalesce_loop_absorb:
  assumes "coalesce_loop (as @ m # cs) (length as) (length as) = (rs, e)"
  shows "length as \<le> e \<and> take (length as) rs = as \<and> drop e rs = absorb m cs
    \<and> (e = length as \<longrightarrow> rs = as @ absorb m cs)"
  using assms
proof (induction cs arbitrary: as m)
  case Nil
  then show ?case by (auto simp: coalesce_loop.simps)
next
  case (Cons c cs)
  obtain d ok where m: "merge m c = (d, ok)" by force
  show ?case
  proof (cases ok)
    case False
    with Cons.prems m show ?thesis by (auto simp: coalesce_loop.simps nth_append)
  next
    case True
    have "coalesce_loop ((as @ [m]) @ d # cs) (length (as @ [m])) (length (as @ [m])) = (rs, e)"
      using Cons.prems m True
      by (simp add: coalesce_loop.simps [of "as @ m # c # cs"] nth_append list_update_append)
    from Cons.IH[OF this] have IH: "Suc (length as) \<le> e"
      "take (Suc (length as)) rs = as @ [m]" "drop e rs = absorb d cs" by simp_all
    from take_length_snoc[OF IH(2)] IH m True show ?thesis by auto
  qed
qed

lemma coalesce_first: "coalesce (m # cs) 0 = absorb m cs"
proof -
  obtain rs e where l: "coalesce_loop (m # cs) 0 0 = (rs, e)" by force
  with coalesce_loop_absorb[of "[]" m cs rs e] show ?thesis
    by (auto simp: coalesce_def)
qed

lemma coalesce_after:
  "coalesce (as @ l # m # cs) (Suc (length as)) =
     (case merge l m of (d, True) \<Rightarrow> as @ absorb d cs | (_, False) \<Rightarrow> as @ l # absorb m cs)"
proof -
  obtain d ok where m: "merge l m = (d, ok)" by force
  define x where "x = (if ok then d else m)"
  obtain rs e where l: "coalesce_loop ((as @ [l]) @ x # cs) (length (as @ [l])) (length (as @ [l])) = (rs, e)"
    by force
  note a = coalesce_loop_absorb[OF l]
  have pre: "take (length as) rs = as"
    by (rule take_length_snoc[where x = l]) (use a in simp)
  have l': "coalesce_loop (as @ l # x # cs) (Suc (length as)) (Suc (length as)) = (rs, e)"
    using l by simp
  show ?thesis
  proof (cases ok)
    case True
    with l' a m pre show ?thesis
      by (simp add: coalesce_def x_def nth_append list_update_append)
  next
    case False
    with l' a m show ?thesis
      by (cases "e = Suc (length as)") (auto simp: coalesce_def x_def nth_append)
  qed
qed

lemma absorb_ok:
  assumes "range_ok m" "ranges_ok cs" "\<forall>c \<in> set cs. rPos m \<le> rPos c"
  shows "ranges_ok (absorb m cs) \<and> covered (absorb m cs) = bytes m \<union> covered cs
    \<and> (\<forall>x \<in> set (absorb m cs). rPos m \<le> rPos x)"
  using assms
proof (induction cs arbitrary: m)
  case Nil
  then show ?case by (simp add: ranges_ok_Cons)
next
  case (Cons c cs)
  then have c: "range_ok c" "ranges_ok cs" "\<forall>x \<in> set cs. rend c < rPos x" "rPos m \<le> rPos c"
    by (simp_all add: ranges_ok_Cons)
  show ?case
  proof (cases "rend m < rPos c")
    case True
    have "\<forall>x \<in> set cs. rend m < rPos x"
      using True c by (fastforce dest: range_ok_fits)
    with True Cons.prems c show ?thesis
      by (auto simp: merge_ok ranges_ok_Cons)
  next
    case False
    have "\<forall>x \<in> set cs. rPos (hull m c) \<le> rPos x"
      using Cons.prems(3) by simp
    with Cons.IH[of "hull m c"] Cons.prems c False show ?thesis
      by (auto simp: merge_ok hull_ok bytes_hull)
  qed
qed

section \<open>Searching and inserting\<close>

lemma search_split:
  assumes "ranges_ok rs"
  shows "search rs r \<le> length rs"
    and "\<forall>x \<in> set (take (search rs r) rs). rPos x < rPos r"
    and "\<forall>x \<in> set (drop (search rs r) rs). rPos r \<le> rPos x"
proof -
  have "upward (length rs) (\<lambda>i. rPos r \<le> rPos (rs ! i))"
    unfolding upward_def
  proof (intro allI impI)
    fix a b assume "b < length rs" "a \<le> b" and le: "rPos r \<le> rPos (rs ! a)"
    show "rPos r \<le> rPos (rs ! b)"
    proof (cases "a = b")
      case False
      with \<open>a \<le> b\<close> \<open>b < length rs\<close> assms have "rend (rs ! a) < rPos (rs ! b)" "range_ok (rs ! a)"
        by (auto simp: ranges_ok_def sorted_wrt_iff_nth_less)
      with le show ?thesis by (auto dest: range_ok_fits)
    qed (use le in simp)
  qed
  note s = sort_Search_spec[OF this, folded search_def]
  show "search rs r \<le> length rs" by (rule s(1))
  show "\<forall>x \<in> set (take (search rs r) rs). rPos x < rPos r"
    using s(1,2) by (fastforce simp: in_set_conv_nth not_le)
  show "\<forall>x \<in> set (drop (search rs r) rs). rPos r \<le> rPos x"
    using s(1,3) by (fastforce simp: in_set_conv_nth)
qed

text \<open>Coalescing after a range has been put between two halves of a list.\<close>

lemma coalesce_between:
  assumes as: "ranges_ok as" and cs: "ranges_ok cs" and m: "range_ok m"
    and below: "\<forall>a \<in> set as. rPos a < rPos m" and above: "\<forall>c \<in> set cs. rPos m \<le> rPos c"
    and gap: "\<forall>a \<in> set as. \<forall>c \<in> set cs. rend a < rPos c"
  shows "ranges_ok (coalesce (as @ m # cs) (length as))
    \<and> covered (coalesce (as @ m # cs) (length as)) = covered as \<union> bytes m \<union> covered cs"
proof (cases as rule: rev_cases)
  case Nil
  with absorb_ok[OF m cs above] show ?thesis by (simp add: coalesce_first)
next
  case (snoc bs l)
  have l: "range_ok l" "ranges_ok bs" "\<forall>b \<in> set bs. rend b < rPos l" "rPos l < rPos m"
    using as below by (auto simp: snoc ranges_ok_append ranges_ok_Cons)
  note eq = coalesce_after[of bs l m cs]
  show ?thesis
  proof (cases "rend l < rPos m")
    case True
    have "\<forall>a \<in> set as. rend a < rPos m"
      using True l by (auto simp: snoc dest: range_ok_fits)
    with absorb_ok[OF m cs above] as True l eq m show ?thesis
      by (auto simp: snoc merge_ok ranges_ok_append ranges_ok_Cons; force)
  next
    case False
    have "\<forall>c \<in> set cs. rPos (hull l m) \<le> rPos c"
      using above l(4) by auto
    from absorb_ok[OF hull_ok[OF l(1) m] cs this] l False eq m show ?thesis
      by (auto simp: snoc merge_ok ranges_ok_append bytes_hull; force)
  qed
qed

lemma Insert_ok:
  assumes rs: "ranges_ok rs" and r: "IsEmpty r \<or> range_ok r"
  shows "ranges_ok (Insert rs r) \<and> covered (Insert rs r) = covered rs \<union> bytes r"
proof (cases "IsEmpty r \<or> rs = []")
  case True
  with assms show ?thesis
    by (auto simp: Insert_def IsEmpty_def bytes_def rend_def ranges_ok_Cons)
next
  case False
  then have r: "range_ok r" and ne: "\<not> IsEmpty r" "rs \<noteq> []" using r by auto
  define as where "as = take (search rs r) rs"
  define bs where "bs = drop (search rs r) rs"
  note sp = search_split[OF rs, of r, folded as_def bs_def]
  have rs_eq: "rs = as @ bs" by (simp add: as_def bs_def)
  have len: "search rs r = length as" using sp(1) by (simp add: as_def)
  have ok: "ranges_ok as" "ranges_ok bs" "\<forall>a \<in> set as. \<forall>b \<in> set bs. rend a < rPos b"
    using rs by (auto simp: rs_eq ranges_ok_append)
  show ?thesis
  proof (cases "bs = [] \<or> \<not> snd (merge r (hd bs))")
    case True
    then have "Insert rs r = coalesce (as @ r # bs) (length as)"
      using ne len by (auto simp: Insert_def rs_eq Let_def nth_append hd_conv_nth split: prod.splits bool.splits)
    with coalesce_between[OF ok(1,2) r sp(2) sp(3) ok(3)] show ?thesis
      by (auto simp: rs_eq)
  next
    case False
    then obtain b cs where b: "bs = b # cs" by (cases bs) auto
    have b_ok: "range_ok b" "ranges_ok cs" "\<forall>c \<in> set cs. rend b < rPos c" "rPos r \<le> rPos b"
      using ok(2) sp(3) by (auto simp: b ranges_ok_Cons)
    with False r have m: "merge r b = (hull r b, True)" and le: "rPos b \<le> rend r"
      by (auto simp: b merge_ok split: if_splits)
    have "Insert rs r = coalesce (as @ hull r b # cs) (length as)"
      using ne len m by (auto simp: Insert_def rs_eq b Let_def nth_append list_update_append)
    moreover have "\<forall>c \<in> set cs. rPos (hull r b) \<le> rPos c"
      using sp(3) by (auto simp: b)
    moreover have "\<forall>a \<in> set as. rPos a < rPos (hull r b)" using sp(2) by simp
    ultimately show ?thesis
      using coalesce_between[OF ok(1) b_ok(2) hull_ok[OF r b_ok(1)]] ok(3) b_ok(4) le
      by (auto simp: rs_eq b bytes_hull)
  qed
qed

section \<open>Finding\<close>

lemma Intersection_ok:
  assumes "range_ok a" "range_ok b"
  shows "Intersection a b =
     (if max (rPos a) (rPos b) < min (rend a) (rend b)
      then \<lparr>rPos = max (rPos a) (rPos b),
             rSize = min (rend a) (rend b) - max (rPos a) (rPos b)\<rparr>
      else empty_range)"
  using assms range_ok_fits[OF assms(1)] range_ok_fits[OF assms(2)]
  by (auto simp: Intersection_def End_ok Let_def i64_fits)

lemma IsEmpty_simps [simp]:
  "IsEmpty empty_range" "IsEmpty \<lparr>rPos = p, rSize = s\<rparr> \<longleftrightarrow> s \<le> 0"
  "range_ok r \<Longrightarrow> \<not> IsEmpty r"
  by (simp_all add: IsEmpty_def empty_range_def range_ok_def)

lemma rend_make [simp]: "rend \<lparr>rPos = p, rSize = s\<rparr> = p + s"
  by (simp add: rend_def)

lemma range_eq_iff: "r = \<lparr>rPos = p, rSize = s\<rparr> \<longleftrightarrow> rPos r = p \<and> rSize r = s"
  by (cases r) auto

lemma covered_above: "\<forall>x \<in> set rs. p < rPos x \<Longrightarrow> q \<le> p \<Longrightarrow> q \<notin> covered rs"
  by (fastforce simp: covered_def bytes_def)

text \<open>
  What one call of \<open>Find\<close> promises: \<open>c\<close> is a non-empty initial part of \<open>r\<close>, all of
  it present or all of it absent, as long as possible; \<open>n\<close> is the rest of \<open>r\<close>.
\<close>

definition find_spec :: "range list \<Rightarrow> range \<Rightarrow> range \<Rightarrow> range \<Rightarrow> bool \<Rightarrow> bool" where
  "find_spec rs r c n p \<longleftrightarrow>
     range_ok c \<and> rPos c = rPos r \<and> rend c \<le> rend r
     \<and> (IsEmpty n \<longleftrightarrow> rend c = rend r)
     \<and> (\<not> IsEmpty n \<longrightarrow> range_ok n \<and> rPos n = rend c \<and> rend n = rend r)
     \<and> (p \<longrightarrow> bytes c \<subseteq> covered rs \<and> (rend c < rend r \<longrightarrow> rend c \<notin> covered rs))
     \<and> (\<not> p \<longrightarrow> bytes c \<inter> covered rs = {} \<and> (rend c < rend r \<longrightarrow> rend c \<in> covered rs))"

lemma find_spec_present:
  assumes "ranges_ok (as @ f # bs)" "range_ok r" "rPos f \<le> rPos r" "rPos r < rend f"
    and "c = \<lparr>rPos = rPos r, rSize = min (rend f) (rend r) - rPos r\<rparr>"
    and "n = \<lparr>rPos = rend c, rSize = rSize r - rSize c\<rparr>"
  shows "find_spec (as @ f # bs) r c n True"
proof -
  from assms(1,2) have f: "range_ok f" "\<forall>x \<in> set bs. rend f < rPos x" "\<forall>a \<in> set as. rend a < rPos f"
    and r: "0 \<le> rPos r" "rPos r < rend r" "rend r < 2 ^ 63"
    by (auto simp: ranges_ok_append ranges_ok_Cons dest: range_ok_fits)
  have c: "rend c = min (rend f) (rend r)" "rPos c = rPos r" by (simp_all add: assms(5))
  have "rend f \<notin> covered (as @ f # bs)"
    using f(2) range_ok_fits[OF f(1)] f(3) covered_above[of bs "rend f" "rend f"]
    by (fastforce simp: covered_def bytes_def)
  moreover have "bytes c \<subseteq> bytes f" using assms(3) by (auto simp: bytes_def c)
  moreover have "range_ok c" using r assms(4,5) by (simp add: range_ok_def)
  ultimately show ?thesis using r c assms(4,6)
    by (auto simp: find_spec_def range_ok_def assms(5)) (auto simp: rend_def)
qed

lemma find_spec_absent:
  assumes "ranges_ok bs" "range_ok r" "covered as \<inter> bytes r = {}"
    and "\<forall>b \<in> set bs. rPos r < rPos b"
    and "e = (if bs = [] then rend r else min (rPos (hd bs)) (rend r))"
    and "c = \<lparr>rPos = rPos r, rSize = e - rPos r\<rparr>"
    and "if e < rend r then n = \<lparr>rPos = e, rSize = rend r - e\<rparr> else n = empty_range"
  shows "find_spec (as @ bs) r c n False"
proof -
  have r: "0 \<le> rPos r" "rPos r < rend r" "rend r < 2 ^ 63"
    using range_ok_fits[OF assms(2)] by auto
  have e: "rPos r < e" "e \<le> rend r" using r assms(4,5) by (auto split: if_splits)
  have c: "rend c = e" "rPos c = rPos r" "range_ok c"
    using e r by (simp_all add: assms(6) range_ok_def)
  have "covered bs \<inter> bytes c = {}"
  proof (cases bs)
    case (Cons b bs')
    then have "\<forall>x \<in> set bs. e \<le> rPos x"
      using assms(1,5) by (fastforce simp: ranges_ok_Cons dest: range_ok_fits)
    then show ?thesis by (fastforce simp: covered_def bytes_def c)
  qed simp
  moreover have "bytes c \<subseteq> bytes r" using e by (auto simp: bytes_def c)
  moreover have "e < rend r \<Longrightarrow> e \<in> covered bs"
    using assms(1,5) by (cases bs) (auto simp: ranges_ok_Cons bytes_def dest: range_ok_fits)
  ultimately show ?thesis using assms(3,7) c e r
    by (auto simp: find_spec_def range_ok_def split: if_splits)
qed

text \<open>The search splits the list in front of the first range that starts at or after \<open>r\<close>.\<close>

definition split_at :: "range list \<Rightarrow> range \<Rightarrow> range list \<Rightarrow> range list \<Rightarrow> bool" where
  "split_at rs r as bs \<longleftrightarrow>
     rs = as @ bs \<and> search rs r = length as
     \<and> (\<forall>a \<in> set as. rPos a < rPos r) \<and> (\<forall>b \<in> set bs. rPos r \<le> rPos b)"

lemma split_at_search:
  assumes "ranges_ok rs"
  obtains as bs where "split_at rs r as bs"
  using search_split[OF assms, of r]
  by (intro that[of "take (search rs r) rs" "drop (search rs r) rs"]) (simp add: split_at_def)

lemma Find_split:
  assumes "split_at rs r as bs" "range_ok r"
  shows "Find rs r =
     (let prev = (if as = [] then empty_range else Intersection (last as) r)
      in if as \<noteq> [] \<and> \<not> IsEmpty prev
      then (prev, \<lparr>rPos = End prev, rSize = i64 (rSize r - rSize prev)\<rparr>, True)
      else if bs = [] then (r, empty_range, False)
      else let x = Intersection (hd bs) r
           in if IsEmpty x then (r, empty_range, False)
              else if rPos r < rPos x
              then let c = \<lparr>rPos = rPos r, rSize = i64 (rPos x - rPos r)\<rparr>
                   in (c, \<lparr>rPos = End c, rSize = i64 (rSize r - rSize c)\<rparr>, False)
              else (x, \<lparr>rPos = End x, rSize = i64 (rSize r - rSize x)\<rparr>, True))"
proof -
  have rs: "rs = as @ bs" and len: "search (as @ bs) r = length as" "\<not> IsEmpty r"
    using assms by (auto simp: split_at_def)
  have last: "as \<noteq> [] \<Longrightarrow> (as @ bs) ! (length as - 1) = last as"
    by (simp add: nth_append last_conv_nth)
  have hd: "bs \<noteq> [] \<Longrightarrow> (as @ bs) ! length as = hd bs"
    by (simp add: nth_append hd_conv_nth)
  show ?thesis
    unfolding Find_def rs len(1) using len(2) last hd
    by (cases "as = []"; cases "bs = []") (simp_all add: Let_def)
qed

lemma Find_in_previous:
  assumes rs: "ranges_ok rs" and r: "range_ok r" and F: "Find rs r = (c, n, p)"
    and sp: "split_at rs r (as @ [l]) bs" and in_l: "rPos r < rend l"
  shows "find_spec rs r c n p"
proof -
  have rs_eq: "rs = as @ l # bs" using sp by (simp add: split_at_def)
  have l: "range_ok l" "rPos l < rPos r"
    using rs sp by (auto simp: split_at_def ranges_ok_append ranges_ok_Cons)
  note fits = range_ok_fits[OF r]
  have sz: "rSize r = rend r - rPos r" by (simp add: rend_def)
  define d where "d = min (rend l) (rend r)"
  have d: "rPos r < d" "d \<le> rend r" using in_l fits by (auto simp: d_def)
  define prev where "prev = \<lparr>rPos = rPos r, rSize = d - rPos r\<rparr>"
  have prev: "Intersection (last (as @ [l])) r = prev"
    using l d by (simp add: prev_def Intersection_ok[OF l(1) r] d_def)
  have ne: "\<not> IsEmpty prev" using d by (simp add: prev_def)
  have E: "End prev = d" using d fits by (simp add: prev_def End_def i64_fits)
  have "c = prev" "n = \<lparr>rPos = d, rSize = i64 (rSize r - rSize prev)\<rparr>" "p"
    using F[unfolded Find_split[OF sp r] prev Let_def E] ne by (auto simp: prev E split: if_splits)
  then have "find_spec (as @ l # bs) r c n True"
    using rs l in_l d fits
    by (intro find_spec_present[OF _ r]) (simp_all add: rs_eq prev_def d_def[symmetric] i64_fits sz)
  then show ?thesis using \<open>p\<close> by (simp add: rs_eq)
qed

lemma Find_in_next:
  assumes rs: "ranges_ok rs" and r: "range_ok r" and F: "Find rs r = (c, n, p)"
    and sp: "split_at rs r as (b # bs)" and disj: "covered as \<inter> bytes r = {}"
    and noprev: "as = [] \<or> IsEmpty (Intersection (last as) r)" and in_b: "rPos b < rend r"
  shows "find_spec rs r c n p"
proof -
  have rs_eq: "rs = as @ b # bs" using sp by (simp add: split_at_def)
  have b: "range_ok b" "rPos r \<le> rPos b" "ranges_ok (b # bs)"
    using rs sp by (auto simp: split_at_def ranges_ok_append ranges_ok_Cons)
  note fits = range_ok_fits[OF r] range_ok_fits[OF b(1)]
  have sz: "rSize r = rend r - rPos r" by (simp add: rend_def)
  define d where "d = min (rend b) (rend r)"
  have d: "rPos b < d" "d \<le> rend r" using fits in_b by (auto simp: d_def)
  have x: "Intersection (hd (b # bs)) r = \<lparr>rPos = rPos b, rSize = d - rPos b\<rparr>"
    using b d in_b by (simp add: Intersection_ok[OF b(1) r] d_def)
  note F = F[unfolded Find_split[OF sp r] x]
  show ?thesis
  proof (cases "rPos r < rPos b")
    case True
    have F1: "c = \<lparr>rPos = rPos r, rSize = rPos b - rPos r\<rparr>"
      "n = \<lparr>rPos = rPos b, rSize = rend r - rPos b\<rparr>" "\<not> p"
      using F noprev True d fits by (auto simp: Let_def i64_fits End_def sz split: if_splits)
    have "\<forall>y \<in> set (b # bs). rPos r < rPos y"
      using b(3) True fits by (fastforce simp: ranges_ok_Cons)
    then have "find_spec (as @ b # bs) r c n False"
      using in_b F1 by (intro find_spec_absent[OF b(3) r disj _ refl]) simp_all
    then show ?thesis using F1 by (simp add: rs_eq)
  next
    case False
    then have eq: "rPos r = rPos b" using b(2) by simp
    have F1: "c = \<lparr>rPos = rPos b, rSize = d - rPos b\<rparr>"
      "n = \<lparr>rPos = d, rSize = rend r - d\<rparr>" "p"
      using F noprev False d fits eq by (auto simp: Let_def i64_fits End_def sz split: if_splits)
    have "find_spec (as @ b # bs) r c n True"
      using rs d F1 eq fits
      by (intro find_spec_present[OF _ r]) (auto simp: rs_eq d_def sz)
    then show ?thesis using F1 by (simp add: rs_eq)
  qed
qed

lemma Find_spec:
  assumes rs: "ranges_ok rs" and r: "range_ok r" and F: "Find rs r = (c, n, p)"
  shows "find_spec rs r c n p"
proof -
  obtain as bs where sp: "split_at rs r as bs" using split_at_search[OF rs] .
  have rs_eq: "rs = as @ bs" and ok: "ranges_ok as" "ranges_ok bs"
    using rs sp by (auto simp: split_at_def ranges_ok_append)
  show ?thesis
  proof (cases "as \<noteq> [] \<and> rPos r < rend (last as)")
    case True
    then obtain as' l where "as = as' @ [l]" by (cases as rule: rev_cases) auto
    with True sp show ?thesis using Find_in_previous[OF rs r F] by simp
  next
    case False
    have disj: "covered as \<inter> bytes r = {}"
    proof (cases as rule: rev_cases)
      case (snoc as' l)
      then have "\<forall>a \<in> set as. rend a \<le> rPos r"
        using ok(1) False by (fastforce simp: ranges_ok_append ranges_ok_Cons dest: range_ok_fits)
      then show ?thesis by (fastforce simp: covered_def bytes_def)
    qed simp
    have noprev: "as = [] \<or> IsEmpty (Intersection (last as) r)"
      using False ok(1) by (cases as rule: rev_cases)
        (auto simp: Intersection_ok[OF _ r] ranges_ok_append ranges_ok_Cons)
    show ?thesis
    proof (cases "bs = [] \<or> rend r \<le> rPos (hd bs)")
      case True
      have F1: "c = r \<and> n = empty_range \<and> \<not> p"
        using F[unfolded Find_split[OF sp r]] noprev True r ok(2)
        by (cases bs) (auto simp: ranges_ok_Cons Intersection_ok Let_def split: if_splits)
      have above: "\<forall>b \<in> set bs. rPos r < rPos b"
        using True ok(2) range_ok_fits[OF r]
        by (cases bs) (fastforce simp: ranges_ok_Cons dest: range_ok_fits)+
      have "find_spec (as @ bs) r r empty_range False"
        using True above range_ok_fits[OF r]
        by (intro find_spec_absent[OF ok(2) r disj _ refl]) (auto simp: range_eq_iff rend_def)
      then show ?thesis using F1 by (simp add: rs_eq)
    next
      case False
      then obtain b bs' where "bs = b # bs'" by (cases bs) auto
      with False sp show ?thesis using Find_in_next[OF rs r F _ disj noprev] by simp
    qed
  qed
qed

section \<open>The loops over Find\<close>

lemma find_spec_shrinks:
  "find_spec rs r c n p \<Longrightarrow> \<not> IsEmpty n \<Longrightarrow> nat (rSize n) < nat (rSize r) \<and> range_ok n"
  by (auto simp: find_spec_def range_ok_def rend_def)

lemma find_spec_bytes:
  assumes "find_spec rs r c n p"
  shows "bytes r = bytes c \<union> (if IsEmpty n then {} else bytes n)"
    and "p \<Longrightarrow> bytes c \<subseteq> covered rs" and "\<not> p \<Longrightarrow> bytes c \<inter> covered rs = {}"
  using assms range_ok_fits[of c] range_ok_fits[of n]
  by (auto simp: find_spec_def bytes_def)

text \<open>
  Consecutive results: each starts where the one before ends, and their flags alternate.
\<close>

definition chained :: "(range \<times> bool) list \<Rightarrow> bool" where
  "chained frs \<longleftrightarrow> successively (\<lambda>a b. rPos (fst b) = rend (fst a) \<and> snd b = (\<not> snd a)) frs"

definition bytes_with :: "bool \<Rightarrow> (range \<times> bool) list \<Rightarrow> int set" where
  "bytes_with p frs = (\<Union>(c, q) \<in> set frs. if q = p then bytes c else {})"

lemma bytes_with_Cons [simp]:
  "bytes_with p [] = {}"
  "bytes_with p ((c, q) # frs) = (if q = p then bytes c else {}) \<union> bytes_with p frs"
  by (auto simp: bytes_with_def)

lemma FindAll_loop_spec:
  assumes "ranges_ok rs" "range_ok r"
  shows "\<exists>fs. FindAll_loop rs r acc = Some (acc @ fs) \<and> fs \<noteq> [] \<and> rPos (fst (hd fs)) = rPos r
    \<and> snd (hd fs) = (rPos r \<in> covered rs) \<and> chained fs
    \<and> bytes_with True fs = bytes r \<inter> covered rs \<and> bytes_with False fs = bytes r - covered rs"
  using assms(2)
proof (induction "nat (rSize r)" arbitrary: r acc rule: less_induct)
  case less
  obtain c n p where F: "Find rs r = (c, n, p)" by (cases "Find rs r") auto
  note sp = Find_spec[OF assms(1) less.prems F]
  note cov = find_spec_bytes[OF sp]
  have step: "FindAll_loop rs r acc = FindAll_loop rs n (acc @ [(c, p)])"
    using less.prems F by (simp add: FindAll_loop.simps [of rs r])
  have pos: "rPos c = rPos r" and "rPos r \<in> bytes c"
    using sp range_ok_fits[of c] by (auto simp: find_spec_def bytes_def)
  then have start: "p = (rPos r \<in> covered rs)"
    using cov(2,3) by (cases p) auto
  show ?case
  proof (cases "IsEmpty n")
    case True
    then have "FindAll_loop rs r acc = Some (acc @ [(c, p)])"
      by (simp add: step FindAll_loop.simps [of rs n])
    with cov True start pos show ?thesis
      by (intro exI[of _ "[(c, p)]"]) (auto simp: chained_def)
  next
    case False
    note n = find_spec_shrinks[OF sp False]
    from less.hyps[OF n[THEN conjunct1] n[THEN conjunct2], of "acc @ [(c, p)]"] obtain fs where
      fs: "FindAll_loop rs n (acc @ [(c, p)]) = Some ((acc @ [(c, p)]) @ fs)" "fs \<noteq> []"
        "rPos (fst (hd fs)) = rPos n" "snd (hd fs) = (rPos n \<in> covered rs)" "chained fs"
        "bytes_with True fs = bytes n \<inter> covered rs" "bytes_with False fs = bytes n - covered rs"
      by blast
    have "rPos n = rend c" "(rPos n \<in> covered rs) = (\<not> p)"
      using sp False n by (auto simp: find_spec_def dest: range_ok_fits)
    then have "chained ((c, p) # fs)"
      using fs(2-5) by (cases fs) (auto simp: chained_def)
    with fs cov False start pos show ?thesis
      by (intro exI[of _ "(c, p) # fs"]) (auto simp: step)
  qed
qed

lemma Ranges_Intersection_loop_spec:
  assumes "ranges_ok rs" "range_ok r" "ranges_ok acc"
  shows "\<exists>ns. Ranges_Intersection_loop rs r acc = Some ns \<and> ranges_ok ns
    \<and> covered ns = covered acc \<union> (bytes r \<inter> covered rs)"
  using assms(2,3)
proof (induction "nat (rSize r)" arbitrary: r acc rule: less_induct)
  case less
  obtain c n p where F: "Find rs r = (c, n, p)" by (cases "Find rs r") auto
  note sp = Find_spec[OF assms(1) less.prems(1) F]
  note cov = find_spec_bytes[OF sp]
  define acc' where "acc' = (if p then Insert acc c else acc)"
  have "range_ok c" using sp by (simp add: find_spec_def)
  then have acc': "ranges_ok acc'" "covered acc' = covered acc \<union> (if p then bytes c else {})"
    using Insert_ok[OF less.prems(2)] less.prems(2) by (auto simp: acc'_def)
  have step: "Ranges_Intersection_loop rs r acc = Ranges_Intersection_loop rs n acc'"
    using less.prems F by (simp add: Ranges_Intersection_loop.simps [of rs r] acc'_def)
  show ?case
  proof (cases "IsEmpty n")
    case True
    with acc' cov show ?thesis
      by (auto simp: step Ranges_Intersection_loop.simps [of rs n])
  next
    case False
    note n = find_spec_shrinks[OF sp False]
    from less.hyps[OF n[THEN conjunct1] n[THEN conjunct2] acc'(1)] obtain ns where
      "Ranges_Intersection_loop rs n acc' = Some ns" "ranges_ok ns"
      "covered ns = covered acc' \<union> (bytes n \<inter> covered rs)" by blast
    moreover have "covered acc' \<union> (bytes n \<inter> covered rs) = covered acc \<union> (bytes r \<inter> covered rs)"
      using cov False unfolding acc'(2) by (cases p) auto
    ultimately show ?thesis by (auto simp: step)
  qed
qed

section \<open>Canonical form\<close>

lemma first_byte:
  assumes "ranges_ok (r # rs)"
  shows "rPos r \<in> covered (r # rs)" and "x \<in> covered (r # rs) \<Longrightarrow> rPos r \<le> x"
    and "rend r \<notin> covered (r # rs)"
  using assms range_ok_fits[of r] covered_above[of rs "rend r" "rend r"]
  by (auto simp: ranges_ok_Cons bytes_def covered_def dest: range_ok_fits)

lemma first_range_eq:
  assumes "ranges_ok (r # rs)" "ranges_ok (b # bs)" "covered (r # rs) = covered (b # bs)"
  shows "r = b \<and> covered rs = covered bs"
proof -
  have p: "rPos r = rPos b"
    using first_byte(1,2)[OF assms(1)] first_byte(1,2)[OF assms(2)] assms(3) by (metis order_antisym)
  have "\<not> rend r < rend b"
    using first_byte(3)[OF assms(1)] assms(1,3) p range_ok_fits[of r]
    by (auto simp: bytes_def ranges_ok_Cons)
  moreover have "\<not> rend b < rend r"
    using first_byte(3)[OF assms(2)] assms(2,3) p range_ok_fits[of b]
    by (auto simp: bytes_def ranges_ok_Cons)
  ultimately have "rend r = rend b" by simp
  with p have "r = b" by (simp add: rend_def)
  moreover have "covered (x # xs) - bytes x = covered xs" if "ranges_ok (x # xs)" for x xs
    using that by (fastforce simp: ranges_ok_Cons covered_def bytes_def)
  ultimately show ?thesis using assms by metis
qed

lemma ranges_canonical:
  "ranges_ok rs \<Longrightarrow> ranges_ok bs \<Longrightarrow> covered rs = covered bs \<Longrightarrow> rs = bs"
proof (induction rs arbitrary: bs)
  case Nil
  then show ?case by (cases bs) (auto dest: first_byte(1))
next
  case (Cons r rs)
  then obtain b bs' where b: "bs = b # bs'"
    using first_byte(1)[OF Cons.prems(1)] by (cases bs) auto
  from first_range_eq[OF Cons.prems(1) Cons.prems(2)[unfolded b] Cons.prems(3)[unfolded b]]
    Cons b show ?case by (auto simp: ranges_ok_Cons)
qed

lemma Equal_loop_eq: "length rs = length bs \<Longrightarrow> Equal_loop rs bs \<longleftrightarrow> rs = bs"
  by (induction rs bs rule: list_induct2) auto

lemma Equal_eq: "Equal rs bs \<longleftrightarrow> rs = bs"
  by (auto simp: Equal_def Equal_loop_eq)

lemma Size_loop_card:
  "ranges_ok rs \<Longrightarrow> 0 \<le> s \<Longrightarrow> \<forall>r \<in> set rs. s \<le> rPos r \<Longrightarrow> Size_loop s rs = s + int (card (covered rs))"
proof (induction rs arbitrary: s)
  case Nil
  then show ?case by simp
next
  case (Cons r rs)
  from Cons.prems have r: "range_ok r" "\<forall>x \<in> set rs. rend r < rPos x" "ranges_ok rs" "s \<le> rPos r"
    by (simp_all add: ranges_ok_Cons)
  note fits = range_ok_fits[OF r(1)]
  have s': "i64 (s + rSize r) = s + rSize r"
    using r(4) fits Cons.prems(2) by (intro i64_fits) (simp_all add: rend_def)
  have "finite (covered rs)" "finite (bytes r)" "bytes r \<inter> covered rs = {}"
    using r(2) by (auto simp: covered_def bytes_def)
  then have "card (covered (r # rs)) = card (bytes r) + card (covered rs)"
    by (simp add: card_Un_disjoint)
  moreover have "Size_loop (s + rSize r) rs = s + rSize r + int (card (covered rs))"
    using r(2,4) fits Cons.prems(2) by (intro Cons.IH r(3)) (auto simp: rend_def)
  ultimately show ?case using fits by (simp add: s' bytes_def rend_def)
qed

section \<open>Properties\<close>

lemma Clip_bytes:
  assumes "range_ok r" "0 \<le> offset"
  shows "bytes (Clip r offset) = bytes r \<inter> {..<offset}"
  using range_ok_fits[OF assms(1)] assms
  by (auto simp: Clip_def End_ok bytes_def rend_def i64_fits Let_def split: if_splits)

lemma Intersection_bytes:
  "range_ok a \<Longrightarrow> range_ok b \<Longrightarrow> bytes (Intersection a b) = bytes a \<inter> bytes b"
  by (auto simp: Intersection_ok bytes_def empty_range_def)

lemma Find_start:
  assumes "ranges_ok rs" "range_ok r" "Find rs r = (c, n, p)"
  shows "rPos r \<in> bytes c" and "p \<longleftrightarrow> rPos r \<in> covered rs"
proof -
  note sp = Find_spec[OF assms]
  show "rPos r \<in> bytes c"
    using sp range_ok_fits[of c] by (auto simp: find_spec_def bytes_def)
  with find_spec_bytes(2,3)[OF sp] show "p \<longleftrightarrow> rPos r \<in> covered rs"
    by (cases p) auto
qed

text \<open>C11. Inserting a range keeps the list sorted, disjoint and coalesced, and the bytes it
  stands for become the old ones together with those of the new range.\<close>

theorem Insert_correct:
  assumes "ranges_ok rs" and "IsEmpty r \<or> range_ok r"
  shows "ranges_ok (Insert rs r) \<and> covered (Insert rs r) = covered rs \<union> bytes r"
  using assms by (rule Insert_ok)

theorem Insert_correct_witness:
  "Insert [\<lparr>rPos = 0, rSize = 10\<rparr>, \<lparr>rPos = 20, rSize = 5\<rparr>] \<lparr>rPos = 8, rSize = 12\<rparr>
     = [\<lparr>rPos = 0, rSize = 25\<rparr>]
   \<and> covered [\<lparr>rPos = 0, rSize = 25\<rparr>]
     = covered [\<lparr>rPos = 0, rSize = 10\<rparr>, \<lparr>rPos = 20, rSize = 5\<rparr>]
       \<union> bytes \<lparr>rPos = 8, rSize = 12\<rparr>"
proof -
  have "Insert [\<lparr>rPos = 0, rSize = 10\<rparr>, \<lparr>rPos = 20, rSize = 5\<rparr>] \<lparr>rPos = 8, rSize = 12\<rparr>
     = [\<lparr>rPos = 0, rSize = 25\<rparr>]"
    by code_simp
  moreover have "ranges_ok [\<lparr>rPos = 0, rSize = 10\<rparr>, \<lparr>rPos = 20, rSize = 5\<rparr>]"
    and "IsEmpty \<lparr>rPos = 8, rSize = 12\<rparr> \<or> range_ok \<lparr>rPos = 8, rSize = 12\<rparr>"
    by (simp_all add: ranges_ok_def range_ok_def rend_def)
  note Insert_correct[OF this]
  ultimately show ?thesis by simp
qed

text \<open>\<open>FindAll\<close> returns on every sorted list and non-empty range, and its result cuts the
  range into consecutive pieces whose flags alternate: the pieces marked present make up exactly
  the bytes of the range that are in the list, the others exactly those that are not.\<close>

lemma FindAll_partitions:
  assumes "ranges_ok rs" and "range_ok r"
  shows "\<exists>frs. FindAll rs r = Some frs \<and> rPos (fst (hd frs)) = rPos r \<and> chained frs
    \<and> bytes_with True frs = bytes r \<inter> covered rs
    \<and> bytes_with False frs = bytes r - covered rs"
  using FindAll_loop_spec[OF assms, of "[]"] by (auto simp: FindAll_def)

lemma FindAll_partitions_witness:
  "FindAll [\<lparr>rPos = 5, rSize = 5\<rparr>] \<lparr>rPos = 0, rSize = 20\<rparr>
     = Some [(\<lparr>rPos = 0, rSize = 5\<rparr>, False), (\<lparr>rPos = 5, rSize = 5\<rparr>, True),
             (\<lparr>rPos = 10, rSize = 10\<rparr>, False)]
   \<and> bytes_with True [(\<lparr>rPos = 0, rSize = 5\<rparr>, False), (\<lparr>rPos = 5, rSize = 5\<rparr>, True),
             (\<lparr>rPos = 10, rSize = 10\<rparr>, False)]
     = bytes \<lparr>rPos = 0, rSize = 20\<rparr> \<inter> covered [\<lparr>rPos = 5, rSize = 5\<rparr>]"
proof -
  have "FindAll [\<lparr>rPos = 5, rSize = 5\<rparr>] \<lparr>rPos = 0, rSize = 20\<rparr>
     = Some [(\<lparr>rPos = 0, rSize = 5\<rparr>, False), (\<lparr>rPos = 5, rSize = 5\<rparr>, True),
             (\<lparr>rPos = 10, rSize = 10\<rparr>, False)]"
    by code_simp
  moreover have "ranges_ok [\<lparr>rPos = 5, rSize = 5\<rparr>]" and "range_ok \<lparr>rPos = 0, rSize = 20\<rparr>"
    by (simp_all add: ranges_ok_def range_ok_def rend_def)
  note FindAll_partitions[OF this]
  ultimately show ?thesis by auto
qed

text \<open>\<open>Present\<close> says yes exactly when every byte of the range is in the list.\<close>

lemma Present_iff:
  assumes "ranges_ok rs" and "IsEmpty r \<or> range_ok r"
  shows "Present rs r \<longleftrightarrow> bytes r \<subseteq> covered rs"
proof (cases "IsEmpty r")
  case True
  then show ?thesis by (auto simp: Present_def IsEmpty_def bytes_def rend_def)
next
  case False
  then have r: "range_ok r" using assms(2) by simp
  obtain c n p where F: "Find rs r = (c, n, p)" by (cases "Find rs r") auto
  note sp = Find_spec[OF assms(1) r F]
  have "rend c < rend r \<Longrightarrow> rend c \<in> bytes r"
    using sp range_ok_fits[of c] by (auto simp: find_spec_def bytes_def)
  with sp find_spec_bytes[OF sp] Find_start[OF assms(1) r F] show ?thesis
    using False F by (cases p) (auto simp: Present_def find_spec_def)
qed

lemma Present_iff_witness:
  "\<not> Present [\<lparr>rPos = 5, rSize = 5\<rparr>] \<lparr>rPos = 6, rSize = 5\<rparr>
   \<and> \<not> bytes \<lparr>rPos = 6, rSize = 5\<rparr> \<subseteq> covered [\<lparr>rPos = 5, rSize = 5\<rparr>]"
proof -
  have "\<not> Present [\<lparr>rPos = 5, rSize = 5\<rparr>] \<lparr>rPos = 6, rSize = 5\<rparr>" by code_simp
  moreover have "ranges_ok [\<lparr>rPos = 5, rSize = 5\<rparr>]"
    and "IsEmpty \<lparr>rPos = 6, rSize = 5\<rparr> \<or> range_ok \<lparr>rPos = 6, rSize = 5\<rparr>"
    by (simp_all add: ranges_ok_def range_ok_def rend_def)
  note Present_iff[OF this]
  ultimately show ?thesis by simp
qed

text \<open>\<open>FindMissing\<close> keeps the end of the range and drops only bytes that are present;
  what is left is empty exactly when nothing is missing, and otherwise starts at the first
  missing byte.\<close>

lemma FindMissing_first_gap:
  assumes "ranges_ok rs" and "range_ok r"
  shows "rend (FindMissing rs r) = rend r
    \<and> bytes r - bytes (FindMissing rs r) \<subseteq> covered rs
    \<and> (IsEmpty (FindMissing rs r) \<longleftrightarrow> bytes r \<subseteq> covered rs)
    \<and> (\<not> IsEmpty (FindMissing rs r) \<longrightarrow> rPos (FindMissing rs r) \<in> bytes r - covered rs)"
proof -
  obtain c n p where F: "Find rs r = (c, n, p)" by (cases "Find rs r") auto
  note sp = Find_spec[OF assms F] and st = Find_start[OF assms F]
  note fits = range_ok_fits[OF assms(2)]
  show ?thesis
  proof (cases p)
    case False
    then have "FindMissing rs r = r" using F by (auto simp: FindMissing_def)
    moreover have "rPos r \<in> bytes r" using fits by (simp add: bytes_def)
    ultimately show ?thesis using False st assms(2) by auto
  next
    case True
    then have c: "range_ok c" "rPos c = rPos r" "rend c \<le> rend r" "bytes c \<subseteq> covered rs"
      and gap: "rend c < rend r \<Longrightarrow> rend c \<notin> covered rs"
      using sp by (auto simp: find_spec_def)
    have M: "FindMissing rs r = \<lparr>rPos = rend c, rSize = rend r - rend c\<rparr>"
      using F True assms(2) fits c range_ok_fits[OF c(1)]
      by (auto simp: FindMissing_def End_ok i64_fits rend_def)
    have "rend r = rend c" if "bytes r \<subseteq> covered rs"
    proof (rule ccontr)
      assume "rend r \<noteq> rend c"
      then have "rend c < rend r" and "rend c \<in> bytes r"
        using c range_ok_fits[OF c(1)] by (auto simp: bytes_def)
      with gap that show False by blast
    qed
    then show ?thesis
      using c(4) gap c(2,3) range_ok_fits[OF c(1)] by (auto simp: M bytes_def)
  qed
qed

lemma FindMissing_first_gap_witness:
  "FindMissing [\<lparr>rPos = 5, rSize = 5\<rparr>] \<lparr>rPos = 6, rSize = 10\<rparr> = \<lparr>rPos = 10, rSize = 6\<rparr>
   \<and> 10 \<in> bytes \<lparr>rPos = 6, rSize = 10\<rparr> - covered [\<lparr>rPos = 5, rSize = 5\<rparr>]"
proof -
  have "FindMissing [\<lparr>rPos = 5, rSize = 5\<rparr>] \<lparr>rPos = 6, rSize = 10\<rparr> = \<lparr>rPos = 10, rSize = 6\<rparr>"
    by code_simp
  moreover have "ranges_ok [\<lparr>rPos = 5, rSize = 5\<rparr>]" and "range_ok \<lparr>rPos = 6, rSize = 10\<rparr>"
    by (simp_all add: ranges_ok_def range_ok_def rend_def)
  note FindMissing_first_gap[OF this]
  ultimately show ?thesis by simp
qed

text \<open>Intersecting a list with a range returns, and gives a sorted coalesced list of exactly
  the bytes that are in both.\<close>

lemma Ranges_Intersection_correct:
  assumes "ranges_ok rs" and "IsEmpty r \<or> range_ok r"
  shows "\<exists>ns. Ranges_Intersection rs r = Some ns \<and> ranges_ok ns
    \<and> covered ns = covered rs \<inter> bytes r"
proof (cases "IsEmpty r \<or> rs = []")
  case True
  then show ?thesis
    by (auto simp: Ranges_Intersection_def Ranges_Intersection_loop.simps [of rs r]
        IsEmpty_def bytes_def rend_def)
next
  case False
  then show ?thesis
    using Ranges_Intersection_loop_spec[OF assms(1), of r "[]"] assms(2)
    by (auto simp: Ranges_Intersection_def)
qed

lemma Ranges_Intersection_correct_witness:
  "\<exists>ns. Ranges_Intersection [\<lparr>rPos = 5, rSize = 5\<rparr>] \<lparr>rPos = 6, rSize = 10\<rparr> = Some ns
    \<and> covered ns = covered [\<lparr>rPos = 5, rSize = 5\<rparr>] \<inter> bytes \<lparr>rPos = 6, rSize = 10\<rparr>"
proof -
  have "ranges_ok [\<lparr>rPos = 5, rSize = 5\<rparr>]"
    and "IsEmpty \<lparr>rPos = 6, rSize = 10\<rparr> \<or> range_ok \<lparr>rPos = 6, rSize = 10\<rparr>"
    by (simp_all add: ranges_ok_def range_ok_def rend_def)
  from Ranges_Intersection_correct[OF this] show ?thesis by auto
qed

text \<open>The list is a canonical form of its set of bytes: \<open>Equal\<close> answers whether two lists
  hold the same bytes, and inserting two ranges in either order gives equal lists.\<close>

lemma ranges_canonical_order:
  assumes "ranges_ok rs" and "ranges_ok bs" and "range_ok a" and "range_ok b"
  shows "(Equal rs bs \<longleftrightarrow> covered rs = covered bs)
    \<and> Equal (Insert (Insert rs a) b) (Insert (Insert rs b) a)"
proof -
  have "Insert (Insert rs a) b = Insert (Insert rs b) a"
    using assms by (intro ranges_canonical) (auto simp: Insert_ok)
  then show ?thesis using ranges_canonical assms by (auto simp: Equal_eq)
qed

lemma ranges_canonical_order_witness:
  "Equal (Insert (Insert [] \<lparr>rPos = 0, rSize = 4\<rparr>) \<lparr>rPos = 4, rSize = 4\<rparr>)
     (Insert (Insert [] \<lparr>rPos = 4, rSize = 4\<rparr>) \<lparr>rPos = 0, rSize = 4\<rparr>)"
proof -
  have "ranges_ok []" and "range_ok \<lparr>rPos = 0, rSize = 4\<rparr>" and "range_ok \<lparr>rPos = 4, rSize = 4\<rparr>"
    by (simp_all add: range_ok_def rend_def)
  from ranges_canonical_order[OF this(1) this] show ?thesis by simp
qed

text \<open>The size of a list is the number of bytes it covers, without overflow.\<close>

lemma Size_counts_bytes:
  assumes "ranges_ok rs"
  shows "Size rs = int (card (covered rs))"
  using Size_loop_card[OF assms, of 0] assms
  by (auto simp: Size_def ranges_ok_def range_ok_def)

lemma Size_counts_bytes_witness:
  "Size [\<lparr>rPos = 0, rSize = 10\<rparr>, \<lparr>rPos = 20, rSize = 5\<rparr>] = 15
   \<and> card (covered [\<lparr>rPos = 0, rSize = 10\<rparr>, \<lparr>rPos = 20, rSize = 5\<rparr>]) = 15"
proof -
  have "Size [\<lparr>rPos = 0, rSize = 10\<rparr>, \<lparr>rPos = 20, rSize = 5\<rparr>] = 15" by code_simp
  moreover have "ranges_ok [\<lparr>rPos = 0, rSize = 10\<rparr>, \<lparr>rPos = 20, rSize = 5\<rparr>]"
    by (simp add: ranges_ok_def range_ok_def rend_def)
  note Size_counts_bytes[OF this]
  ultimately show ?thesis by simp
qed

end
