(* ===== verification/Vfs_Cache.thy ===== *)
theory Vfs_Cache
  imports Ranges Go_Std "HOL-Library.Multiset"
begin

text \<open>
  The disk cache of the mounted file system, \<open>pkg/mount/dfs/vfs/cache.go\<close>: sparse data files, each
  with a metadata file that lists the byte ranges present, the map of items in use, and the eviction
  that scans the directory. The cache directory is two levels deep (entry, file); its names are single
  path elements. A name refers to an inode, so that a file removed while it is open keeps its bytes.
  Every call into the operating system can fail: the outcomes are arguments (\<open>io\<close>, \<open>fails\<close>).
  The text of a metadata file is what \<open>encoding/json\<close> makes of it, given as a pair of functions of
  the model (\<open>codec\<close>); the clock, the order of the map and of \<open>sort.Slice\<close> are arguments as well.
\<close>

section \<open>The cache directory\<close>

datatype node = FileN nat | DirN

record disk =
  dDirs :: "(gostring \<times> (gostring \<times> node) list) list"
  dData :: "nat \<Rightarrow> byte list"
  dNext :: nat

type_synonym fpath = "gostring \<times> gostring"

definition empty_disk :: disk where
  "empty_disk = \<lparr>dDirs = [], dData = (\<lambda>_. []), dNext = 0\<rparr>"

definition dir_of :: "disk \<Rightarrow> gostring \<Rightarrow> (gostring \<times> node) list" where
  "dir_of d e = (case map_of (dDirs d) e of None \<Rightarrow> [] | Some ns \<Rightarrow> ns)"

definition node_at :: "disk \<Rightarrow> fpath \<Rightarrow> node option" where
  "node_at d p = map_of (dir_of d (fst p)) (snd p)"

text \<open>\<open>os.MkdirAll\<close>, \<open>os.Remove\<close>, \<open>os.RemoveAll\<close> of a name, and the link made by a creation or a rename.\<close>

definition fs_MkdirAll :: "disk \<Rightarrow> gostring \<Rightarrow> disk" where
  "fs_MkdirAll d e = (if e \<in> set (map fst (dDirs d)) then d else d\<lparr>dDirs := dDirs d @ [(e, [])]\<rparr>)"

definition fs_link :: "disk \<Rightarrow> fpath \<Rightarrow> node \<Rightarrow> disk" where
  "fs_link d p n = d\<lparr>dDirs := AList.update (fst p) (AList.update (snd p) n (dir_of d (fst p))) (dDirs d)\<rparr>"

definition fs_unlink :: "disk \<Rightarrow> fpath \<Rightarrow> disk" where
  "fs_unlink d p =
     (if node_at d p = None then d
      else d\<lparr>dDirs := AList.update (fst p) (AList.delete (snd p) (dir_of d (fst p))) (dDirs d)\<rparr>)"

definition fs_rmdir :: "disk \<Rightarrow> gostring \<Rightarrow> disk" where
  "fs_rmdir d e = d\<lparr>dDirs := AList.delete e (dDirs d)\<rparr>"

definition fs_content :: "disk \<Rightarrow> fpath \<Rightarrow> byte list option" where
  "fs_content d p = (case node_at d p of Some (FileN i) \<Rightarrow> Some (dData d i) | _ \<Rightarrow> None)"

text \<open>\<open>os.OpenFile\<close> with \<open>O_RDWR|O_CREATE\<close>: the inode, which is new and empty when the name is free.\<close>

definition fs_open_create :: "disk \<Rightarrow> fpath \<Rightarrow> (nat \<times> disk) option" where
  "fs_open_create d p =
     (case node_at d p of
        Some (FileN i) \<Rightarrow> Some (i, d)
      | Some DirN \<Rightarrow> None
      | None \<Rightarrow> Some (dNext d,
          fs_link (d\<lparr>dData := (dData d)(dNext d := []), dNext := dNext d + 1\<rparr>) p (FileN (dNext d))))"

definition truncate_bytes :: "byte list \<Rightarrow> nat \<Rightarrow> byte list" where
  "truncate_bytes bs n = take n bs @ replicate (n - length bs) 0"

definition write_bytes :: "byte list \<Rightarrow> nat \<Rightarrow> byte list \<Rightarrow> byte list" where
  "write_bytes bs off p =
     (if p = [] then bs
      else take off (truncate_bytes bs (max off (length bs))) @ p @ drop (off + length p) bs)"

definition fs_set_data :: "disk \<Rightarrow> nat \<Rightarrow> byte list \<Rightarrow> disk" where
  "fs_set_data d i bs = d\<lparr>dData := (dData d)(i := bs)\<rparr>"

section \<open>Items\<close>

record item_info =
  iSize :: int
  iRs :: "range list"
  iModTime :: gotime
  iATime :: gotime

record item =
  itKey :: gostring
  itEntry :: gostring
  itName :: gostring
  itFile :: "nat option"
  itInfo :: item_info
  itOpens :: int
  itDownloaders :: bool
  itDirty :: bool
  itClosed :: bool

definition empty_info :: item_info where
  "empty_info = \<lparr>iSize = 0, iRs = [], iModTime = 0, iATime = 0\<rparr>"

record codec =
  marshal :: "item_info \<Rightarrow> byte list"
  unmarshal :: "byte list \<Rightarrow> item_info option"

definition dot_json :: gostring where
  "dot_json = gs ''.json''"

definition dot_tmp :: gostring where
  "dot_tmp = gs ''.tmp''"

definition buildCacheKey :: "gostring \<Rightarrow> gostring \<Rightarrow> gostring" where
  "buildCacheKey entryName filename = entryName @ gs ''/'' @ filename"

definition data_path :: "item \<Rightarrow> fpath" where
  "data_path it = (itEntry it, itName it)"

definition meta_path :: "item \<Rightarrow> fpath" where
  "meta_path it = (itEntry it, itName it @ dot_json)"

definition tmp_path :: "item \<Rightarrow> fpath" where
  "tmp_path it = (itEntry it, itName it @ dot_json @ dot_tmp)"

definition touch :: "gotime \<Rightarrow> item \<Rightarrow> item" where
  "touch now it = it\<lparr>itInfo := (itInfo it)\<lparr>iATime := now\<rparr>, itDirty := True\<rparr>"

text \<open>\<open>Open\<close>, and \<open>Release\<close> with whether it stops the downloaders.\<close>

definition Open_item :: "gotime \<Rightarrow> item \<Rightarrow> item" where
  "Open_item now it = touch now (it\<lparr>itOpens := i32 (itOpens it + 1)\<rparr>)"

definition Release :: "item \<Rightarrow> item \<times> bool" where
  "Release it =
     (let newCount = i32 (itOpens it - 1); it = it\<lparr>itOpens := newCount\<rparr>
      in if newCount > 0 then (it, False)
         else (if newCount < 0 then it\<lparr>itOpens := 0\<rparr> else it, True))"

definition HasRange :: "item \<Rightarrow> range \<Rightarrow> bool" where
  "HasRange it r = Present (iRs (itInfo it)) r"

definition FindMissing_item :: "item \<Rightarrow> range \<Rightarrow> range" where
  "FindMissing_item it r =
     (let r = (if End r > iSize (itInfo it) then r\<lparr>rSize := i64 (iSize (itInfo it) - rPos r)\<rparr> else r)
      in if rSize r \<le> 0 then empty_range else FindMissing (iRs (itInfo it)) r)"

section \<open>Reading and writing an item\<close>

datatype werr = CacheFileClosed | NegativeOffset | WriteFailed | SlicePanic

text \<open>
  The loop of \<open>WriteAtNoOverwrite\<close> over the parts of the range. \<open>wr\<close> says of each part whether its
  write succeeds (\<open>None\<close>) or fails after some of its bytes.
\<close>

fun write_missing ::
  "(range \<Rightarrow> nat option) \<Rightarrow> byte list \<Rightarrow> int \<Rightarrow> (range \<times> bool) list \<Rightarrow> int \<Rightarrow> byte list
   \<Rightarrow> int \<times> werr option \<times> byte list" where
  "write_missing wr p off [] skipped bs = (skipped, None, bs)"
| "write_missing wr p off ((r, present) # frs) skipped bs =
     (if present then write_missing wr p off frs (i64 (skipped + rSize r)) bs
      else let localOff = i64 (rPos r - off)
           in if localOff < 0 \<or> rSize r < 0 \<or> localOff + rSize r > int (length p)
              then (skipped, Some SlicePanic, bs)
              else if rPos r < 0 then (skipped, Some NegativeOffset, bs)
              else let part = take (nat (rSize r)) (drop (nat localOff) p)
                   in case wr r of
                        Some k \<Rightarrow> (skipped, Some WriteFailed, write_bytes bs (nat (rPos r)) (take k part))
                      | None \<Rightarrow> write_missing wr p off frs skipped (write_bytes bs (nat (rPos r)) part))"

text \<open>The result is \<open>(n, skipped, err)\<close> with the item and the disk; \<open>None\<close> where the call does not return.\<close>

definition WriteAtNoOverwrite ::
  "(range \<Rightarrow> nat option) \<Rightarrow> item \<Rightarrow> disk \<Rightarrow> byte list \<Rightarrow> int
   \<Rightarrow> ((int \<times> int \<times> werr option) \<times> item \<times> disk) option" where
  "WriteAtNoOverwrite wr it d p off =
     (let writeRange = \<lparr>rPos = off, rSize = int (length p)\<rparr>; n = int (length p)
      in case FindAll (iRs (itInfo it)) writeRange of
           None \<Rightarrow> None
         | Some frs \<Rightarrow> Some
             (case itFile it of
                None \<Rightarrow> ((n, 0, Some CacheFileClosed), it, d)
              | Some f \<Rightarrow>
                  let (skipped, err, bs) = write_missing wr p off frs 0 (dData d f);
                      d = fs_set_data d f bs
                  in if err \<noteq> None then ((n, skipped, err), it, d)
                     else ((n, skipped, None),
                       it\<lparr>itInfo := (itInfo it)\<lparr>iRs := Insert (iRs (itInfo it)) writeRange\<rparr>,
                          itDirty := True\<rparr>, d)))"

text \<open>\<open>File.ReadAt\<close> of \<open>n\<close> bytes: the bytes read, and whether the end of the file came first.\<close>

definition os_ReadAt :: "byte list \<Rightarrow> nat \<Rightarrow> nat \<Rightarrow> byte list \<times> bool" where
  "os_ReadAt bs n off = (let r = take n (drop off bs) in (r, length r < n))"

datatype 'e read_err =
    Read_EOF
  | Downloaders_closed
  | Download_failed 'e
  | File_closed
  | Negative_offset

text \<open>
  \<open>ReadAtContext\<close> for a buffer of \<open>len\<close> bytes. \<open>download\<close> is what the call of \<open>Download\<close> returns and the
  item and disk as the other goroutines have left them when it does. The result has the bytes read,
  the error, and whether the read counted as a hit or a miss (\<open>None\<close>: neither).
\<close>

definition ReadAt_range :: "item \<Rightarrow> nat \<Rightarrow> int \<Rightarrow> range" where
  "ReadAt_range it len off =
     \<lparr>rPos = off,
      rSize = (if i64 (off + int len) > iSize (itInfo it) then i64 (iSize (itInfo it) - off)
               else int len)\<rparr>"

definition ReadAtContext ::
  "item \<Rightarrow> disk \<Rightarrow> nat \<Rightarrow> int \<Rightarrow> (range \<Rightarrow> 'e option \<times> item \<times> disk)
   \<Rightarrow> byte list \<times> 'e read_err option \<times> bool option \<times> item \<times> disk" where
  "ReadAtContext it d len off download =
     (if off \<ge> iSize (itInfo it) then ([], Some Read_EOF, None, it, d)
      else let r = ReadAt_range it len off; hit = HasRange it r
           in if \<not> itDownloaders it then ([], Some Downloaders_closed, Some hit, it, d)
              else case download r of
                (Some e, it', d') \<Rightarrow> ([], Some (Download_failed e), Some hit, it', d')
              | (None, it', d') \<Rightarrow>
                  (case itFile it' of
                     None \<Rightarrow> ([], Some File_closed, Some hit, it', d')
                   | Some f \<Rightarrow>
                       if off < 0 then ([], Some Negative_offset, Some hit, it', d')
                       else let (bs, eof) = os_ReadAt (dData d' f) (nat (rSize r)) (nat off)
                            in (bs, if eof then Some Read_EOF else None, Some hit, it', d')))"

section \<open>Metadata\<close>

text \<open>Which of the calls into the operating system, and which lookup in the manager, fail.\<close>

record io =
  ioMarshal :: bool
  ioMkdir :: bool
  ioReadMeta :: bool
  ioRemoveAll :: bool
  ioOpen :: bool
  ioTruncate :: bool
  ioWriteTmp :: "byte list option"
  ioRename :: bool
  ioRemoveTmp :: bool
  ioEntry :: bool

definition io_ok :: io where
  "io_ok = \<lparr>ioMarshal = False, ioMkdir = False, ioReadMeta = False, ioRemoveAll = False,
     ioOpen = False, ioTruncate = False, ioWriteTmp = None, ioRename = False, ioRemoveTmp = False,
     ioEntry = False\<rparr>"

text \<open>\<open>os.WriteFile\<close>: whether it succeeds; when it fails it may leave any bytes.\<close>

definition fs_WriteFile :: "disk \<Rightarrow> fpath \<Rightarrow> byte list \<Rightarrow> byte list option \<Rightarrow> bool \<times> disk" where
  "fs_WriteFile d p bs failure =
     (case fs_open_create d p of
        None \<Rightarrow> (False, d)
      | Some (i, d) \<Rightarrow>
          (case failure of
             None \<Rightarrow> (True, fs_set_data d i bs)
           | Some junk \<Rightarrow> (False, fs_set_data d i junk)))"

definition fs_Rename :: "disk \<Rightarrow> fpath \<Rightarrow> fpath \<Rightarrow> bool \<Rightarrow> bool \<times> disk" where
  "fs_Rename d p q fails =
     (case node_at d p of
        None \<Rightarrow> (False, d)
      | Some n \<Rightarrow> if fails \<or> node_at d q = Some DirN then (False, d)
                  else (True, fs_link (fs_unlink d p) q n))"

definition flushMetadata :: "codec \<Rightarrow> io \<Rightarrow> bool \<Rightarrow> item \<Rightarrow> disk \<Rightarrow> item \<times> disk" where
  "flushMetadata cd o' force it d =
     (if \<not> force \<and> \<not> itDirty it then (it, d)
      else if ioMarshal o' then (it, d)
      else if ioMkdir o' then (it, d)
      else let d = fs_MkdirAll d (itEntry it);
               (ok, d) = fs_WriteFile d (tmp_path it) (marshal cd (itInfo it)) (ioWriteTmp o')
           in if \<not> ok then (it, d)
              else let (ok, d) = fs_Rename d (tmp_path it) (meta_path it) (ioRename o')
                   in if \<not> ok then (it, if ioRemoveTmp o' then d else fs_unlink d (tmp_path it))
                      else (it\<lparr>itDirty := False\<rparr>, d))"

text \<open>\<open>Close\<close>: the metadata writer flushes when it is stopped, and \<open>Close\<close> flushes once more.\<close>

definition Close_item :: "codec \<Rightarrow> io \<Rightarrow> io \<Rightarrow> item \<Rightarrow> disk \<Rightarrow> item \<times> disk" where
  "Close_item cd o1 o2 it d =
     (if itClosed it then (it, d)
      else let it = it\<lparr>itClosed := True, itDownloaders := False\<rparr>;
               (it, d) = flushMetadata cd o1 True it d;
               (it, d) = flushMetadata cd o2 True it d
           in (it\<lparr>itFile := None\<rparr>, d))"

section \<open>Opening an item\<close>

datatype cache_err = Mkdir_failed | RemoveAll_failed | Open_failed | Truncate_failed | No_entry

text \<open>\<open>newItem\<close>; \<open>now1\<close> and \<open>now2\<close> are its two readings of the clock.\<close>

definition newItem ::
  "codec \<Rightarrow> io \<Rightarrow> gotime \<Rightarrow> gotime \<Rightarrow> disk \<Rightarrow> gostring \<Rightarrow> gostring \<Rightarrow> gostring \<Rightarrow> int
   \<Rightarrow> (cache_err + item) \<times> disk" where
  "newItem cd o' now1 now2 d key entryName filename fileSize =
     (if ioMkdir o' then (Inl Mkdir_failed, d)
      else
        let d = fs_MkdirAll d entryName;
            cachePath = (entryName, filename);
            metaPath = (entryName, filename @ dot_json);
            info = (case fs_content d metaPath of
                      None \<Rightarrow> empty_info
                    | Some text \<Rightarrow> if ioReadMeta o' then empty_info
                        else (case unmarshal cd text of None \<Rightarrow> empty_info | Some info \<Rightarrow> info));
            isDir = (node_at d cachePath = Some DirN)
        in if isDir \<and> ioRemoveAll o' then (Inl RemoveAll_failed, d)
           else
             let d = (if isDir then fs_unlink d cachePath else d)
             in if ioOpen o' then (Inl Open_failed, d)
                else case fs_open_create d cachePath of
                  None \<Rightarrow> (Inl Open_failed, d)
                | Some (fd, d) \<Rightarrow>
                    if fileSize < 0 \<or> ioTruncate o' then (Inl Truncate_failed, d)
                    else
                      let d = fs_set_data d fd (truncate_bytes (dData d fd) (nat fileSize));
                          info = info\<lparr>iSize := fileSize, iModTime := now1, iATime := now2\<rparr>
                      in if ioEntry o' then (Inl No_entry, d)
                         else (Inr \<lparr>itKey = key, itEntry = entryName, itName = filename,
                                 itFile = Some fd, itInfo = info, itOpens = 0, itDownloaders = True,
                                 itDirty = True, itClosed = False\<rparr>, d))"

section \<open>The cache\<close>

record vcache =
  cExpiry :: int
  cMaxSize :: int
  cThreshold :: int
  cItems :: "(gostring \<times> item) list"
  cTotalSize :: int
  cItemCount :: int
  cHits :: int
  cMisses :: int
  cDownloaded :: int
  cSpeed :: int
  cLastBytes :: int
  cLastTime :: int
  cDisk :: disk

text \<open>
  A \<open>float64\<close> has 53 significant bits: \<open>round53\<close> rounds a positive number to the nearest one, ties to
  even. 0.90 is 8106479329266893 times \<open>2\<^sup>-\<^sup>5\<^sup>3\<close>, so the product of two such numbers is that of
  their integers, rounded, and the conversion to \<open>int64\<close> cuts the fraction off.
\<close>

fun bit_len :: "nat \<Rightarrow> nat" where
  "bit_len n = (if n = 0 then 0 else Suc (bit_len (n div 2)))"

declare bit_len.simps [simp del]

definition round53 :: "nat \<Rightarrow> nat" where
  "round53 n =
     (let s = bit_len n - 53; q = n div 2 ^ s; r = n mod 2 ^ s
      in (if 2 * r > 2 ^ s \<or> (2 * r = 2 ^ s \<and> odd q) then q + 1 else q) * 2 ^ s)"

definition scaled_size :: "int \<Rightarrow> int" where
  "scaled_size m = int (round53 (round53 (nat m) * 8106479329266893) div 2 ^ 53)"

definition evict_threshold :: "int \<Rightarrow> int" where
  "evict_threshold maxSize =
     (if maxSize > 0 then
        (let threshold = scaled_size maxSize in if threshold \<le> 0 then maxSize else threshold)
      else 0)"

definition NewCache :: "int \<Rightarrow> int \<Rightarrow> disk \<Rightarrow> vcache" where
  "NewCache expiry maxSize d =
     \<lparr>cExpiry = expiry, cMaxSize = maxSize, cThreshold = evict_threshold maxSize, cItems = [],
      cTotalSize = 0, cItemCount = 0, cHits = 0, cMisses = 0, cDownloaded = 0, cSpeed = 0,
      cLastBytes = 0, cLastTime = 0, cDisk = d\<rparr>"

text \<open>\<open>GetItem\<close>. The group of calls that create an item runs one of them at a time per key.\<close>

definition GetItem ::
  "codec \<Rightarrow> io \<Rightarrow> gotime \<Rightarrow> gotime \<Rightarrow> gotime \<Rightarrow> vcache \<Rightarrow> gostring \<Rightarrow> gostring \<Rightarrow> int
   \<Rightarrow> (cache_err + item) \<times> vcache" where
  "GetItem cd o' now1 now2 now3 c entryName filename fileSize =
     (let key = buildCacheKey entryName filename
      in case map_of (cItems c) key of
           Some it \<Rightarrow>
             (let it = touch now1 it in (Inr it, c\<lparr>cItems := AList.update key it (cItems c)\<rparr>))
         | None \<Rightarrow>
             (case newItem cd o' now1 now2 (cDisk c) key entryName filename fileSize of
                (Inl e, d) \<Rightarrow> (Inl e, c\<lparr>cDisk := d\<rparr>)
              | (Inr it, d) \<Rightarrow>
                  (let it = touch now3 it
                   in (Inr it, c\<lparr>cItems := AList.update key it (cItems c),
                                 cItemCount := i64 (cItemCount c + 1), cDisk := d\<rparr>))))"

section \<open>Eviction\<close>

text \<open>\<open>time.Time.Sub\<close> saturates.\<close>

definition time_Sub :: "gotime \<Rightarrow> gotime \<Rightarrow> int" where
  "time_Sub t u = max (- (2 ^ 63)) (min (2 ^ 63 - 1) (t - u))"

definition itemIdleTimeout :: int where
  "itemIdleTimeout = 60 * 1000000000"

text \<open>\<open>cleanupItems\<close>: the keys its first loop collects, and its second loop.\<close>

definition idle_keys :: "gotime \<Rightarrow> vcache \<Rightarrow> gostring list" where
  "idle_keys now c =
     map fst (filter (\<lambda>(k, it). \<not> itOpens it > 0 \<and> time_Sub now (iATime (itInfo it)) > itemIdleTimeout)
       (cItems c))"

fun close_items :: "codec \<Rightarrow> (gostring \<Rightarrow> io \<times> io) \<Rightarrow> gostring list \<Rightarrow> vcache \<Rightarrow> vcache" where
  "close_items cd o' [] c = c"
| "close_items cd o' (key # keys) c =
     close_items cd o' keys
       (case map_of (cItems c) key of
          None \<Rightarrow> c
        | Some it \<Rightarrow>
            c\<lparr>cItems := AList.delete key (cItems c), cItemCount := i64 (cItemCount c - 1),
              cDisk := snd (Close_item cd (fst (o' key)) (snd (o' key)) it (cDisk c))\<rparr>)"

definition cleanupItems :: "codec \<Rightarrow> (gostring \<Rightarrow> io \<times> io) \<Rightarrow> gotime \<Rightarrow> vcache \<Rightarrow> vcache" where
  "cleanupItems cd o' now c = close_items cd o' (idle_keys now c) c"

record cand =
  cdKey :: gostring
  cdData :: fpath
  cdMeta :: fpath
  cdATime :: gotime
  cdMTime :: gotime
  cdSize :: int
  cdOpens :: int
  cdInMap :: bool

text \<open>
  What the scan reads: whether reading a directory, a metadata file, or the status of a data file
  fails, and the modification time of a data file.
\<close>

record scan_env =
  seTop :: bool
  seDir :: "gostring \<Rightarrow> bool"
  seRead :: "fpath \<Rightarrow> bool"
  seStat :: "fpath \<Rightarrow> bool"
  seMTime :: "fpath \<Rightarrow> gotime"
  seRmDir :: "gostring \<Rightarrow> bool"

definition HasSuffix :: "gostring \<Rightarrow> gostring \<Rightarrow> bool" where
  "HasSuffix s suf \<longleftrightarrow> length suf \<le> length s \<and> drop (length s - length suf) s = suf"

definition TrimSuffix :: "gostring \<Rightarrow> gostring \<Rightarrow> gostring" where
  "TrimSuffix s suf = (if HasSuffix s suf then take (length s - length suf) s else s)"

definition scan_file ::
  "codec \<Rightarrow> scan_env \<Rightarrow> vcache \<Rightarrow> gostring \<Rightarrow> gostring \<times> node \<Rightarrow> cand option" where
  "scan_file cd se c entryName sub =
     (if snd sub = DirN \<or> \<not> HasSuffix (fst sub) dot_json then None
      else
        let filename = TrimSuffix (fst sub) dot_json;
            metaPath = (entryName, fst sub);
            dataPath = (entryName, filename);
            key = buildCacheKey entryName filename;
            (opens, inMap) = (case map_of (cItems c) key of
                                Some it \<Rightarrow> (itOpens it, True) | None \<Rightarrow> (0, False))
        in case fs_content (cDisk c) metaPath of
             None \<Rightarrow> None
           | Some text \<Rightarrow>
               if seRead se metaPath then None
               else case unmarshal cd text of
                 None \<Rightarrow> None
               | Some info \<Rightarrow>
                   if node_at (cDisk c) dataPath = None \<or> seStat se dataPath then None
                   else
                     let atime = iATime info; mtime = iModTime info;
                         atime = (if time_IsZero atime then mtime else atime);
                         (mtime', atime) =
                           (if time_IsZero mtime
                            then (seMTime se dataPath,
                                  if time_IsZero atime then seMTime se dataPath else atime)
                            else (mtime, atime))
                     in Some \<lparr>cdKey = key, cdData = dataPath, cdMeta = metaPath, cdATime = atime,
                              cdMTime = mtime', cdSize = Size (iRs info), cdOpens = opens,
                              cdInMap = inMap\<rparr>)"

text \<open>The files of one directory, in the order of \<open>os.ReadDir\<close>, which sorts by name.\<close>

fun scan_dirs ::
  "codec \<Rightarrow> scan_env \<Rightarrow> gostring list \<Rightarrow> vcache \<Rightarrow> cand list \<Rightarrow> int \<Rightarrow> (cand list \<times> int) \<times> vcache" where
  "scan_dirs cd se [] c cands tot = ((cands, tot), c)"
| "scan_dirs cd se (entryName # es) c cands tot =
     (if seDir se entryName then scan_dirs cd se es c cands tot
      else let subs = sort_key fst (dir_of (cDisk c) entryName)
           in if subs = []
              then scan_dirs cd se es
                     (if seRmDir se entryName then c else c\<lparr>cDisk := fs_rmdir (cDisk c) entryName\<rparr>)
                     cands tot
              else let cs = List.map_filter (scan_file cd se c entryName) subs
                   in scan_dirs cd se es c (cands @ cs)
                        (foldl (\<lambda>t x. i64 (t + cdSize x)) tot cs))"

definition scanDiskCandidates :: "codec \<Rightarrow> scan_env \<Rightarrow> vcache \<Rightarrow> (cand list \<times> int) \<times> vcache" where
  "scanDiskCandidates cd se c =
     (if seTop se then (([], 0), c)
      else scan_dirs cd se (sort (map fst (dDirs (cDisk c)))) c [] 0)"

text \<open>\<open>removeCandidate\<close>: the keys removed and the disk; a failing \<open>os.Remove\<close> is only logged.\<close>

definition removeCandidate ::
  "(fpath \<Rightarrow> bool) \<Rightarrow> cand \<Rightarrow> gostring set \<times> disk \<Rightarrow> gostring set \<times> disk" where
  "removeCandidate fails x st =
     (case st of (removed, d) \<Rightarrow>
        if cdKey x \<in> removed then (removed, d)
        else if cdInMap x \<or> cdOpens x > 0 then (removed, d)
        else let d = (if fails (cdData x) then d else fs_unlink d (cdData x));
                 d = (if fails (cdMeta x) then d else fs_unlink d (cdMeta x))
             in (insert (cdKey x) removed, d))"

fun evict_expired ::
  "(fpath \<Rightarrow> bool) \<Rightarrow> gotime \<Rightarrow> int \<Rightarrow> cand list \<Rightarrow> int \<Rightarrow> gostring set \<times> disk \<Rightarrow> int \<times> gostring set \<times> disk" where
  "evict_expired fails now expiry [] tot st = (tot, st)"
| "evict_expired fails now expiry (x # xs) tot st =
     (if \<not> cdInMap x \<and> cdOpens x = 0 \<and> time_Sub now (cdATime x) > expiry
      then evict_expired fails now expiry xs (i64 (tot - cdSize x)) (removeCandidate fails x st)
      else evict_expired fails now expiry xs tot st)"

fun evict_oldest ::
  "(fpath \<Rightarrow> bool) \<Rightarrow> int \<Rightarrow> cand list \<Rightarrow> int \<Rightarrow> gostring set \<times> disk \<Rightarrow> int \<times> gostring set \<times> disk" where
  "evict_oldest fails threshold [] tot st = (tot, st)"
| "evict_oldest fails threshold (x # xs) tot st =
     (if tot \<le> threshold then (tot, st)
      else if cdInMap x \<or> cdOpens x > 0 then evict_oldest fails threshold xs tot st
      else if cdKey x \<in> fst st then evict_oldest fails threshold xs tot st
      else evict_oldest fails threshold xs (i64 (tot - cdSize x)) (removeCandidate fails x st))"

text \<open>The order of the second phase, the comparison that the code passes to \<open>sort.Slice\<close>: by access time,
  then by modification time. \<open>srt\<close> stands for \<open>sort.Slice\<close>, a function of the comparison and the slice.\<close>

definition older :: "cand \<Rightarrow> cand \<Rightarrow> bool" where
  "older x y = (if cdATime x = cdATime y then cdMTime x < cdMTime y else cdATime x < cdATime y)"

definition evictCandidates ::
  "((cand \<Rightarrow> cand \<Rightarrow> bool) \<Rightarrow> cand list \<Rightarrow> cand list) \<Rightarrow> (fpath \<Rightarrow> bool) \<Rightarrow> vcache \<Rightarrow> gotime \<Rightarrow> cand list \<Rightarrow> int \<Rightarrow> int
   \<Rightarrow> (int \<times> int) \<times> gostring set \<times> disk" where
  "evictCandidates srt fails c now cands totalSize override =
     (let threshold = (if override > 0 then override else cThreshold c);
          (tot, st) =
            (if cExpiry c > 0 then evict_expired fails now (cExpiry c) cands totalSize ({}, cDisk c)
             else (totalSize, {}, cDisk c));
          (tot, st) =
            (if threshold > 0 \<and> tot > threshold then evict_oldest fails threshold (srt older cands) tot st
             else (tot, st))
      in ((tot, int (card (fst st))), st))"

definition evict ::
  "codec \<Rightarrow> (gostring \<Rightarrow> io \<times> io) \<Rightarrow> scan_env \<Rightarrow> ((cand \<Rightarrow> cand \<Rightarrow> bool) \<Rightarrow> cand list \<Rightarrow> cand list)
   \<Rightarrow> (fpath \<Rightarrow> bool) \<Rightarrow> gotime \<Rightarrow> vcache \<Rightarrow> vcache" where
  "evict cd o' se srt fails now c =
     (let c = cleanupItems cd o' now c;
          ((cands, tot), c) = scanDiskCandidates cd se c
      in if cExpiry c \<le> 0 \<and> (cThreshold c \<le> 0 \<or> tot \<le> cThreshold c) then c
         else let ((tot, _), _, d) = evictCandidates srt fails c now cands tot 0
              in c\<lparr>cTotalSize := tot, cDisk := d\<rparr>)"

text \<open>\<open>Close\<close> of the cache: every item, in the order of the map.\<close>

definition Close_cache :: "codec \<Rightarrow> (gostring \<Rightarrow> io \<times> io) \<Rightarrow> vcache \<Rightarrow> vcache" where
  "Close_cache cd o' c =
     c\<lparr>cItems := [], cItemCount := 0,
       cDisk := fold (\<lambda>(k, it) d. snd (Close_item cd (fst (o' k)) (snd (o' k)) it d)) (cItems c) (cDisk c)\<rparr>"

section \<open>Counters\<close>

definition RecordCacheHit :: "vcache \<Rightarrow> vcache" where
  "RecordCacheHit c = c\<lparr>cHits := i64 (cHits c + 1)\<rparr>"

definition RecordCacheMiss :: "vcache \<Rightarrow> vcache" where
  "RecordCacheMiss c = c\<lparr>cMisses := i64 (cMisses c + 1)\<rparr>"

definition AddDownloadedBytes :: "int \<Rightarrow> vcache \<Rightarrow> vcache" where
  "AddDownloadedBytes n c = c\<lparr>cDownloaded := i64 (cDownloaded c + n)\<rparr>"

text \<open>Go's integer division truncates.\<close>

definition go_div :: "int \<Rightarrow> int \<Rightarrow> int" where
  "go_div a b = sgn a * sgn b * (\<bar>a\<bar> div \<bar>b\<bar>)"

definition updateSpeed :: "int \<Rightarrow> vcache \<Rightarrow> vcache" where
  "updateSpeed now c =
     (let currentBytes = cDownloaded c; lastTime = cLastTime c; lastBytes = cLastBytes c;
          c = c\<lparr>cLastTime := now, cLastBytes := currentBytes\<rparr>
      in if lastTime = 0 then c
         else let elapsed = i64 (now - lastTime)
              in if elapsed \<le> 0 then c
                 else let bps = i64 (go_div (i64 (i64 (currentBytes - lastBytes) * 1000000000)) elapsed)
                      in c\<lparr>cSpeed := (if bps < 0 then 0 else bps)\<rparr>)"


section \<open>Writing only what is missing\<close>

lemma length_truncate_bytes [simp]: "length (truncate_bytes bs n) = n"
  by (simp add: truncate_bytes_def)

lemma truncate_bytes_same [simp]: "truncate_bytes bs (length bs) = bs"
  by (simp add: truncate_bytes_def)

lemma write_bytes_inside:
  assumes "off + length p \<le> length bs"
  shows "length (write_bytes bs off p) = length bs"
    and "i < length bs \<Longrightarrow> write_bytes bs off p ! i =
      (if off \<le> i \<and> i < off + length p then p ! (i - off) else bs ! i)"
  using assms by (auto simp: write_bytes_def max_absorb2 nth_append min_def)

text \<open>Consecutive pieces from \<open>a\<close> to \<open>b\<close>.\<close>

fun tiles :: "int \<Rightarrow> int \<Rightarrow> (range \<times> bool) list \<Rightarrow> bool" where
  "tiles a b [] \<longleftrightarrow> a = b"
| "tiles a b ((c, q) # fs) \<longleftrightarrow> rPos c = a \<and> range_ok c \<and> rend c \<le> b \<and> tiles (rend c) b fs"

definition flagged :: "int set \<Rightarrow> (range \<times> bool) list \<Rightarrow> bool" where
  "flagged C fs \<longleftrightarrow> (\<forall>(c, q) \<in> set fs. if q then bytes c \<subseteq> C else bytes c \<inter> C = {})"

lemma flagged_simps [simp]:
  "flagged C []"
  "flagged C ((c, q) # fs) \<longleftrightarrow> (if q then bytes c \<subseteq> C else bytes c \<inter> C = {}) \<and> flagged C fs"
  by (auto simp: flagged_def)

lemma tiles_le: "tiles a b fs \<Longrightarrow> a \<le> b"
  by (induction a b fs rule: tiles.induct) (auto dest: range_ok_fits)

lemma FindAll_loop_tiles:
  assumes "ranges_ok rs" "range_ok r"
  shows "\<exists>fs. FindAll_loop rs r acc = Some (acc @ fs) \<and> tiles (rPos r) (rend r) fs
    \<and> flagged (covered rs) fs"
  using assms(2)
proof (induction "nat (rSize r)" arbitrary: r acc rule: less_induct)
  case less
  obtain c n p where F: "Find rs r = (c, n, p)" by (cases "Find rs r") auto
  note sp = Find_spec[OF assms(1) less.prems F]
  have c: "range_ok c" "rPos c = rPos r" "rend c \<le> rend r"
    "if p then bytes c \<subseteq> covered rs else bytes c \<inter> covered rs = {}"
    using sp by (auto simp: find_spec_def)
  have step: "FindAll_loop rs r acc = FindAll_loop rs n (acc @ [(c, p)])"
    using less.prems F by (simp add: FindAll_loop.simps [of rs r])
  show ?case
  proof (cases "IsEmpty n")
    case True
    then have "FindAll_loop rs r acc = Some (acc @ [(c, p)])" and "rend c = rend r"
      using sp by (simp_all add: step FindAll_loop.simps [of rs n] find_spec_def)
    with c show ?thesis by (intro exI[of _ "[(c, p)]"]) simp
  next
    case False
    note n = find_spec_shrinks[OF sp False]
    from less.hyps[OF n[THEN conjunct1] n[THEN conjunct2], of "acc @ [(c, p)]"] obtain fs where
      fs: "FindAll_loop rs n (acc @ [(c, p)]) = Some ((acc @ [(c, p)]) @ fs)"
        "tiles (rPos n) (rend n) fs" "flagged (covered rs) fs"
      by blast
    have "rPos n = rend c" "rend n = rend r"
      using sp False n by (auto simp: find_spec_def dest: range_ok_fits)
    with fs c step show ?thesis by (intro exI[of _ "(c, p) # fs"]) simp
  qed
qed

lemma FindAll_tiles:
  assumes "ranges_ok rs" "IsEmpty r \<or> range_ok r"
  obtains fs where "FindAll rs r = Some fs" "\<not> IsEmpty r \<Longrightarrow> tiles (rPos r) (rend r) fs"
    "IsEmpty r \<Longrightarrow> fs = []" "flagged (covered rs) fs"
proof (cases "IsEmpty r")
  case True
  then show ?thesis using that[of "[]"] by (simp add: FindAll_def FindAll_loop.simps)
next
  case False
  with assms FindAll_loop_tiles[of rs r "[]"] show ?thesis using that by (auto simp: FindAll_def)
qed

text \<open>What the loop leaves: bytes outside the missing parts keep their value, those of the missing
  parts are the new ones as far as the loop came.\<close>

definition patched :: "byte list \<Rightarrow> int \<Rightarrow> byte list \<Rightarrow> int set \<Rightarrow> byte list \<Rightarrow> bool" where
  "patched p off bs M bs' \<longleftrightarrow>
     length bs' = length bs \<and>
     (\<forall>i < length bs. bs' ! i = bs ! i \<or> int i \<in> M \<and> bs' ! i = p ! nat (int i - off))"

lemma patched_refl [simp]: "patched p off bs M bs"
  by (simp add: patched_def)

lemma patched_trans:
  "patched p off bs M bs1 \<Longrightarrow> patched p off bs1 M' bs2 \<Longrightarrow> M \<subseteq> N \<Longrightarrow> M' \<subseteq> N \<Longrightarrow> patched p off bs N bs2"
  unfolding patched_def by (metis subset_iff)

lemma write_part:
  assumes c: "range_ok c" "off \<le> rPos c" "0 \<le> off" "rend c \<le> off + int (length p)" "rend c \<le> int (length bs)"
  defines "part \<equiv> take (nat (rSize c)) (drop (nat (rPos c - off)) p)"
  shows "patched p off bs (bytes c) (write_bytes bs (nat (rPos c)) part)"
    and "patched p off bs (bytes c) (write_bytes bs (nat (rPos c)) (take k part))"
    and "int i \<in> bytes c \<Longrightarrow> write_bytes bs (nat (rPos c)) part ! i = p ! nat (int i - off)"
proof -
  note fits = range_ok_fits[OF c(1)]
  have len: "length part = nat (rSize c)"
    using c fits by (simp add: part_def rend_def)
  have inside: "nat (rPos c) + length (take j part) \<le> length bs" for j
  proof -
    have "length (take j part) \<le> nat (rSize c)" by (simp add: len)
    then show ?thesis using c fits by (simp only: rend_def) linarith
  qed
  have nth: "take j part ! (i - nat (rPos c)) = p ! nat (int i - off)"
    if "rPos c \<le> int i" "i - nat (rPos c) < length (take j part)" for i j
  proof -
    have "nat (rPos c - off) + (i - nat (rPos c)) = nat (int i - off)"
      using that c fits by simp
    moreover have "i - nat (rPos c) < nat (rSize c)" "i - nat (rPos c) < j"
      using that len by simp_all
    moreover have "nat (rPos c - off) \<le> length p"
      using c fits by linarith
    ultimately show ?thesis by (simp only: part_def nth_take nth_drop)
  qed
  have gen: "patched p off bs (bytes c) (write_bytes bs (nat (rPos c)) (take j part))" for j
    unfolding patched_def
  proof (intro conjI allI impI)
    show "length (write_bytes bs (nat (rPos c)) (take j part)) = length bs"
      by (rule write_bytes_inside(1)[OF inside])
    fix i assume i: "i < length bs"
    show "write_bytes bs (nat (rPos c)) (take j part) ! i = bs ! i
      \<or> int i \<in> bytes c \<and> write_bytes bs (nat (rPos c)) (take j part) ! i = p ! nat (int i - off)"
    proof (cases "nat (rPos c) \<le> i \<and> i < nat (rPos c) + length (take j part)")
      case True
      then have "int i \<in> bytes c" using len fits by (auto simp: bytes_def rend_def)
      moreover have "write_bytes bs (nat (rPos c)) (take j part) ! i = p ! nat (int i - off)"
        unfolding write_bytes_inside(2)[OF inside i] if_P[OF True]
        by (rule nth) (use True in linarith)+
      ultimately show ?thesis by blast
    next
      case False
      show ?thesis unfolding write_bytes_inside(2)[OF inside i] if_not_P[OF False] by simp
    qed
  qed
  show "patched p off bs (bytes c) (write_bytes bs (nat (rPos c)) part)"
    using gen[of "length part"] by simp
  show "patched p off bs (bytes c) (write_bytes bs (nat (rPos c)) (take k part))" by (rule gen)
  assume i: "int i \<in> bytes c"
  then have "i < length bs" "nat (rPos c) \<le> i" "i < nat (rPos c) + length part"
    using c len fits by (auto simp: bytes_def rend_def)
  then show "write_bytes bs (nat (rPos c)) part ! i = p ! nat (int i - off)"
    using inside[of "length part"] nth[of i "length part"] i by (simp add: write_bytes_inside bytes_def)
qed

lemma card_split: "a \<le> b \<Longrightarrow> b \<le> c \<Longrightarrow>
  card ({a..<c} \<inter> C) = card ({a..<b} \<inter> C) + card ({b..<c :: int} \<inter> C)"
proof -
  assume "a \<le> b" "b \<le> c"
  then have "{a..<c} \<inter> C = ({a..<b} \<inter> C) \<union> ({b..<c} \<inter> C)" by auto
  then show ?thesis by (simp add: card_Un_disjoint disjoint_iff)
qed

lemma write_missing_spec:
  assumes "write_missing wr p off fs sk bs = (sk', err, bs')"
    and "tiles a e fs" "flagged C fs" "off \<le> a" "0 \<le> off" "e \<le> off + int (length p)"
    and "e \<le> int (length bs)" "0 \<le> sk" "sk + (e - a) < 2 ^ 63" "off + int (length p) < 2 ^ 63"
  shows "patched p off bs ({a..<e} - C) bs'
    \<and> ((\<forall>r. wr r = None) \<longrightarrow> err = None)
    \<and> err \<in> {None, Some WriteFailed}
    \<and> (err = None \<longrightarrow> sk' = sk + int (card ({a..<e} \<inter> C))
        \<and> (\<forall>i < length bs. int i \<in> {a..<e} - C \<longrightarrow> bs' ! i = p ! nat (int i - off)))"
  using assms
proof (induction wr p off fs sk bs arbitrary: a rule: write_missing.induct)
  case (1 wr p off skipped bs)
  then show ?case by auto
next
  case (2 wr p off c present fs sk bs)
  note prems = "2.prems"
  have c: "rPos c = a" "range_ok c" "rend c \<le> e" "tiles (rend c) e fs" "flagged C fs"
    using prems by auto
  note fits = range_ok_fits[OF c(2)]
  have bc: "bytes c = {a..<rend c}" using c by (simp add: bytes_def)
  have size: "rSize c = rend c - a" using c by (simp add: rend_def)
  have le: "a \<le> rend c" using fits c by simp
  show ?case
  proof (cases present)
    case True
    have sub: "bytes c \<subseteq> C" using prems True by simp
    have sk: "i64 (sk + rSize c) = sk + rSize c"
      using prems c size fits by (simp add: i64_fits)
    have eq: "write_missing wr p off fs (sk + rSize c) bs = (sk', err, bs')"
      using prems True sk by simp
    have card: "int (card ({a..<rend c} \<inter> C)) = rSize c"
      using sub bc le size by (simp add: Int_absorb2)
    have sets: "{a..<e} - C = {rend c..<e} - C"
      using sub bc le by auto
    note IH = "2.IH"(1)[OF True, unfolded sk, OF eq c(4,5)]
    have "patched p off bs ({rend c..<e} - C) bs'
      \<and> ((\<forall>r. wr r = None) \<longrightarrow> err = None)
      \<and> err \<in> {None, Some WriteFailed}
      \<and> (err = None \<longrightarrow> sk' = sk + rSize c + int (card ({rend c..<e} \<inter> C))
        \<and> (\<forall>i < length bs. int i \<in> {rend c..<e} - C \<longrightarrow> bs' ! i = p ! nat (int i - off)))"
      by (rule IH) (use prems size le fits in auto)
    then show ?thesis
      unfolding sets card_split[OF le c(3)] using card by auto
  next
    case False
    have dis: "bytes c \<inter> C = {}" using prems False by simp
    have lo: "i64 (rPos c - off) = rPos c - off"
      using prems c fits by (simp add: i64_fits)
    have "off \<le> a" "e \<le> off + int (length p)" "0 \<le> off" by (fact prems)+
    then have ok: "\<not> (rPos c - off < 0 \<or> rSize c < 0 \<or> rPos c - off + rSize c > int (length p))"
      "\<not> rPos c < 0"
      using c(1,3) fits size by linarith+
    define part where "part = take (nat (rSize c)) (drop (nat (rPos c - off)) p)"
    have eq: "(case wr c of
         Some k \<Rightarrow> (sk, Some WriteFailed, write_bytes bs (nat (rPos c)) (take k part))
       | None \<Rightarrow> write_missing wr p off fs sk (write_bytes bs (nat (rPos c)) part)) = (sk', err, bs')"
      using prems(1) False lo ok unfolding part_def by (simp add: Let_def)
    have cond: "off \<le> rPos c" "rend c \<le> off + int (length p)" "rend c \<le> int (length bs)"
      using prems c by auto
    note W = write_part[OF c(2) cond(1) prems(5) cond(2,3), folded part_def]
    have sets: "bytes c \<subseteq> {a..<e} - C" "{rend c..<e} - C \<subseteq> {a..<e} - C"
      using dis bc le c(3) by auto
    show ?thesis
    proof (cases "wr c")
      case (Some k)
      then have "err = Some WriteFailed" "bs' = write_bytes bs (nat (rPos c)) (take k part)"
        using eq by auto
      then show ?thesis
        using W(2)[of k] sets(1) Some patched_trans[OF W(2) patched_refl sets(1) sets(1)] by auto
    next
      case None
      define bs1 where "bs1 = write_bytes bs (nat (rPos c)) part"
      have len1: "length bs1 = length bs" using W(1) by (simp add: patched_def bs1_def)
      have eq': "write_missing wr p off fs sk bs1 = (sk', err, bs')"
        using eq None by (simp add: bs1_def)
      note IH = "2.IH"(2)[OF False refl, unfolded lo, OF ok(1) ok(2), folded part_def,
          OF refl None, folded bs1_def, OF eq' c(4,5)]
      have I: "patched p off bs1 ({rend c..<e} - C) bs'
        \<and> ((\<forall>r. wr r = None) \<longrightarrow> err = None)
        \<and> err \<in> {None, Some WriteFailed}
        \<and> (err = None \<longrightarrow> sk' = sk + int (card ({rend c..<e} \<inter> C))
          \<and> (\<forall>i < length bs1. int i \<in> {rend c..<e} - C \<longrightarrow> bs' ! i = p ! nat (int i - off)))"
        by (rule IH) (use prems size le fits len1 in auto)
      have P: "patched p off bs ({a..<e} - C) bs'"
        using patched_trans[OF W(1)[folded bs1_def] I[THEN conjunct1] sets] .
      have "card ({a..<rend c} \<inter> C) = 0" using dis bc by (simp add: card_eq_0_iff)
      then have card: "card ({a..<e} \<inter> C) = card ({rend c..<e} \<inter> C)"
        using card_split[OF le c(3), of C] by simp
      have "bs' ! i = p ! nat (int i - off)"
        if "err = None" "i < length bs" "int i \<in> {a..<e} - C" for i
      proof (cases "int i < rend c")
        case True
        then have "int i \<in> bytes c" using that bc by auto
        then have "bs1 ! i = p ! nat (int i - off)" using W(3) by (simp add: bs1_def)
        with I that len1 show ?thesis unfolding patched_def by metis
      qed (use I that len1 in auto)
      with P I card show ?thesis by auto
    qed
  qed
qed

text \<open>The data file of an item: as long as the remote file, and right where the metadata says it is.\<close>

definition file_ok :: "(nat \<Rightarrow> byte) \<Rightarrow> int \<Rightarrow> item_info \<Rightarrow> byte list \<Rightarrow> bool" where
  "file_ok src n info bs \<longleftrightarrow>
     iSize info = n \<and> 0 \<le> n \<and> n < 2 ^ 63 \<and> int (length bs) = n \<and> ranges_ok (iRs info)
     \<and> covered (iRs info) \<subseteq> {0..<n}
     \<and> (\<forall>i < length bs. int i \<in> covered (iRs info) \<longrightarrow> bs ! i = src i)"

definition written :: "byte list \<Rightarrow> int \<Rightarrow> range" where
  "written p off = \<lparr>rPos = off, rSize = int (length p)\<rparr>"

lemma written_simps [simp]:
  "rPos (written p off) = off" "rSize (written p off) = int (length p)"
  "rend (written p off) = off + int (length p)"
  "IsEmpty (written p off) \<longleftrightarrow> p = []"
  by (simp_all add: written_def rend_def IsEmpty_def)

lemma written_ok:
  "0 \<le> off \<Longrightarrow> off + int (length p) < 2 ^ 63 \<Longrightarrow> IsEmpty (written p off) \<or> range_ok (written p off)"
  by (auto simp: range_ok_def)

lemma WriteAtNoOverwrite_spec:
  assumes rs: "ranges_ok (iRs (itInfo it))" and f: "itFile it = Some f"
    and p: "0 \<le> off" "off + int (length p) \<le> int (length (dData d f))" "off + int (length p) < 2 ^ 63"
  obtains sk err bs' where
    "WriteAtNoOverwrite wr it d p off =
       Some ((int (length p), sk, err),
         if err = None then it\<lparr>itInfo := (itInfo it)\<lparr>iRs := Insert (iRs (itInfo it)) (written p off)\<rparr>,
            itDirty := True\<rparr> else it,
         fs_set_data d f bs')"
    and "patched p off (dData d f) (bytes (written p off) - covered (iRs (itInfo it))) bs'"
    and "(\<forall>r. wr r = None) \<Longrightarrow> err = None" and "err \<in> {None, Some WriteFailed}"
    and "err = None \<Longrightarrow> sk = int (card (bytes (written p off) \<inter> covered (iRs (itInfo it))))"
    and "\<And>i. err = None \<Longrightarrow> i < length (dData d f)
      \<Longrightarrow> int i \<in> bytes (written p off) - covered (iRs (itInfo it)) \<Longrightarrow> bs' ! i = p ! nat (int i - off)"
proof -
  let ?r = "written p off" and ?C = "covered (iRs (itInfo it))"
  obtain fs where fs: "FindAll (iRs (itInfo it)) ?r = Some fs" "p \<noteq> [] \<Longrightarrow> tiles off (off + int (length p)) fs"
    "p = [] \<Longrightarrow> fs = []" "flagged ?C fs"
    using FindAll_tiles[OF rs written_ok[OF p(1,3)]] by auto
  have tiles: "tiles off (off + int (length p)) fs"
    using fs(2,3) by (cases "p = []") auto
  obtain sk err bs' where W: "write_missing wr p off fs 0 (dData d f) = (sk, err, bs')"
    by (cases "write_missing wr p off fs 0 (dData d f)") auto
  have b: "bytes ?r = {off..<off + int (length p)}" by (simp add: bytes_def)
  have "patched p off (dData d f) ({off..<off + int (length p)} - ?C) bs'
    \<and> ((\<forall>r. wr r = None) \<longrightarrow> err = None) \<and> err \<in> {None, Some WriteFailed}
    \<and> (err = None \<longrightarrow> sk = 0 + int (card ({off..<off + int (length p)} \<inter> ?C))
      \<and> (\<forall>i < length (dData d f). int i \<in> {off..<off + int (length p)} - ?C
          \<longrightarrow> bs' ! i = p ! nat (int i - off)))"
    by (rule write_missing_spec[OF W tiles fs(4)]) (use p in auto)
  moreover have "WriteAtNoOverwrite wr it d p off =
       Some ((int (length p), sk, err),
         if err = None then it\<lparr>itInfo := (itInfo it)\<lparr>iRs := Insert (iRs (itInfo it)) ?r\<rparr>,
            itDirty := True\<rparr> else it,
         fs_set_data d f bs')"
    using fs(1) f W by (simp add: WriteAtNoOverwrite_def written_def Let_def)
  ultimately show ?thesis using that unfolding b by auto
qed

text \<open>C33. Writing a part of the file never changes a byte the metadata lists as present; when it succeeds
  it stores exactly the bytes that were missing, counts the others as skipped, and lists the whole
  part as present.\<close>

theorem WriteAtNoOverwrite_correct:
  assumes "ranges_ok (iRs (itInfo it))" "itFile it = Some f" "0 \<le> off"
    "off + int (length p) \<le> int (length (dData d f))" "off + int (length p) < 2 ^ 63"
    and "\<And>r. wr r = None"
  shows "\<exists>it' d'. WriteAtNoOverwrite wr it d p off =
      Some ((int (length p), int (card (bytes (written p off) \<inter> covered (iRs (itInfo it)))), None), it', d')
    \<and> covered (iRs (itInfo it')) = covered (iRs (itInfo it)) \<union> bytes (written p off)
    \<and> ranges_ok (iRs (itInfo it')) \<and> length (dData d' f) = length (dData d f)
    \<and> (\<forall>i < length (dData d f). dData d' f ! i =
         (if int i \<in> bytes (written p off) - covered (iRs (itInfo it)) then p ! nat (int i - off)
          else dData d f ! i))
    \<and> (\<forall>g. g \<noteq> f \<longrightarrow> dData d' g = dData d g)"
proof -
  obtain sk err bs' where
    W: "WriteAtNoOverwrite wr it d p off = Some ((int (length p), sk, err),
         if err = None then it\<lparr>itInfo := (itInfo it)\<lparr>iRs := Insert (iRs (itInfo it)) (written p off)\<rparr>,
            itDirty := True\<rparr> else it, fs_set_data d f bs')"
    and P: "patched p off (dData d f) (bytes (written p off) - covered (iRs (itInfo it))) bs'"
    and err: "(\<forall>r. wr r = None) \<Longrightarrow> err = None" and "err \<in> {None, Some WriteFailed}"
    and sk: "err = None \<Longrightarrow> sk = int (card (bytes (written p off) \<inter> covered (iRs (itInfo it))))"
    and new: "\<And>i. err = None \<Longrightarrow> i < length (dData d f)
      \<Longrightarrow> int i \<in> bytes (written p off) - covered (iRs (itInfo it)) \<Longrightarrow> bs' ! i = p ! nat (int i - off)"
    by (rule WriteAtNoOverwrite_spec[OF assms(1-5), where wr = wr and thesis = thesis]) blast
  note I = Insert_ok[OF assms(1) written_ok[OF assms(3,5)]]
  have ok: "err = None" using err assms(6) by blast
  define it' where "it' = it\<lparr>itInfo := (itInfo it)\<lparr>iRs := Insert (iRs (itInfo it)) (written p off)\<rparr>,
            itDirty := True\<rparr>"
  define d' where "d' = fs_set_data d f bs'"
  have rs: "iRs (itInfo it') = Insert (iRs (itInfo it)) (written p off)" by (simp add: it'_def)
  have d': "dData d' f = bs'" "\<forall>g. g \<noteq> f \<longrightarrow> dData d' g = dData d g"
    by (simp_all add: d'_def fs_set_data_def)
  have "\<forall>i < length (dData d f). dData d' f ! i =
       (if int i \<in> bytes (written p off) - covered (iRs (itInfo it)) then p ! nat (int i - off)
        else dData d f ! i)"
    unfolding d' using P new[OF ok] unfolding patched_def by (metis DiffE DiffI)
  moreover have "length (dData d' f) = length (dData d f)" using P by (simp only: patched_def d')
  moreover have "WriteAtNoOverwrite wr it d p off = Some ((int (length p),
      int (card (bytes (written p off) \<inter> covered (iRs (itInfo it)))), None), it', d')"
    unfolding W ok sk[OF ok] it'_def d'_def by (simp only: if_True simp_thms)
  moreover note I[folded rs] d'(2)
  ultimately show ?thesis by blast
qed

definition demo_it :: "range list \<Rightarrow> item" where
  "demo_it rs =
     \<lparr>itKey = [65, 47, 66], itEntry = [65], itName = [66], itFile = Some 0,
      itInfo = \<lparr>iSize = 4, iRs = rs, iModTime = 1, iATime = 1\<rparr>, itOpens = 1, itDownloaders = True,
      itDirty = False, itClosed = False\<rparr>"

definition demo_disk :: "byte list \<Rightarrow> disk" where
  "demo_disk bs = \<lparr>dDirs = [([65], [([66], FileN 0)])], dData = (\<lambda>_. bs), dNext = 1\<rparr>"

theorem WriteAtNoOverwrite_correct_witness:
  "\<exists>it' d'. WriteAtNoOverwrite (\<lambda>_. None) (demo_it [\<lparr>rPos = 2, rSize = 2\<rparr>]) (demo_disk [0, 0, 7, 8]) [5, 6, 9] 0
      = Some ((3, 1, None), it', d')
    \<and> covered (iRs (itInfo it')) = {0..<4} \<and> dData d' 0 = [5, 6, 7, 8]"
proof -
  let ?it = "demo_it [\<lparr>rPos = 2, rSize = 2\<rparr>]" and ?d = "demo_disk [0, 0, 7, 8]" and ?w = "written [5, 6, 9 :: byte] 0"
  have d: "dData ?d 0 = [0, 0, 7, 8]" by (simp add: demo_disk_def)
  have "ranges_ok (iRs (itInfo ?it))" "itFile ?it = Some 0"
    by (simp_all add: demo_it_def ranges_ok_def range_ok_def rend_def)
  moreover have "(0 :: int) \<le> 0" "0 + int (length [5, 6, 9 :: byte]) \<le> int (length (dData ?d 0))"
    "0 + int (length [5, 6, 9 :: byte]) < 2 ^ 63"
    by (simp_all add: d)
  ultimately obtain it' d' where W: "WriteAtNoOverwrite (\<lambda>_. None) ?it ?d [5, 6, 9] 0 =
      Some ((int (length [5, 6, 9 :: byte]), int (card (bytes ?w \<inter> covered (iRs (itInfo ?it)))), None), it', d')"
    "covered (iRs (itInfo it')) = covered (iRs (itInfo ?it)) \<union> bytes ?w"
    "length (dData d' 0) = length (dData ?d 0)"
    "\<forall>i < length (dData ?d 0). dData d' 0 ! i =
       (if int i \<in> bytes ?w - covered (iRs (itInfo ?it)) then [5, 6, 9] ! nat (int i - 0) else dData ?d 0 ! i)"
    using WriteAtNoOverwrite_correct[of ?it 0 0 "[5, 6, 9]" ?d "\<lambda>_. None"] by blast
  have c: "bytes ?w = {0..<3}" "covered (iRs (itInfo ?it)) = {2..<4}"
    by (simp_all add: bytes_def demo_it_def rend_def)
  have "{0..<3} \<inter> {2..<4} = {2 :: int}" by auto
  moreover have "{2..<4} \<union> {0..<3} = {0..<4 :: int}" by auto
  moreover have "dData d' 0 = [5, 6, 7, 8]"
  proof (rule nth_equalityI)
    show "length (dData d' 0) = length [5, 6, 7, 8 :: byte]" using W(3) d by simp
    fix i assume "i < length (dData d' 0)"
    then have "i \<in> {0, 1, 2, 3}" using W(3) d by auto
    then show "dData d' 0 ! i = [5, 6, 7, 8] ! i" using W(4) unfolding c d by auto
  qed
  ultimately show ?thesis using W(1,2) unfolding c by auto
qed

text \<open>For every write of bytes of the remote file, whether it succeeds, fails in the middle or finds the
  file closed, the metadata still lists only bytes that are on disk and equal to the remote ones.\<close>

lemma WriteAtNoOverwrite_keeps_file_ok:
  assumes ok: "file_ok src n (itInfo it) (dData d f)" and f: "itFile it = Some f"
    and p: "0 \<le> off" "off + int (length p) \<le> n" "\<And>i. i < length p \<Longrightarrow> p ! i = src (nat off + i)"
    and W: "WriteAtNoOverwrite wr it d p off = Some (res, it', d')"
  shows "file_ok src n (itInfo it') (dData d' f) \<and> covered (iRs (itInfo it)) \<subseteq> covered (iRs (itInfo it'))"
proof -
  have rs: "ranges_ok (iRs (itInfo it))" and fits: "off + int (length p) \<le> int (length (dData d f))"
    "off + int (length p) < 2 ^ 63"
    using ok p by (auto simp: file_ok_def)
  obtain sk err bs' where
    W': "WriteAtNoOverwrite wr it d p off = Some ((int (length p), sk, err),
         if err = None then it\<lparr>itInfo := (itInfo it)\<lparr>iRs := Insert (iRs (itInfo it)) (written p off)\<rparr>,
            itDirty := True\<rparr> else it, fs_set_data d f bs')"
    and P: "patched p off (dData d f) (bytes (written p off) - covered (iRs (itInfo it))) bs'"
    and "(\<forall>r. wr r = None) \<Longrightarrow> err = None" and "err \<in> {None, Some WriteFailed}"
    and "err = None \<Longrightarrow> sk = int (card (bytes (written p off) \<inter> covered (iRs (itInfo it))))"
    and new: "\<And>i. err = None \<Longrightarrow> i < length (dData d f)
      \<Longrightarrow> int i \<in> bytes (written p off) - covered (iRs (itInfo it)) \<Longrightarrow> bs' ! i = p ! nat (int i - off)"
    by (rule WriteAtNoOverwrite_spec[OF rs f p(1) fits, where wr = wr and thesis = thesis]) blast
  note I = Insert_ok[OF rs written_ok[OF p(1) fits(2)]]
  have src: "p ! nat (int i - off) = src i" if "int i \<in> bytes (written p off)" for i
  proof -
    have "off \<le> int i" "nat (int i - off) < length p" using that p(1) by (auto simp: bytes_def)
    then show ?thesis using p(3)[of "nat (int i - off)"] p(1) by (simp add: nat_diff_distrib)
  qed
  have len: "length bs' = length (dData d f)" using P by (simp add: patched_def)
  have old: "bs' ! i = src i" if "i < length bs'" "int i \<in> covered (iRs (itInfo it))" for i
    using that P len ok unfolding patched_def file_ok_def by (metis DiffD2)
  have new': "bs' ! i = src i" if "err = None" "i < length bs'" "int i \<in> bytes (written p off)" for i
    using that old[OF that(2)] new[OF that(1)] src[OF that(3)] len
    by (metis DiffI)
  have inside: "bytes (written p off) \<subseteq> {0..<n}" using p by (auto simp: bytes_def)
  have d': "dData d' f = bs'" using W W' by (auto simp: fs_set_data_def)
  show ?thesis
  proof (cases "err = None")
    case True
    then have it': "itInfo it' = (itInfo it)\<lparr>iRs := Insert (iRs (itInfo it)) (written p off)\<rparr>"
      using W W' by auto
    have "bs' ! i = src i" if "i < length bs'" "int i \<in> covered (Insert (iRs (itInfo it)) (written p off))" for i
      using that I old new'[OF True] by auto
    then show ?thesis
      using ok I inside len unfolding it' d' file_ok_def by auto
  next
    case False
    then have "it' = it" using W W' by auto
    then show ?thesis using ok old len unfolding d' file_ok_def by auto
  qed
qed

text \<open>A write of remote bytes spoils no metadata that was true of the data file.\<close>

lemma WriteAtNoOverwrite_any_info:
  assumes ok: "file_ok src n (itInfo it) (dData d f)" and f: "itFile it = Some f"
    and p: "0 \<le> off" "off + int (length p) \<le> n" "\<And>i. i < length p \<Longrightarrow> p ! i = src (nat off + i)"
    and W: "WriteAtNoOverwrite wr it d p off = Some (res, it', d')"
  obtains bs where "d' = fs_set_data d f bs" "\<forall>info. file_ok src n info (dData d f) \<longrightarrow> file_ok src n info bs"
    "itEntry it' = itEntry it \<and> itName it' = itName it \<and> itFile it' = itFile it \<and> itClosed it' = itClosed it"
proof -
  have rs: "ranges_ok (iRs (itInfo it))" and fits: "off + int (length p) \<le> int (length (dData d f))"
    "off + int (length p) < 2 ^ 63"
    using ok p by (auto simp: file_ok_def)
  obtain sk err bs' where
    W': "WriteAtNoOverwrite wr it d p off = Some ((int (length p), sk, err),
         if err = None then it\<lparr>itInfo := (itInfo it)\<lparr>iRs := Insert (iRs (itInfo it)) (written p off)\<rparr>,
            itDirty := True\<rparr> else it, fs_set_data d f bs')"
    and P: "patched p off (dData d f) (bytes (written p off) - covered (iRs (itInfo it))) bs'"
    and "(\<forall>r. wr r = None) \<Longrightarrow> err = None" and "err \<in> {None, Some WriteFailed}"
    and "err = None \<Longrightarrow> sk = int (card (bytes (written p off) \<inter> covered (iRs (itInfo it))))"
    and "\<And>i. err = None \<Longrightarrow> i < length (dData d f)
      \<Longrightarrow> int i \<in> bytes (written p off) - covered (iRs (itInfo it)) \<Longrightarrow> bs' ! i = p ! nat (int i - off)"
    by (rule WriteAtNoOverwrite_spec[OF rs f p(1) fits, where wr = wr and thesis = thesis]) blast
  have src: "p ! nat (int i - off) = src i" if "int i \<in> bytes (written p off)" for i
  proof -
    have "off \<le> int i" "nat (int i - off) < length p" using that p(1) by (auto simp: bytes_def)
    then show ?thesis using p(3)[of "nat (int i - off)"] p(1) by (simp add: nat_diff_distrib)
  qed
  have "bs' ! i = dData d f ! i \<or> bs' ! i = src i" if "i < length (dData d f)" for i
    using P that src unfolding patched_def by (metis DiffE)
  then have "file_ok src n info bs'" if "file_ok src n info (dData d f)" for info
    using that P unfolding file_ok_def patched_def by metis
  then show ?thesis
    using W W' by (intro that[of bs']) (auto split: if_splits)
qed

text \<open>The range a read asks for, and what it gets once that range is present.\<close>

lemma ReadAt_range_ok:
  assumes "file_ok src n (itInfo it) bs" "0 \<le> off" "off < n" "off + int len < 2 ^ 63"
  shows "ReadAt_range it len off = \<lparr>rPos = off, rSize = min (int len) (n - off)\<rparr>"
  using assms by (auto simp: ReadAt_range_def file_ok_def i64_fits min_def)

lemma read_present:
  assumes ok: "file_ok src n info bs" and r: "0 \<le> off" "0 \<le> k" "off + k \<le> n"
    and present: "{off..<off + k} \<subseteq> covered (iRs info)"
  shows "os_ReadAt bs (nat k) (nat off) = (map src [nat off..<nat (off + k)], False)"
proof -
  have len: "nat (off + k) \<le> length bs" using ok r by (auto simp: file_ok_def)
  have "take (nat k) (drop (nat off) bs) = map src [nat off..<nat (off + k)]"
  proof (rule nth_equalityI)
    show "length (take (nat k) (drop (nat off) bs)) = length (map src [nat off..<nat (off + k)])"
      using len r by (simp add: nat_add_distrib)
  next
    fix i assume "i < length (take (nat k) (drop (nat off) bs))"
    then have i: "i < nat k" "nat off + i < length bs" by auto
    then have "int (nat off + i) \<in> covered (iRs info)" using present r by auto
    with ok i have "bs ! (nat off + i) = src (nat off + i)" by (simp only: file_ok_def)
    with i r show "take (nat k) (drop (nat off) bs) ! i = map src [nat off..<nat (off + k)] ! i"
      by (simp add: nat_add_distrib)
  qed
  with len r show ?thesis by (simp add: os_ReadAt_def nat_add_distrib)
qed

lemma covered_range_Present:
  assumes "ranges_ok rs" "0 \<le> off" "off + k < 2 ^ 63" "Present rs \<lparr>rPos = off, rSize = k\<rparr>"
  shows "{off..<off + k} \<subseteq> covered rs"
proof -
  have "IsEmpty \<lparr>rPos = off, rSize = k\<rparr> \<or> range_ok \<lparr>rPos = off, rSize = k\<rparr>"
    using assms by (auto simp: range_ok_def)
  from Present_iff[OF assms(1) this] assms(4) show ?thesis by (simp add: bytes_def)
qed

text \<open>What other goroutines do to an open item and its file while a read waits for its download: they write
  bytes of the remote file at their places, each write successful or not, or close the item.\<close>

inductive remote_writes :: "(nat \<Rightarrow> byte) \<Rightarrow> int \<Rightarrow> item \<times> disk \<Rightarrow> item \<times> disk \<Rightarrow> bool"
  for src n start where
  none: "remote_writes src n start start"
| one_more: "remote_writes src n start (it, d) \<Longrightarrow> 0 \<le> off \<Longrightarrow> off + int (length p) \<le> n \<Longrightarrow>
    (\<And>i. i < length p \<Longrightarrow> p ! i = src (nat off + i)) \<Longrightarrow>
    WriteAtNoOverwrite wr it d p off = Some (res, it', d') \<Longrightarrow> remote_writes src n start (it', d')"
| item_closed: "remote_writes src n start (it, d) \<Longrightarrow> remote_writes src n start (it\<lparr>itFile := None\<rparr>, d)"

lemma WriteAtNoOverwrite_no_file:
  "WriteAtNoOverwrite wr it d p off = Some (res, it', d') \<Longrightarrow> itFile it = None \<Longrightarrow> it' = it \<and> d' = d"
  by (auto simp: WriteAtNoOverwrite_def Let_def split: option.splits)

lemma remote_writes_file_ok:
  assumes "remote_writes src n (it0, d0) (it, d)" "itFile it0 = Some f" "file_ok src n (itInfo it0) (dData d0 f)"
  shows "itFile it = None \<or> (itFile it = Some f \<and> file_ok src n (itInfo it) (dData d f))"
  using assms(1)
proof (induction "(it, d)" arbitrary: it d rule: remote_writes.induct)
  case none
  with assms(2,3) show ?case by simp
next
  case (one_more it d off p wr res it' d')
  show ?case
  proof (cases "itFile it")
    case None
    with WriteAtNoOverwrite_no_file[OF one_more(6)] show ?thesis by simp
  next
    case (Some g)
    with one_more(2) have f: "itFile it = Some f" and ok: "file_ok src n (itInfo it) (dData d f)" by auto
    from WriteAtNoOverwrite_keeps_file_ok[OF ok f one_more(3-6)] have
      "file_ok src n (itInfo it') (dData d' f)" by simp
    moreover from WriteAtNoOverwrite_any_info[OF ok f one_more(3-6)] f have "itFile it' = Some f" by metis
    ultimately show ?thesis by simp
  qed
qed simp

text \<open>C34. A read at an offset past the end of the file is \<open>EOF\<close>. A read inside the file that waits for its
  download returns exactly the bytes of the remote file from its offset, as many as the buffer holds or
  the file still has, when the download reports success and the item is still open, and no bytes and an
  error otherwise. While it waits, others write bytes of the remote file or close the item, and a
  download reports success only when its range is listed as present.\<close>

theorem ReadAtContext_exact:
  assumes "itFile it = Some f" "file_ok src n (itInfo it) (dData d f)" "0 \<le> off" "off + int len < 2 ^ 63"
    and waits: "\<And>r e it' d'. download r = (e, it', d') \<Longrightarrow>
      remote_writes src n (it, d) (it', d') \<and> (e = None \<longrightarrow> HasRange it' r)"
    and R: "ReadAtContext it d len off download = (bs, err, hit, it', d')"
  shows "if n \<le> off then bs = [] \<and> err = Some Read_EOF
    else case download \<lparr>rPos = off, rSize = min (int len) (n - off)\<rparr> of (e, it1, d1) \<Rightarrow>
      if itDownloaders it \<and> e = None \<and> itFile it1 \<noteq> None
      then err = None \<and> bs = map src [nat off..<nat (off + min (int len) (n - off))]
      else err \<noteq> None \<and> bs = []"
proof (cases "n \<le> off")
  case True
  then show ?thesis using R assms(2) by (simp add: ReadAtContext_def file_ok_def)
next
  case False
  let ?r = "\<lparr>rPos = off, rSize = min (int len) (n - off)\<rparr>"
  have r: "ReadAt_range it len off = ?r"
    using ReadAt_range_ok[OF assms(2,3) _ assms(4)] False by simp
  have size: "\<not> iSize (itInfo it) \<le> off" using False assms(2) by (simp add: file_ok_def)
  obtain e it1 d1 where D: "download ?r = (e, it1, d1)" by (cases "download ?r") auto
  show ?thesis
  proof (cases "itDownloaders it \<and> e = None \<and> itFile it1 \<noteq> None")
    case True
    then obtain g where g: "itFile it1 = Some g" and e: "e = None" and dls: "itDownloaders it" by auto
    have "remote_writes src n (it, d) (it1, d1)" and P: "HasRange it1 ?r" using waits[OF D] e by auto
    from remote_writes_file_ok[OF this(1) assms(1,2)] g
    have ok: "file_ok src n (itInfo it1) (dData d1 g)" by auto
    have fits: "off + min (int len) (n - off) < 2 ^ 63" using assms(4) by linarith
    have "{off..<off + min (int len) (n - off)} \<subseteq> covered (iRs (itInfo it1))"
      by (rule covered_range_Present[OF _ assms(3) fits]) (use ok P in \<open>simp_all add: file_ok_def HasRange_def\<close>)
    from read_present[OF ok assms(3) _ _ this] False
    have "os_ReadAt (dData d1 g) (nat (min (int len) (n - off))) (nat off) =
      (map src [nat off..<nat (off + min (int len) (n - off))], False)"
      by simp
    then show ?thesis
      using R size dls D e g False assms(3) by (auto simp: ReadAtContext_def r Let_def)
  next
    case other: False
    then have "err \<noteq> None \<and> bs = []"
      using R size D by (cases e; cases "itDownloaders it") (auto simp: ReadAtContext_def r Let_def)
    then show ?thesis using False unfolding D prod.case if_not_P[OF other] by simp
  qed
qed

text \<open>The bytes 0 and 1 are on disk; a read from 1 waits until another goroutine has written the rest.\<close>

theorem ReadAtContext_exact_witness:
  "\<exists>it' d'. WriteAtNoOverwrite (\<lambda>_. None) (demo_it [\<lparr>rPos = 0, rSize = 2\<rparr>]) (demo_disk [5, 6, 0, 0]) [7, 8] 2
      = Some ((2, 0, None), it', d')
    \<and> fst (ReadAtContext (demo_it [\<lparr>rPos = 0, rSize = 2\<rparr>]) (demo_disk [5, 6, 0, 0]) 8 1
        (\<lambda>r. (if HasRange it' r then (None :: unit option) else Some (), it', d'))) = [6, 7, 8]"
proof -
  let ?it = "demo_it [\<lparr>rPos = 0, rSize = 2\<rparr>]" and ?d = "demo_disk [5, 6, 0, 0]" and ?src = "\<lambda>i. of_nat (i + 5) :: byte"
  have ok: "file_ok ?src 4 (itInfo ?it) (dData ?d 0)"
    by (auto simp: file_ok_def demo_it_def demo_disk_def ranges_ok_def range_ok_def rend_def bytes_def
        less_Suc_eq nth_Cons')
  have facts: "itDownloaders ?it" "itFile ?it = Some 0" "dData ?d = (\<lambda>_. [5, 6, 0, 0])" "iSize (itInfo ?it) = 4"
    by (simp_all add: demo_it_def demo_disk_def)
  define W where "W = WriteAtNoOverwrite (\<lambda>_. None) ?it ?d [7, 8] 2"
  have v: "map_option fst W = Some (2, 0, None)"
    "map_option (\<lambda>(_, it', _). HasRange it' \<lparr>rPos = 1, rSize = 3\<rparr> \<and> itFile it' = Some 0) W = Some True"
    unfolding W_def by code_simp+
  then obtain it' d' where w: "W = Some ((2, 0, None), it', d')" by (cases W) auto
  with v have H: "HasRange it' \<lparr>rPos = 1, rSize = 3\<rparr>" and f': "itFile it' = Some 0" by auto
  let ?dl = "\<lambda>r. (if HasRange it' r then (None :: unit option) else Some (), it', d')"
  have "remote_writes ?src 4 (?it, ?d) (it', d')"
    by (rule one_more[OF none _ _ _ w[unfolded W_def]]) (auto simp: less_Suc_eq nth_Cons')
  then have dl: "\<And>r e jt e'. ?dl r = (e, jt, e') \<Longrightarrow>
      remote_writes ?src 4 (?it, ?d) (jt, e') \<and> (e = None \<longrightarrow> HasRange jt r)"
    by (auto split: if_splits)
  obtain bs err hit jt e' where R: "ReadAtContext ?it ?d 8 1 ?dl = (bs, err, hit, jt, e')"
    by (metis prod_cases5)
  from ReadAtContext_exact[OF facts(2) ok _ _ dl R] facts(1) f' H have "bs = map ?src [1..<4]"
    by simp
  also have "\<dots> = [6, 7, 8]" by (simp add: upt_rec)
  finally show ?thesis using R w by (intro exI[of _ it'] exI[of _ d']) (simp add: W_def)
qed

section \<open>Names and inodes\<close>

lemma node_at_link [lookup_simps]: "node_at (fs_link d p n) = (node_at d)(p \<mapsto> n)"
  by (auto simp: node_at_def fs_link_def dir_of_def update_conv' fun_eq_iff prod_eq_iff)

lemma node_at_unlink [lookup_simps]: "node_at (fs_unlink d p) = (node_at d)(p := None)"
  by (auto simp: node_at_def fs_unlink_def dir_of_def update_conv' delete_conv' fun_eq_iff prod_eq_iff)

lemma node_at_mkdir [lookup_simps]: "node_at (fs_MkdirAll d e) = node_at d"
  by (auto simp: node_at_def fs_MkdirAll_def dir_of_def map_add_def fun_eq_iff
      split: option.splits dest: map_of_SomeD)

lemma node_at_set_data [lookup_simps]: "node_at (fs_set_data d i bs) = node_at d"
  by (simp add: node_at_def fs_set_data_def dir_of_def fun_eq_iff)

lemma dData_simps [lookup_simps]:
  "dData (fs_link d p n) = dData d" "dData (fs_unlink d p) = dData d" "dData (fs_MkdirAll d e) = dData d"
  "dData (fs_set_data d i bs) = (dData d)(i := bs)" "dData (fs_rmdir d e) = dData d"
  "dNext (fs_link d p n) = dNext d" "dNext (fs_unlink d p) = dNext d" "dNext (fs_MkdirAll d e) = dNext d"
  "dNext (fs_set_data d i bs) = dNext d" "dNext (fs_rmdir d e) = dNext d"
  by (simp_all add: fs_link_def fs_unlink_def fs_MkdirAll_def fs_set_data_def fs_rmdir_def)

text \<open>No two names share an inode, and new inodes are fresh.\<close>

definition disk_ok :: "disk \<Rightarrow> bool" where
  "disk_ok d \<longleftrightarrow>
     (\<forall>p i. node_at d p = Some (FileN i) \<longrightarrow> i < dNext d)
     \<and> (\<forall>p q i. node_at d p = Some (FileN i) \<longrightarrow> node_at d q = Some (FileN i) \<longrightarrow> p = q)"

lemma disk_okD:
  "disk_ok d \<Longrightarrow> node_at d p = Some (FileN i) \<Longrightarrow> i < dNext d"
  "disk_ok d \<Longrightarrow> node_at d p = Some (FileN i) \<Longrightarrow> node_at d q = Some (FileN i) \<Longrightarrow> p = q"
  unfolding disk_ok_def by blast+


lemma disk_ok_nodes:
  assumes "disk_ok d" "dNext d \<le> dNext d'"
    and "\<And>p i. node_at d' p = Some (FileN i) \<Longrightarrow> node_at d p = Some (FileN i)"
  shows "disk_ok d'"
  using assms unfolding disk_ok_def by (meson order_less_le_trans)

lemma disk_ok_simps:
  assumes "disk_ok d"
  shows "disk_ok (fs_unlink d p)" "disk_ok (fs_MkdirAll d e)" "disk_ok (fs_set_data d i bs)"
  using assms by (auto intro!: disk_ok_nodes[OF assms] simp: lookup_simps split: if_splits)

text \<open>\<open>O_CREATE\<close>: an existing file is taken as it is, a new one is empty and has a fresh inode.\<close>

lemma fs_open_create_cases:
  assumes "disk_ok d" and "fs_open_create d p = Some (i, d')"
  obtains (old) "node_at d p = Some (FileN i)" "d' = d"
  | (new) "node_at d p = None" "i = dNext d" "node_at d' = (node_at d)(p \<mapsto> FileN i)"
      "dData d' = (dData d)(i := [])" "dNext d' = dNext d + 1"
proof (cases "node_at d p")
  case None
  then have i: "i = dNext d"
    and d': "d' = fs_link (d\<lparr>dData := (dData d)(dNext d := []), dNext := dNext d + 1\<rparr>) p (FileN (dNext d))"
    using assms(2) by (auto simp: fs_open_create_def)
  have same: "node_at (d\<lparr>dData := D, dNext := k\<rparr>) = node_at d" for D k
    by (simp add: node_at_def dir_of_def fun_eq_iff)
  show ?thesis
    by (rule new) (simp_all add: None i d' lookup_simps same)
next
  case (Some n)
  with assms(2) show ?thesis by (cases n) (auto simp: fs_open_create_def intro: old)
qed

lemma fs_open_create_ok:
  assumes "disk_ok d" "fs_open_create d p = Some (i, d')"
  shows "disk_ok d'" "node_at d' p = Some (FileN i)" "i < dNext d'" "dNext d \<le> dNext d'"
    "q \<noteq> p \<Longrightarrow> node_at d' q = node_at d q"
    "j < dNext d \<Longrightarrow> dData d' j = dData d j"
proof -
  have "disk_ok d' \<and> node_at d' p = Some (FileN i) \<and> i < dNext d' \<and> dNext d \<le> dNext d'
    \<and> (q \<noteq> p \<longrightarrow> node_at d' q = node_at d q) \<and> (j < dNext d \<longrightarrow> dData d' j = dData d j)"
    using assms
  proof (cases rule: fs_open_create_cases)
    case old
    with disk_okD(1)[OF assms(1) old(1)] assms(1) show ?thesis by simp
  next
    case new
    have "disk_ok d'"
      unfolding disk_ok_def new(3,5)
    proof (intro conjI allI impI)
      fix q j assume "((node_at d)(p \<mapsto> FileN i)) q = Some (FileN j)"
      then show "j < dNext d + 1"
        using disk_okD(1)[OF assms(1), of q j] new(2) by (auto split: if_splits)
    next
      fix q q' j
      assume "((node_at d)(p \<mapsto> FileN i)) q = Some (FileN j)" "((node_at d)(p \<mapsto> FileN i)) q' = Some (FileN j)"
      then show "q = q'"
        using disk_okD(1)[OF assms(1), of q j] disk_okD(1)[OF assms(1), of q' j]
          disk_okD(2)[OF assms(1), of q j q'] new(2) by (auto split: if_splits)
    qed
    with new show ?thesis by simp
  qed
  then show "disk_ok d'" "node_at d' p = Some (FileN i)" "i < dNext d'" "dNext d \<le> dNext d'"
    "q \<noteq> p \<Longrightarrow> node_at d' q = node_at d q"
    "j < dNext d \<Longrightarrow> dData d' j = dData d j" by blast+
qed

text \<open>
  What an operation on the disk leaves alone: the names outside \<open>N\<close>, and the bytes of every inode that
  is not reached by a name in \<open>N\<close>.
\<close>

definition only_names :: "fpath set \<Rightarrow> disk \<Rightarrow> disk \<Rightarrow> bool" where
  "only_names N d d' \<longleftrightarrow>
     disk_ok d' \<and> dNext d \<le> dNext d' \<and> (\<forall>q. q \<notin> N \<longrightarrow> node_at d' q = node_at d q)
     \<and> (\<forall>j < dNext d. (\<forall>q \<in> N. node_at d q \<noteq> Some (FileN j)) \<longrightarrow>
          dData d' j = dData d j \<and> (\<forall>q \<in> N. node_at d' q \<noteq> Some (FileN j)))"

lemma only_names_refl: "disk_ok d \<Longrightarrow> only_names N d d"
  by (simp add: only_names_def)

lemma only_names_trans:
  assumes "only_names N d d1" "only_names N d1 d2"
  shows "only_names N d d2"
  using assms unfolding only_names_def by (auto dest: less_le_trans)

lemma only_names_unlink: "disk_ok d \<Longrightarrow> p \<in> N \<Longrightarrow> only_names N d (fs_unlink d p)"
  by (auto simp: only_names_def disk_ok_simps lookup_simps)

lemma only_names_mkdir: "disk_ok d \<Longrightarrow> only_names N d (fs_MkdirAll d e)"
  by (auto simp: only_names_def disk_ok_simps lookup_simps)

lemma only_names_create:
  assumes "disk_ok d" "fs_open_create d p = Some (i, d')" "p \<in> N"
  shows "only_names N d (fs_set_data d' i bs)"
  using assms(1,2)
proof (cases rule: fs_open_create_cases)
  case old
  with assms(1,3) show ?thesis by (auto simp: only_names_def disk_ok_simps lookup_simps)
next
  case new
  note ok = fs_open_create_ok[OF assms(1,2)]
  show ?thesis
    using assms(3) new ok(1,4)
    by (auto simp: only_names_def disk_ok_simps lookup_simps)
qed

lemma only_names_rename:
  assumes "disk_ok d" "fs_Rename d p q fails = (ok, d')" "p \<in> N" "q \<in> N" "p \<noteq> q"
  shows "only_names N d d'"
proof (cases "ok")
  case True
  then obtain n where n: "node_at d p = Some n" and d': "d' = fs_link (fs_unlink d p) q n"
    using assms(2) by (auto simp: fs_Rename_def split: option.splits if_splits)
  have "disk_ok d'"
    unfolding disk_ok_def d' lookup_simps using disk_okD[OF assms(1)] n
    by (auto split: if_splits) (metis prod.collapse fst_conv snd_conv)+
  then show ?thesis
    using assms(3,4) n by (auto simp: only_names_def d' lookup_simps)
next
  case False
  then have "d' = d" using assms(2) by (auto simp: fs_Rename_def split: option.splits if_splits)
  with only_names_refl[OF assms(1)] show ?thesis by simp
qed

text \<open>Two names of an item and its metadata are never the same.\<close>

lemma item_paths [simp]:
  "meta_path it \<noteq> tmp_path it" "tmp_path it \<noteq> meta_path it" "data_path it \<noteq> meta_path it" "data_path it \<noteq> tmp_path it"
  "meta_path it \<noteq> data_path it" "tmp_path it \<noteq> data_path it"
  by (simp_all add: meta_path_def tmp_path_def data_path_def dot_json_def dot_tmp_def gs_def)

lemma only_names_content:
  assumes "disk_ok d" "only_names N d d'" "q \<notin> N"
  shows "fs_content d' q = fs_content d q"
proof -
  have same: "node_at d' q = node_at d q" using assms unfolding only_names_def by blast
  have "dData d' i = dData d i" if "node_at d q = Some (FileN i)" for i
    using assms disk_okD[OF assms(1) that] unfolding only_names_def by metis
  then show ?thesis by (auto simp: fs_content_def same split: option.split node.split)
qed

lemma only_names_node: "only_names N d d' \<Longrightarrow> q \<notin> N \<Longrightarrow> node_at d' q = node_at d q"
  unfolding only_names_def by blast

lemma only_names_ok: "only_names N d d' \<Longrightarrow> disk_ok d'"
  by (simp add: only_names_def)

lemma only_names_mono:
  assumes "disk_ok d" "only_names N d d'" "N \<subseteq> M"
  shows "only_names M d d'"
proof -
  have "node_at d' q \<noteq> Some (FileN j)"
    if "j < dNext d" "\<forall>q \<in> M. node_at d q \<noteq> Some (FileN j)" "q \<in> M" for q j
    using that assms(2,3) unfolding only_names_def by (metis subset_iff)
  then show ?thesis using assms(2,3) unfolding only_names_def by blast
qed

lemma fs_WriteFile_frame:
  assumes "disk_ok d" "fs_WriteFile d p bs failure = (ok, d')"
  shows "only_names {p} d d'" and "ok \<Longrightarrow> fs_content d' p = Some bs"
proof -
  have "only_names {p} d d' \<and> (ok \<longrightarrow> fs_content d' p = Some bs)"
  proof (cases "fs_open_create d p")
    case None
    with assms only_names_refl[OF assms(1)] show ?thesis by (simp add: fs_WriteFile_def)
  next
    case (Some r)
    then obtain i d1 where C: "fs_open_create d p = Some (i, d1)" by (cases r) auto
    with assms(2) have d': "d' = fs_set_data d1 i (case failure of None \<Rightarrow> bs | Some junk \<Rightarrow> junk)"
      and fail: "ok \<Longrightarrow> failure = None"
      by (auto simp: fs_WriteFile_def split: option.splits)
    have "only_names {p} d d'" unfolding d' by (rule only_names_create[OF assms(1) C]) simp
    moreover have "fs_content d' p = Some bs" if ok
      using fs_open_create_ok(2)[OF assms(1) C] fail[OF that] by (simp add: d' fs_content_def lookup_simps)
    ultimately show ?thesis by blast
  qed
  then show "only_names {p} d d'" "ok \<Longrightarrow> fs_content d' p = Some bs" by auto
qed

lemma fs_Rename_content:
  "fs_Rename d p q fails = (True, d') \<Longrightarrow> p \<noteq> q \<Longrightarrow> fs_content d' q = fs_content d p"
  by (auto simp: fs_Rename_def fs_content_def lookup_simps split: option.splits if_splits node.split)

text \<open>
  What a flush does: it touches only the two metadata names, and the metadata file is either the old one
  or the complete new one. It is the new one when the dirty flag is down or every call succeeded.
\<close>

lemma flushMetadata_spec:
  assumes ok: "disk_ok d" and F: "flushMetadata cd o' force it d = (it', d')"
  shows "only_names {meta_path it, tmp_path it} d d' \<and> (it' = it \<or> it' = it\<lparr>itDirty := False\<rparr>)
    \<and> (fs_content d' (meta_path it) = fs_content d (meta_path it) \<and> it' = it
       \<or> fs_content d' (meta_path it) = Some (marshal cd (itInfo it)))"
proof (cases "\<not> force \<and> \<not> itDirty it \<or> ioMarshal o' \<or> ioMkdir o'")
  case True
  then have "(it', d') = (it, d)" using F unfolding flushMetadata_def by (metis (lifting))
  then have "it' = it" "d' = d" by simp_all
  with only_names_refl[OF ok] show ?thesis by simp
next
  case False
  then have c: "\<not> (\<not> force \<and> \<not> itDirty it)" "\<not> ioMarshal o'" "\<not> ioMkdir o'" by simp_all
  let ?N = "{meta_path it, tmp_path it}"
  define d1 where "d1 = fs_MkdirAll d (itEntry it)"
  obtain ok2 d2 where W: "fs_WriteFile d1 (tmp_path it) (marshal cd (itInfo it)) (ioWriteTmp o') = (ok2, d2)"
    by (cases "fs_WriteFile d1 (tmp_path it) (marshal cd (itInfo it)) (ioWriteTmp o')") auto
  obtain ok3 d3 where R: "fs_Rename d2 (tmp_path it) (meta_path it) (ioRename o') = (ok3, d3)"
    by (cases "fs_Rename d2 (tmp_path it) (meta_path it) (ioRename o')") auto
  have res: "(it', d') = (if \<not> ok2 then (it, d2)
      else if \<not> ok3 then (it, if ioRemoveTmp o' then d3 else fs_unlink d3 (tmp_path it))
      else (it\<lparr>itDirty := False\<rparr>, d3))"
    using F[symmetric] unfolding flushMetadata_def if_not_P[OF c(1)] if_not_P[OF c(2)] if_not_P[OF c(3)]
      d1_def[symmetric] Let_def W R prod.case by simp
  note ok1 = only_names_mkdir[OF ok, of _ "itEntry it", folded d1_def]
  note w = fs_WriteFile_frame[OF only_names_ok[OF ok1] W]
  have f2: "only_names {tmp_path it} d d2"
    by (rule only_names_trans[OF ok1 w(1)])
  note f2' = only_names_mono[OF ok f2, of ?N]
  have meta2: "fs_content d2 (meta_path it) = fs_content d (meta_path it)"
    by (rule only_names_content[OF ok f2]) simp
  note ok2' = only_names_ok[OF f2]
  have f3: "only_names ?N d d3"
    by (rule only_names_trans[OF f2' only_names_rename[OF ok2' R]]) simp_all
  have d3: "\<not> ok3 \<Longrightarrow> d3 = d2" using R by (auto simp: fs_Rename_def split: option.splits if_splits)
  have f4: "only_names ?N d (fs_unlink d3 (tmp_path it))"
    by (rule only_names_trans[OF f3 only_names_unlink[OF only_names_ok[OF f3]]]) simp
  have unl: "fs_content (fs_unlink d3 (tmp_path it)) (meta_path it) = fs_content d3 (meta_path it)"
    by (simp add: fs_content_def lookup_simps split: option.split node.split)
  show ?thesis
  proof (cases "ok2 \<and> ok3")
    case True
    then have "it' = it\<lparr>itDirty := False\<rparr>" "d' = d3" using res by auto
    moreover have "fs_content d3 (meta_path it) = Some (marshal cd (itInfo it))"
      using fs_Rename_content[OF R[unfolded conjunct2[OF True, THEN eqTrueI]]] w(2) True by simp
    ultimately show ?thesis using f3 by simp
  next
    case False
    then have "it' = it" and "d' = d2 \<or> d' = d3 \<or> d' = fs_unlink d3 (tmp_path it)"
      and "d' = d2 \<or> d3 = d2" using res d3 by (auto split: if_splits)
    then show ?thesis using f2' f3 f4 meta2 unl by auto
  qed
qed


lemma flushMetadata_complete:
  assumes ok: "disk_ok d" and F: "flushMetadata cd io_ok True it d = (it', d')"
    and "node_at d (meta_path it) \<noteq> Some DirN" "node_at d (tmp_path it) \<noteq> Some DirN"
  shows "fs_content d' (meta_path it) = Some (marshal cd (itInfo it))"
proof -
  define d1 where "d1 = fs_MkdirAll d (itEntry it)"
  have ok1: "disk_ok d1" using ok by (simp add: d1_def disk_ok_simps)
  have "fs_open_create d1 (tmp_path it) \<noteq> None"
    using assms(4) by (auto simp: fs_open_create_def d1_def lookup_simps split: option.splits node.splits)
  then obtain d2 where W: "fs_WriteFile d1 (tmp_path it) (marshal cd (itInfo it)) None = (True, d2)"
    by (auto simp: fs_WriteFile_def)
  note w = fs_WriteFile_frame[OF ok1 W]
  have "node_at d2 (meta_path it) = node_at d1 (meta_path it)"
    by (rule only_names_node[OF w(1)]) simp
  then have "node_at d2 (meta_path it) \<noteq> Some DirN" using assms(3) by (simp add: d1_def lookup_simps)
  moreover obtain n where "node_at d2 (tmp_path it) = Some n"
    using w(2) by (auto simp: fs_content_def split: option.splits)
  ultimately have R: "fs_Rename d2 (tmp_path it) (meta_path it) False
      = (True, fs_link (fs_unlink d2 (tmp_path it)) (meta_path it) n)"
    by (simp add: fs_Rename_def)
  have "d' = fs_link (fs_unlink d2 (tmp_path it)) (meta_path it) n"
    using F W R by (simp add: flushMetadata_def io_ok_def d1_def)
  with fs_Rename_content[OF R] w(2) show ?thesis by simp
qed

text \<open>C35. Writing the metadata is atomic: whichever calls fail, the metadata file is afterwards the old one
  or the complete new one, and no other file of the cache changes, apart from the temporary one.\<close>

theorem metadata_write_is_atomic:
  assumes "disk_ok d" and "flushMetadata cd o' force it d = (it', d')"
  shows "fs_content d' (meta_path it) \<in> {fs_content d (meta_path it), Some (marshal cd (itInfo it))}
    \<and> (\<forall>q \<in> - {meta_path it, tmp_path it}. fs_content d' q = fs_content d q)"
  using flushMetadata_spec[OF assms] only_names_content[OF assms(1)] by blast

theorem metadata_write_is_atomic_witness:
  "let cd = \<lparr>marshal = (\<lambda>_. [1]), unmarshal = (\<lambda>_. None)\<rparr>;
       d' = snd (flushMetadata cd (io_ok\<lparr>ioWriteTmp := Some [9]\<rparr>) True (demo_it []) (demo_disk [5, 6, 7, 8]))
   in fs_content d' ([65], [66]) = Some [5, 6, 7, 8]"
proof -
  let ?d = "demo_disk [5, 6, 7, 8]" and ?cd = "\<lparr>marshal = (\<lambda>_. [1]), unmarshal = (\<lambda>_. None)\<rparr>"
  have "disk_ok ?d"
    by (auto simp: disk_ok_def node_at_def dir_of_def demo_disk_def split: if_splits)
  from metadata_write_is_atomic[OF this, of ?cd "io_ok\<lparr>ioWriteTmp := Some [9]\<rparr>" True "demo_it []"]
  have "fs_content (snd (flushMetadata ?cd (io_ok\<lparr>ioWriteTmp := Some [9]\<rparr>) True (demo_it []) ?d)) (data_path (demo_it []))
      = fs_content ?d (data_path (demo_it []))"
    by (metis ComplI empty_iff insert_iff item_paths(3,4) prod.collapse)
  then show ?thesis
    by (simp add: data_path_def demo_it_def fs_content_def node_at_def dir_of_def demo_disk_def)
qed

lemma Close_item_frame:
  assumes "disk_ok d"
  shows "only_names {meta_path it, tmp_path it} d (snd (Close_item cd o1 o2 it d))"
    and "\<not> itClosed it \<Longrightarrow> fs_content (snd (Close_item cd o1 o2 it d)) (meta_path it) =
        fs_content d (meta_path it)
      \<or> fs_content (snd (Close_item cd o1 o2 it d)) (meta_path it) = Some (marshal cd (itInfo it))"
proof -
  let ?it = "it\<lparr>itClosed := True, itDownloaders := False\<rparr>"
  obtain it1 d1 where F1: "flushMetadata cd o1 True ?it d = (it1, d1)"
    by (cases "flushMetadata cd o1 True ?it d") auto
  obtain it2 d2 where F2: "flushMetadata cd o2 True it1 d1 = (it2, d2)"
    by (cases "flushMetadata cd o2 True it1 d1") auto
  note s1 = flushMetadata_spec[OF assms F1]
  have same: "meta_path it1 = meta_path it" "tmp_path it1 = tmp_path it" "itInfo it1 = itInfo it"
    "meta_path ?it = meta_path it" "tmp_path ?it = tmp_path it"
    using s1 by (auto simp: meta_path_def tmp_path_def)
  have o1: "only_names {meta_path it, tmp_path it} d d1" using s1 same by simp
  note s2 = flushMetadata_spec[OF only_names_ok[OF o1] F2]
  have res: "snd (Close_item cd o1 o2 it d) = (if itClosed it then d else d2)"
    by (simp add: Close_item_def F1 F2 Let_def)
  have "only_names {meta_path it, tmp_path it} d1 d2" using s2 unfolding same(1,2) by blast
  from only_names_trans[OF o1 this] only_names_refl[OF assms]
  show "only_names {meta_path it, tmp_path it} d (snd (Close_item cd o1 o2 it d))"
    by (simp add: res)
  show "fs_content (snd (Close_item cd o1 o2 it d)) (meta_path it) = fs_content d (meta_path it)
      \<or> fs_content (snd (Close_item cd o1 o2 it d)) (meta_path it) = Some (marshal cd (itInfo it))"
    if "\<not> itClosed it"
  proof -
    have "fs_content d1 (meta_path it) = fs_content d (meta_path it)
        \<or> fs_content d1 (meta_path it) = Some (marshal cd (itInfo it))"
      using s1 unfolding same(4,5) by auto
    moreover have "fs_content d2 (meta_path it) = fs_content d1 (meta_path it)
        \<or> fs_content d2 (meta_path it) = Some (marshal cd (itInfo it))"
      using s2 unfolding same(1-3) by blast
    ultimately show ?thesis unfolding res if_not_P[OF that] by auto
  qed
qed

section \<open>Opening and reopening\<close>

definition meta_of :: "fpath \<Rightarrow> fpath" where
  "meta_of p = (fst p, snd p @ dot_json)"

text \<open>What the metadata on disk says of a file is true of the file on disk.\<close>

definition stored_ok :: "codec \<Rightarrow> (nat \<Rightarrow> byte) \<Rightarrow> int \<Rightarrow> disk \<Rightarrow> fpath \<Rightarrow> bool" where
  "stored_ok cd src n d p \<longleftrightarrow>
     (\<forall>text info. fs_content d (meta_of p) = Some text \<longrightarrow> unmarshal cd text = Some info \<longrightarrow> iRs info = []
        \<or> (\<exists>i. node_at d p = Some (FileN i) \<and> file_ok src n (info\<lparr>iSize := n\<rparr>) (dData d i)))"

lemma file_ok_fields:
  "file_ok src n (info\<lparr>iModTime := t\<rparr>) bs = file_ok src n info bs"
  "file_ok src n (info\<lparr>iATime := u\<rparr>) bs = file_ok src n info bs"
  "file_ok src n (info\<lparr>iSize := n, iModTime := t, iATime := u\<rparr>) bs = file_ok src n (info\<lparr>iSize := n\<rparr>) bs"
  by (simp_all add: file_ok_def)

lemma file_ok_empty:
  "0 \<le> n \<Longrightarrow> n < 2 ^ 63 \<Longrightarrow> iRs info = [] \<Longrightarrow> file_ok src n (info\<lparr>iSize := n\<rparr>) (truncate_bytes bs (nat n))"
  by (simp add: file_ok_def)

lemma meta_of_neq [simp]: "meta_of p \<noteq> p" "p \<noteq> meta_of p"
  by (auto simp: meta_of_def dot_json_def gs_def prod_eq_iff)

lemma newItem_spec:
  assumes ok: "disk_ok d" and n: "0 \<le> n" "n < 2 ^ 63" and st: "stored_ok cd src n d (entryName, filename)"
    and N: "newItem cd o' now1 now2 d key entryName filename n = (res, d')"
  shows "only_names {(entryName, filename)} d d' \<and> stored_ok cd src n d' (entryName, filename)
    \<and> (\<forall>it. res = Inr it \<longrightarrow>
        (\<exists>fd info. it = \<lparr>itKey = key, itEntry = entryName, itName = filename, itFile = Some fd,
           itInfo = info, itOpens = 0, itDownloaders = True, itDirty = True, itClosed = False\<rparr>
         \<and> node_at d' (entryName, filename) = Some (FileN fd) \<and> file_ok src n info (dData d' fd)))"
proof -
  let ?p = "(entryName, filename)" and ?m = "(entryName, filename @ dot_json)"
  define d1 where "d1 = fs_MkdirAll d entryName"
  define info0 where "info0 = (case fs_content d1 ?m of
                      None \<Rightarrow> empty_info
                    | Some text \<Rightarrow> if ioReadMeta o' then empty_info
                        else (case unmarshal cd text of None \<Rightarrow> empty_info | Some info \<Rightarrow> info))"
  define d2 where "d2 = (if node_at d1 ?p = Some DirN then fs_unlink d1 ?p else d1)"
  define it where "it fd = \<lparr>itKey = key, itEntry = entryName, itName = filename, itFile = Some fd,
     itInfo = info0\<lparr>iSize := n, iModTime := now1, iATime := now2\<rparr>, itOpens = 0, itDownloaders = True,
     itDirty = True, itClosed = False\<rparr>" for fd :: nat
  have neg: "(n < 0 \<or> ioTruncate o') = ioTruncate o'" using n by simp
  have N': "(res, d') = (if ioMkdir o' then (Inl Mkdir_failed, d)
      else if node_at d1 ?p = Some DirN \<and> ioRemoveAll o' then (Inl RemoveAll_failed, d1)
      else if ioOpen o' then (Inl Open_failed, d2)
      else case fs_open_create d2 ?p of
        None \<Rightarrow> (Inl Open_failed, d2)
      | Some (fd, d3) \<Rightarrow>
          if ioTruncate o' then (Inl Truncate_failed, d3)
          else if ioEntry o' then (Inl No_entry, fs_set_data d3 fd (truncate_bytes (dData d3 fd) (nat n)))
          else (Inr (it fd), fs_set_data d3 fd (truncate_bytes (dData d3 fd) (nat n))))"
    using N[symmetric] unfolding newItem_def Let_def d1_def[symmetric] info0_def[symmetric]
      d2_def[symmetric] neg it_def .
  have f1: "only_names {?p} d d1" unfolding d1_def by (rule only_names_mkdir[OF ok])
  have f2: "only_names {?p} d d2"
    using only_names_trans[OF f1 only_names_unlink[OF only_names_ok[OF f1]]] f1 by (simp add: d2_def)
  have m1: "fs_content d1 ?m = fs_content d ?m"
    using only_names_content[OF ok f1, of ?m] by (simp add: dot_json_def gs_def)
  have frame: "only_names {?p} d d'"
  proof (cases "fs_open_create d2 ?p")
    case None
    then show ?thesis using N' f1 f2 only_names_refl[OF ok] by (auto split: if_splits)
  next
    case (Some r)
    then obtain fd d3 where C: "fs_open_create d2 ?p = Some (fd, d3)" by (cases r) auto
    have f3: "only_names {?p} d (fs_set_data d3 fd bs)" for bs
      by (rule only_names_trans[OF f2 only_names_create[OF only_names_ok[OF f2] C]]) simp
    have "fs_set_data d3 fd (dData d3 fd) = d3" by (simp add: fs_set_data_def)
    with f3 have f3': "only_names {?p} d d3" by metis
    show ?thesis using N' C f1 f2 f3 f3' only_names_refl[OF ok] by (auto split: if_splits)
  qed
  have meta: "fs_content d' ?m = fs_content d ?m"
    using only_names_content[OF ok frame, of ?m] by (simp add: dot_json_def gs_def)
  have opened: "fs_open_create d2 ?p = Some (fd, d3) \<Longrightarrow> node_at d3 ?p = Some (FileN fd)" for fd d3
    by (rule fs_open_create_ok(2)[OF only_names_ok[OF f2]])
  show ?thesis
  proof (cases "\<exists>tx info. fs_content d ?m = Some tx \<and> unmarshal cd tx = Some info \<and> iRs info \<noteq> []")
    case False
    then have "stored_ok cd src n d' ?p" by (auto simp: stored_ok_def meta_of_def meta)
    moreover have "iRs info0 = []"
      using False by (auto simp: info0_def m1 empty_info_def split: option.split)
    then have "file_ok src n (info0\<lparr>iSize := n, iModTime := now1, iATime := now2\<rparr>) (truncate_bytes bs (nat n))" for bs
      unfolding file_ok_fields by (rule file_ok_empty[OF n])
    ultimately show ?thesis
      using N' frame opened by (auto simp: it_def lookup_simps split: if_splits option.splits)
  next
    case True
    then obtain tx info where T: "fs_content d ?m = Some tx" "unmarshal cd tx = Some info" "iRs info \<noteq> []"
      by blast
    with st obtain i where i: "node_at d ?p = Some (FileN i)" "file_ok src n (info\<lparr>iSize := n\<rparr>) (dData d i)"
      by (auto simp: stored_ok_def meta_of_def)
    have d12: "d2 = d1" "node_at d1 ?p = Some (FileN i)" "dData d1 = dData d"
      using i(1) by (simp_all add: d2_def d1_def lookup_simps)
    have C: "fs_open_create d2 ?p = Some (i, d1)" using d12 by (simp add: fs_open_create_def)
    have same: "truncate_bytes (dData d i) (nat n) = dData d i"
      using i(2) truncate_bytes_same[of "dData d i"] by (auto simp: file_ok_def)
    have d': "d' \<in> {d, d1, fs_set_data d1 i (dData d i)}"
      using N' C same d12 by (auto split: if_splits)
    then have "node_at d' ?p = Some (FileN i)" "dData d' i = dData d i"
      using i(1) d12 by (auto simp: lookup_simps)
    with i(2) T have "stored_ok cd src n d' ?p"
      by (auto simp: stored_ok_def meta_of_def meta)
    moreover have "file_ok src n (info0\<lparr>iSize := n, iModTime := now1, iATime := now2\<rparr>) (dData d i)"
    proof (cases "ioReadMeta o'")
      case False
      then have "info0 = info" using T by (simp add: info0_def m1)
      then show ?thesis using i(2) by (simp only: file_ok_fields)
    next
      case True
      then have "iRs info0 = []" by (simp add: info0_def empty_info_def split: option.split)
      from file_ok_empty[OF n this, of src "dData d i"] show ?thesis
        by (simp only: file_ok_fields same)
    qed
    ultimately show ?thesis
      using N' frame C d12 same by (auto simp: it_def lookup_simps split: if_splits)
  qed
qed

end
