(* ===== verification/Vfs_Evict.thy ===== *)
theory Vfs_Evict
  imports Vfs_Cache
begin

text \<open>
  Eviction from the disk cache (\<open>evictCandidates\<close>, \<open>evict\<close> in \<open>pkg/mount/dfs/vfs/cache.go\<close>), the
  invariant that every operation of the cache keeps, and what breaks it.
\<close>

section \<open>Which candidates go\<close>

definition removable :: "cand \<Rightarrow> bool" where
  "removable x \<longleftrightarrow> \<not> cdInMap x \<and> \<not> cdOpens x > 0"

definition expired :: "vcache \<Rightarrow> gotime \<Rightarrow> cand \<Rightarrow> bool" where
  "expired c now x \<longleftrightarrow>
     cExpiry c > 0 \<and> \<not> cdInMap x \<and> cdOpens x = 0 \<and> time_Sub now (cdATime x) > cExpiry c"

definition sizes :: "cand list \<Rightarrow> int" where
  "sizes xs = sum_list (map cdSize xs)"

lemma sizes_simps [simp]:
  "sizes [] = 0" "sizes (x # xs) = cdSize x + sizes xs" "sizes (xs @ ys) = sizes xs + sizes ys"
  by (simp_all add: sizes_def)

lemma sizes_nonneg: "\<forall>x \<in> set xs. 0 \<le> cdSize x \<Longrightarrow> 0 \<le> sizes xs"
  by (induction xs) auto

lemma sizes_filter: "\<forall>x \<in> set xs. 0 \<le> cdSize x \<Longrightarrow> sizes (filter P xs) \<le> sizes xs"
  by (induction xs) auto

lemma sizes_mset: "mset xs = mset ys \<Longrightarrow> sizes xs = sizes ys"
  unfolding sizes_def by (metis mset_map sum_mset_sum_list)

lemma sizes_partition: "sizes (filter P xs) + sizes (filter (\<lambda>x. \<not> P x) xs) = sizes xs"
  by (induction xs) auto

text \<open>The two files of a candidate are removed, as far as \<open>os.Remove\<close> succeeds.\<close>

definition rm_pair :: "(fpath \<Rightarrow> bool) \<Rightarrow> cand \<Rightarrow> disk \<Rightarrow> disk" where
  "rm_pair fails x d =
     (let d = (if fails (cdData x) then d else fs_unlink d (cdData x))
      in if fails (cdMeta x) then d else fs_unlink d (cdMeta x))"

lemma removeCandidate_removable:
  "cdKey x \<notin> removed \<Longrightarrow> removable x \<Longrightarrow>
   removeCandidate fails x (removed, d) = (insert (cdKey x) removed, rm_pair fails x d)"
  by (simp add: removeCandidate_def rm_pair_def removable_def Let_def)

lemma evict_expired_spec:
  assumes "distinct (map cdKey xs)" "cdKey ` set xs \<inter> removed = {}" "\<forall>x \<in> set xs. 0 \<le> cdSize x"
    and "sizes xs \<le> tot" "tot < 2 ^ 63" "0 < cExpiry c"
  shows "evict_expired fails now (cExpiry c) xs tot (removed, d) =
    (tot - sizes (filter (expired c now) xs),
     removed \<union> cdKey ` set (filter (expired c now) xs),
     fold (rm_pair fails) (filter (expired c now) xs) d)"
  using assms
proof (induction xs arbitrary: tot removed d)
  case (Cons x xs)
  have cond: "(\<not> cdInMap x \<and> cdOpens x = 0 \<and> time_Sub now (cdATime x) > cExpiry c) = expired c now x"
    using Cons.prems by (simp add: expired_def)
  show ?case
  proof (cases "expired c now x")
    case True
    then have r: "removeCandidate fails x (removed, d) = (insert (cdKey x) removed, rm_pair fails x d)"
      using Cons.prems by (intro removeCandidate_removable) (auto simp: expired_def removable_def)
    have t: "i64 (tot - cdSize x) = tot - cdSize x"
      using Cons.prems sizes_nonneg[of xs] by (simp add: i64_fits)
    have "evict_expired fails now (cExpiry c) xs (tot - cdSize x) (insert (cdKey x) removed, rm_pair fails x d) =
      (tot - cdSize x - sizes (filter (expired c now) xs),
       insert (cdKey x) removed \<union> cdKey ` set (filter (expired c now) xs),
       fold (rm_pair fails) (filter (expired c now) xs) (rm_pair fails x d))"
      by (rule Cons.IH) (use Cons.prems in \<open>auto simp: image_iff\<close>)
    then show ?thesis unfolding evict_expired.simps cond r t using True by simp
  next
    case False
    have "evict_expired fails now (cExpiry c) xs tot (removed, d) =
      (tot - sizes (filter (expired c now) xs),
       removed \<union> cdKey ` set (filter (expired c now) xs),
       fold (rm_pair fails) (filter (expired c now) xs) d)"
      by (rule Cons.IH) (use Cons.prems in auto)
    then show ?thesis unfolding evict_expired.simps cond using False by simp
  qed
qed simp

text \<open>The second loop removes the shortest prefix of the removable candidates that brings the total down
  to the threshold, or all of them.\<close>

definition shortest :: "int \<Rightarrow> int \<Rightarrow> cand list \<Rightarrow> nat \<Rightarrow> bool" where
  "shortest threshold tot L k \<longleftrightarrow>
     k \<le> length L \<and> (\<forall>j < k. threshold < tot - sizes (take j L))
     \<and> (k = length L \<or> tot - sizes (take k L) \<le> threshold)"

lemma evict_oldest_spec:
  assumes "distinct (map cdKey xs)" "\<forall>x \<in> set xs. 0 \<le> cdSize x"
    and "sizes (filter (\<lambda>x. removable x \<and> cdKey x \<notin> removed) xs) \<le> tot" "tot < 2 ^ 63"
  shows "\<exists>k. shortest threshold tot (filter (\<lambda>x. removable x \<and> cdKey x \<notin> removed) xs) k
    \<and> evict_oldest fails threshold xs tot (removed, d) =
      (let gone = take k (filter (\<lambda>x. removable x \<and> cdKey x \<notin> removed) xs)
       in (tot - sizes gone, removed \<union> cdKey ` set gone, fold (rm_pair fails) gone d))"
  using assms
proof (induction xs arbitrary: tot removed d)
  case Nil
  show ?case by (intro exI[of _ 0]) (simp add: shortest_def)
next
  case (Cons x xs)
  show ?case
  proof (cases "tot \<le> threshold")
    case True
    then show ?thesis by (intro exI[of _ 0]) (simp add: shortest_def)
  next
    case over: False
    show ?thesis
    proof (cases "removable x \<and> cdKey x \<notin> removed")
      case False
      have "evict_oldest fails threshold (x # xs) tot (removed, d) =
        evict_oldest fails threshold xs tot (removed, d)"
        using over False by (auto simp: removable_def)
      moreover have "filter (\<lambda>x. removable x \<and> cdKey x \<notin> removed) (x # xs) =
        filter (\<lambda>x. removable x \<and> cdKey x \<notin> removed) xs"
        using False by simp
      moreover note Cons.IH[of removed tot d]
      ultimately show ?thesis using Cons.prems by simp
    next
      case True
      let ?L = "filter (\<lambda>y. removable y \<and> cdKey y \<notin> removed) xs"
      have L: "filter (\<lambda>y. removable y \<and> cdKey y \<notin> removed) (x # xs) = x # ?L"
        using True by simp
      have L': "filter (\<lambda>y. removable y \<and> cdKey y \<notin> insert (cdKey x) removed) xs = ?L"
        using Cons.prems(1) by (intro filter_cong) (auto simp: image_iff)
      have t: "i64 (tot - cdSize x) = tot - cdSize x"
        using Cons.prems True sizes_nonneg[of ?L] by (simp add: i64_fits)
      have eq: "evict_oldest fails threshold (x # xs) tot (removed, d) =
        evict_oldest fails threshold xs (tot - cdSize x) (insert (cdKey x) removed, rm_pair fails x d)"
        using over True t by (simp add: removeCandidate_removable) (simp add: removable_def)
      have "\<exists>k. shortest threshold (tot - cdSize x) ?L k
        \<and> evict_oldest fails threshold xs (tot - cdSize x) (insert (cdKey x) removed, rm_pair fails x d) =
          (let gone = take k ?L
           in (tot - cdSize x - sizes gone, insert (cdKey x) removed \<union> cdKey ` set gone,
               fold (rm_pair fails) gone (rm_pair fails x d)))"
        using Cons.IH[of "insert (cdKey x) removed" "tot - cdSize x" "rm_pair fails x d"] Cons.prems True
        unfolding L' by simp
      then obtain k where k: "shortest threshold (tot - cdSize x) ?L k"
        "evict_oldest fails threshold xs (tot - cdSize x) (insert (cdKey x) removed, rm_pair fails x d) =
          (let gone = take k ?L
           in (tot - cdSize x - sizes gone, insert (cdKey x) removed \<union> cdKey ` set gone,
               fold (rm_pair fails) gone (rm_pair fails x d)))"
        by blast
      have "shortest threshold tot (x # ?L) (Suc k)"
        using k(1) over by (auto simp: shortest_def less_Suc_eq_0_disj algebra_simps)
      with k(2) show ?thesis unfolding eq L
        by (intro exI[of _ "Suc k"]) (simp add: Let_def algebra_simps)
    qed
  qed
qed

text \<open>What \<open>sort.Slice\<close> promises: for a comparison that is a strict weak order, an arrangement of the
  slice in which no element is less than one before it.\<close>

definition strict_weak :: "('a \<Rightarrow> 'a \<Rightarrow> bool) \<Rightarrow> bool" where
  "strict_weak lt \<longleftrightarrow>
     (\<forall>x y. lt x y \<longrightarrow> \<not> lt y x) \<and> (\<forall>x y z. \<not> lt x y \<longrightarrow> \<not> lt y z \<longrightarrow> \<not> lt x z)"

definition sort_Slice_ok :: "(('a \<Rightarrow> 'a \<Rightarrow> bool) \<Rightarrow> 'a list \<Rightarrow> 'a list) \<Rightarrow> bool" where
  "sort_Slice_ok srt \<longleftrightarrow>
     (\<forall>lt xs. strict_weak lt \<longrightarrow>
        mset (srt lt xs) = mset xs \<and> sorted_wrt (\<lambda>x y. \<not> lt y x) (srt lt xs))"

lemma older_strict_weak: "strict_weak older"
  by (auto simp: strict_weak_def older_def)

text \<open>Insertion sort keeps the promise.\<close>

fun place :: "('a \<Rightarrow> 'a \<Rightarrow> bool) \<Rightarrow> 'a \<Rightarrow> 'a list \<Rightarrow> 'a list" where
  "place lt a [] = [a]"
| "place lt a (x # xs) = (if lt x a then x # place lt a xs else a # x # xs)"

definition insertion_sort :: "('a \<Rightarrow> 'a \<Rightarrow> bool) \<Rightarrow> 'a list \<Rightarrow> 'a list" where
  "insertion_sort lt xs = foldr (place lt) xs []"

lemma mset_place [simp]: "mset (place lt a xs) = add_mset a (mset xs)"
  by (induction xs) auto

lemma set_place [simp]: "set (place lt a xs) = insert a (set xs)"
  by (induction xs) auto

lemma sorted_place:
  assumes "strict_weak lt" "sorted_wrt (\<lambda>x y. \<not> lt y x) xs"
  shows "sorted_wrt (\<lambda>x y. \<not> lt y x) (place lt a xs)"
  using assms(2)
proof (induction xs)
  case (Cons x xs)
  have asym: "lt x a \<Longrightarrow> \<not> lt a x" and trans: "\<not> lt y x \<Longrightarrow> \<not> lt x a \<Longrightarrow> \<not> lt y a" for y
    using assms(1) unfolding strict_weak_def by blast+
  with Cons show ?case by auto
qed simp

lemma insertion_sort_ok: "sort_Slice_ok insertion_sort"
  unfolding sort_Slice_ok_def
proof (intro allI impI)
  fix lt :: "'a \<Rightarrow> 'a \<Rightarrow> bool" and xs
  assume "strict_weak lt"
  then show "mset (insertion_sort lt xs) = mset xs \<and> sorted_wrt (\<lambda>x y. \<not> lt y x) (insertion_sort lt xs)"
    by (induction xs) (simp_all add: insertion_sort_def sorted_place)
qed

text \<open>The candidates the second phase may remove, oldest first.\<close>

definition evictable :: "(cand list \<Rightarrow> cand list) \<Rightarrow> vcache \<Rightarrow> gotime \<Rightarrow> cand list \<Rightarrow> cand list" where
  "evictable srt c now xs = filter (\<lambda>x. removable x \<and> \<not> expired c now x) (srt xs)"

definition evicted :: "(cand list \<Rightarrow> cand list) \<Rightarrow> vcache \<Rightarrow> gotime \<Rightarrow> cand list \<Rightarrow> nat \<Rightarrow> cand list" where
  "evicted srt c now xs k = filter (expired c now) xs @ take k (evictable srt c now xs)"

lemma evictCandidates_spec:
  assumes "distinct (map cdKey xs)" "\<forall>x \<in> set xs. 0 \<le> cdSize x" "tot = sizes xs" "tot < 2 ^ 63"
    and srt: "mset (srt xs) = mset xs" and sl: "sl older xs = srt xs"
  shows "\<exists>k. evictCandidates sl fails c now xs tot 0 =
      ((tot - sizes (evicted srt c now xs k), int (length (evicted srt c now xs k))),
       cdKey ` set (evicted srt c now xs k), fold (rm_pair fails) (evicted srt c now xs k) (cDisk c))
    \<and> (if 0 < cThreshold c
       then shortest (cThreshold c) (tot - sizes (filter (expired c now) xs)) (evictable srt c now xs) k
       else k = 0)"
proof -
  let ?E = "filter (expired c now) xs" and ?R = "cdKey ` set (filter (expired c now) xs)"
  have dist: "distinct (map cdKey (srt xs))" and sets: "set (srt xs) = set xs"
    using assms(1) srt by (metis mset_map mset_eq_imp_distinct_iff) (metis srt set_mset_mset)
  have nn: "\<forall>x \<in> set (srt xs). 0 \<le> cdSize x" using assms(2) sets by simp
  have inj: "x = y" if "x \<in> set xs" "y \<in> set xs" "cdKey x = cdKey y" for x y
    using assms(1) that by (simp add: distinct_map inj_on_def)
  have ev: "filter (\<lambda>x. removable x \<and> cdKey x \<notin> ?R) (srt xs) = evictable srt c now xs"
    unfolding evictable_def by (rule filter_cong) (use sets inj in auto)
  have phase1: "(if cExpiry c > 0 then evict_expired fails now (cExpiry c) xs tot ({}, cDisk c)
      else (tot, {}, cDisk c)) = (tot - sizes ?E, ?R, fold (rm_pair fails) ?E (cDisk c))"
  proof (cases "cExpiry c > 0")
    case True
    from evict_expired_spec[OF assms(1) _ assms(2) _ assms(4) this, of "{}" fails now "cDisk c"] assms(3) True
    show ?thesis by simp
  qed (simp add: expired_def)
  define tot1 where "tot1 = tot - sizes ?E"
  have tot1: "tot1 < 2 ^ 63" "sizes (evictable srt c now xs) \<le> tot1"
  proof -
    show "tot1 < 2 ^ 63" using assms sizes_nonneg[of ?E] by (simp add: tot1_def)
    have "sizes (evictable srt c now xs) \<le> sizes (filter (\<lambda>x. \<not> expired c now x) (srt xs))"
      using sizes_filter[of "filter (\<lambda>x. \<not> expired c now x) (srt xs)" removable] nn
      by (simp add: evictable_def conj_commute)
    also have "\<dots> = tot1"
      using sizes_partition[of "expired c now" "srt xs"] sizes_mset[OF srt]
        sizes_mset[of "filter (expired c now) (srt xs)" ?E] srt assms(3)
      by (simp add: tot1_def mset_filter)
    finally show "sizes (evictable srt c now xs) \<le> tot1" .
  qed
  obtain k where k: "shortest (cThreshold c) tot1 (evictable srt c now xs) k"
    "evict_oldest fails (cThreshold c) (srt xs) tot1 (?R, fold (rm_pair fails) ?E (cDisk c)) =
      (let gone = take k (evictable srt c now xs)
       in (tot1 - sizes gone, ?R \<union> cdKey ` set gone, fold (rm_pair fails) gone (fold (rm_pair fails) ?E (cDisk c))))"
    using evict_oldest_spec[OF dist nn, of ?R tot1 "cThreshold c" fails] tot1 unfolding ev by blast
  define k' where "k' = (if 0 < cThreshold c then k else 0)"
  have k0: "tot1 \<le> cThreshold c \<Longrightarrow> k = 0"
    using k(1) by (cases k) (auto simp: shortest_def)
  have card: "card (cdKey ` set (evicted srt c now xs j)) = length (evicted srt c now xs j)" for j
  proof -
    have "distinct (evicted srt c now xs j)"
      unfolding evicted_def evictable_def using assms(1) dist
      by (auto simp: distinct_map dest: in_set_takeD)
    moreover have "inj_on cdKey (set (evicted srt c now xs j))"
      by (rule inj_onI, rule inj) (auto simp: evicted_def evictable_def sets dest: in_set_takeD)
    ultimately show ?thesis by (simp add: card_image distinct_card)
  qed
  have res: "evictCandidates sl fails c now xs tot 0 =
      (case (if 0 < cThreshold c \<and> tot1 > cThreshold c
             then evict_oldest fails (cThreshold c) (srt xs) tot1 (?R, fold (rm_pair fails) ?E (cDisk c))
             else (tot1, ?R, fold (rm_pair fails) ?E (cDisk c))) of
         (tot, st) \<Rightarrow> ((tot, int (card (fst st))), st))"
    by (simp only: evictCandidates_def sl phase1 Let_def prod.case less_irrefl if_False tot1_def)
  have gone: "cdKey ` set (evicted srt c now xs j) = ?R \<union> cdKey ` set (take j (evictable srt c now xs))"
    "fold (rm_pair fails) (evicted srt c now xs j) (cDisk c) =
      fold (rm_pair fails) (take j (evictable srt c now xs)) (fold (rm_pair fails) ?E (cDisk c))"
    "tot - sizes (evicted srt c now xs j) = tot1 - sizes (take j (evictable srt c now xs))" for j
    by (simp_all add: evicted_def image_Un tot1_def)
  have "evictCandidates sl fails c now xs tot 0 =
      ((tot - sizes (evicted srt c now xs k'), int (length (evicted srt c now xs k'))),
       cdKey ` set (evicted srt c now xs k'), fold (rm_pair fails) (evicted srt c now xs k') (cDisk c))"
  proof (cases "0 < cThreshold c \<and> tot1 > cThreshold c")
    case True
    then have "k' = k" by (simp add: k'_def)
    show ?thesis
      unfolding res if_P[OF True] k(2) \<open>k' = k\<close> card[symmetric] gone Let_def by simp
  next
    case False
    then have "k' = 0" using k0 by (auto simp: k'_def)
    show ?thesis
      unfolding res if_not_P[OF False] \<open>k' = 0\<close> card[symmetric] gone by simp
  qed
  moreover have "if 0 < cThreshold c then shortest (cThreshold c) tot1 (evictable srt c now xs) k' else k' = 0"
    using k(1) by (simp add: k'_def)
  ultimately show ?thesis unfolding tot1_def by blast
qed

text \<open>C36. Eviction of candidates that were scanned with their sizes: it returns the total less the sizes of what
  it removed, and their number; it removes nothing that is in the map or open; everything expired goes.
  Of the others it removes those first that were read longest ago (of those read at the same time,
  those modified longest ago): every removable candidate it keeps was read later, or at the same time
  and modified no earlier. It stops as soon as the total is down to the threshold, and leaves it above
  the threshold only when nothing removable is left. The files of exactly those candidates are
  removed.\<close>

theorem eviction_is_exact:
  assumes "distinct (map cdKey xs)" "\<forall>x \<in> set xs. 0 \<le> cdSize x" "tot = sizes xs" "tot < 2 ^ 63"
    and srt: "sort_Slice_ok srt"
  shows "\<exists>L. let gone = filter (expired c now) xs @ L in
      evictCandidates srt fails c now xs tot 0 =
        ((tot - sizes gone, int (length gone)), cdKey ` set gone, fold (rm_pair fails) gone (cDisk c))
    \<and> set gone \<subseteq> {x \<in> set xs. \<not> cdInMap x \<and> cdOpens x \<le> 0} \<and> (\<forall>x \<in> set L. \<not> expired c now x)
    \<and> (\<forall>x \<in> set L. \<forall>y \<in> {y \<in> set xs. \<not> cdInMap y \<and> cdOpens y \<le> 0} - set gone.
         cdATime x < cdATime y \<or> (cdATime x = cdATime y \<and> cdMTime x \<le> cdMTime y))
    \<and> (L \<noteq> [] \<longrightarrow> 0 < cThreshold c \<and> cThreshold c < tot - sizes (filter (expired c now) xs @ butlast L))
    \<and> (0 < cThreshold c \<longrightarrow> tot - sizes gone \<le> cThreshold c
         \<or> set gone = {x \<in> set xs. \<not> cdInMap x \<and> cdOpens x \<le> 0})"
proof -
  let ?s = "srt older"
  have m: "mset (?s xs) = mset xs" and sorted: "sorted_wrt (\<lambda>x y. \<not> older y x) (?s xs)"
    using srt older_strict_weak by (simp_all add: sort_Slice_ok_def)
  then have sets: "set (?s xs) = set xs" by (metis set_mset_mset)
  obtain k where k: "evictCandidates srt fails c now xs tot 0 =
      ((tot - sizes (evicted ?s c now xs k), int (length (evicted ?s c now xs k))),
       cdKey ` set (evicted ?s c now xs k), fold (rm_pair fails) (evicted ?s c now xs k) (cDisk c))"
    and sh: "if 0 < cThreshold c
       then shortest (cThreshold c) (tot - sizes (filter (expired c now) xs)) (evictable ?s c now xs) k
       else k = 0"
    using evictCandidates_spec[where srt = ?s and sl = srt and xs = xs, OF assms(1-4) m refl, of fails c now] by blast
  let ?V = "evictable ?s c now xs"
  define L where "L = take k ?V"
  have gone: "evicted ?s c now xs k = filter (expired c now) xs @ L"
    by (simp add: evicted_def L_def)
  have rem: "expired c now x \<Longrightarrow> removable x" for x by (simp add: expired_def removable_def)
  have rset: "{x \<in> set xs. removable x} = {x \<in> set xs. \<not> cdInMap x \<and> cdOpens x \<le> 0}"
    by (auto simp: removable_def)
  have V: "set ?V = {x \<in> set xs. removable x \<and> \<not> expired c now x}"
    by (auto simp: evictable_def sets)
  have L: "set L \<subseteq> set ?V" by (simp add: L_def set_take_subset)
  have "sorted_wrt (\<lambda>x y. \<not> older y x) ?V"
    unfolding evictable_def by (rule sorted_wrt_filter[OF sorted])
  then have "sorted_wrt (\<lambda>x y. \<not> older y x) (L @ drop k ?V)" by (simp add: L_def)
  then have old: "cdATime x < cdATime y \<or> (cdATime x = cdATime y \<and> cdMTime x \<le> cdMTime y)"
    if "x \<in> set L" "y \<in> set (drop k ?V)" for x y
  proof -
    have "\<not> older y x" using that \<open>sorted_wrt _ (L @ _)\<close> by (simp add: sorted_wrt_append)
    then show ?thesis by (auto simp: older_def not_less split: if_splits)
  qed
  have rest: "y \<in> set (drop k ?V)"
    if "y \<in> set xs" "removable y" "y \<notin> set (filter (expired c now) xs @ L)" for y
  proof -
    have "y \<in> set (L @ drop k ?V)" using that V by (simp add: L_def)
    then show ?thesis using that by simp
  qed
  have "0 < cThreshold c \<and> cThreshold c < tot - sizes (filter (expired c now) xs @ butlast L)" if "L \<noteq> []"
  proof -
    have "k \<noteq> 0" using that by (auto simp: L_def)
    then have t: "0 < cThreshold c"
      and s: "shortest (cThreshold c) (tot - sizes (filter (expired c now) xs)) ?V k"
      using sh by (auto split: if_splits)
    have "butlast L = take (k - 1) ?V"
      using s by (simp add: L_def butlast_take shortest_def)
    then show ?thesis using s t \<open>k \<noteq> 0\<close> by (simp add: shortest_def diff_diff_eq)
  qed
  moreover have "tot - sizes (filter (expired c now) xs @ L) \<le> cThreshold c
      \<or> set (filter (expired c now) xs @ L) = {x \<in> set xs. removable x}" if "0 < cThreshold c"
    using that sh V rem by (auto simp: shortest_def L_def)
  moreover note k[unfolded gone]
  ultimately show ?thesis
    using L V rem old rest unfolding rset[symmetric] by (intro exI[of _ L]) (auto simp: Let_def)
qed

definition demo_cand :: "nat \<Rightarrow> int \<Rightarrow> int \<Rightarrow> bool \<Rightarrow> cand" where
  "demo_cand k atime n inMap =
     \<lparr>cdKey = [of_nat k], cdData = ([1], [of_nat k]), cdMeta = ([1], of_nat k # dot_json), cdATime = atime,
      cdMTime = atime, cdSize = n, cdOpens = 0, cdInMap = inMap\<rparr>"

definition demo_cands :: "cand list" where
  "demo_cands = [demo_cand 1 50 10 False, demo_cand 2 20 10 False, demo_cand 3 10 10 True, demo_cand 4 40 10 False]"

theorem eviction_is_exact_witness:
  "\<exists>L. let c = (NewCache 0 28 empty_disk); xs = demo_cands; gone = filter (expired c 100) xs @ L in
     evictCandidates insertion_sort (\<lambda>_. False) c 100 xs 40 0 =
       ((40 - sizes gone, int (length gone)), cdKey ` set gone, fold (rm_pair (\<lambda>_. False)) gone (cDisk c))
     \<and> cThreshold c = 25 \<and> fst (evictCandidates insertion_sort (\<lambda>_. False) c 100 xs 40 0) = (20, 2)"
proof -
  have "distinct (map cdKey demo_cands)" "\<forall>x \<in> set demo_cands. 0 \<le> cdSize x" "40 = sizes demo_cands"
    "(40 :: int) < 2 ^ 63"
    by (simp_all add: demo_cands_def demo_cand_def)
  moreover have "cThreshold (NewCache 0 28 empty_disk) = 25" by code_simp
  moreover have "fst (evictCandidates insertion_sort (\<lambda>_. False) (NewCache 0 28 empty_disk) 100 demo_cands 40 0)
    = (20, 2)"
    by code_simp
  moreover note eviction_is_exact[OF _ _ _ _ insertion_sort_ok, of demo_cands 40 "NewCache 0 28 empty_disk" 100 "\<lambda>_. False"]
  ultimately show ?thesis unfolding Let_def by metis
qed

section \<open>The invariant of the cache\<close>

text \<open>The files of the cache: no directory name contains a slash, and no name could be that of a metadata
  file or of its temporary file.\<close>

definition names_ok :: "fpath set \<Rightarrow> bool" where
  "names_ok F \<longleftrightarrow> (\<forall>(e, f) \<in> F. 47 \<notin> set e \<and> \<not> HasSuffix f dot_json \<and> \<not> HasSuffix f (dot_json @ dot_tmp))"

definition linked_ok :: "(fpath \<Rightarrow> nat \<Rightarrow> byte) \<Rightarrow> (fpath \<Rightarrow> int) \<Rightarrow> disk \<Rightarrow> item \<Rightarrow> bool" where
  "linked_ok src sz d it \<longleftrightarrow>
     (\<exists>i. itFile it = Some i \<and> node_at d (data_path it) = Some (FileN i)
        \<and> file_ok (src (data_path it)) (sz (data_path it)) (itInfo it) (dData d i))"

definition disk_true :: "codec \<Rightarrow> (fpath \<Rightarrow> nat \<Rightarrow> byte) \<Rightarrow> (fpath \<Rightarrow> int) \<Rightarrow> fpath set \<Rightarrow> disk \<Rightarrow> bool" where
  "disk_true cd src sz F d \<longleftrightarrow> disk_ok d \<and> (\<forall>p \<in> F. stored_ok cd (src p) (sz p) d p)"

definition cache_ok :: "codec \<Rightarrow> (fpath \<Rightarrow> nat \<Rightarrow> byte) \<Rightarrow> (fpath \<Rightarrow> int) \<Rightarrow> fpath set \<Rightarrow> vcache \<Rightarrow> bool" where
  "cache_ok cd src sz F c \<longleftrightarrow>
     disk_true cd src sz F (cDisk c) \<and> distinct (map fst (cItems c))
     \<and> (\<forall>(k, it) \<in> set (cItems c). k = buildCacheKey (itEntry it) (itName it) \<and> data_path it \<in> F
          \<and> \<not> itClosed it \<and> linked_ok src sz (cDisk c) it)"

lemma HasSuffix_append [simp]: "HasSuffix (xs @ s) s"
  by (simp add: HasSuffix_def)

lemma TrimSuffix_append: "HasSuffix s suf \<Longrightarrow> s = TrimSuffix s suf @ suf"
  using append_take_drop_id[of "length s - length suf" s] by (auto simp: HasSuffix_def TrimSuffix_def)

lemma meta_path_eq: "meta_path it = meta_of (data_path it)"
  by (simp add: meta_path_def meta_of_def data_path_def)

lemma meta_of_inj: "meta_of p = meta_of q \<longleftrightarrow> p = q"
  by (auto simp: meta_of_def prod_eq_iff)

lemma names_ok_paths:
  assumes "names_ok F" "p \<in> F"
  shows "p \<noteq> meta_of q" "p \<noteq> tmp_path it" "meta_of p \<noteq> tmp_path it"
proof -
  have *: "\<not> HasSuffix (snd p) dot_json" "\<not> HasSuffix (snd p) (dot_json @ dot_tmp)"
    using assms by (auto simp: names_ok_def)
  show "p \<noteq> meta_of q" using * by (auto simp: meta_of_def)
  show "p \<noteq> tmp_path it" using * by (auto simp: tmp_path_def)
  show "meta_of p \<noteq> tmp_path it"
  proof
    assume "meta_of p = tmp_path it"
    then have "rev (snd p @ dot_json) = rev (itName it @ dot_json @ dot_tmp)"
      by (simp only: meta_of_def tmp_path_def prod.inject)
    then show False by (simp add: dot_json_def dot_tmp_def gs_def)
  qed
qed

lemma append_slash_inj:
  "e @ (47 :: byte) # f = e' @ 47 # f' \<Longrightarrow> 47 \<notin> set e \<Longrightarrow> 47 \<notin> set e' \<Longrightarrow> e = e' \<and> f = f'"
proof (induction e arbitrary: e')
  case Nil
  then show ?case by (cases e') auto
next
  case (Cons a e)
  then show ?case by (cases e') auto
qed

lemma buildCacheKey_inj:
  assumes "names_ok F" "(e, f) \<in> F" "(e', f') \<in> F" "buildCacheKey e f = buildCacheKey e' f'"
  shows "e = e' \<and> f = f'"
proof (rule append_slash_inj)
  show "e @ (47 :: byte) # f = e' @ 47 # f'"
    using assms(4) by (simp add: buildCacheKey_def gs_def)
qed (use assms in \<open>auto simp: names_ok_def\<close>)

lemma stored_frame:
  assumes "disk_ok d" "only_names N d d'" "p \<notin> N" "meta_of p \<notin> N" "stored_ok cd src n d p"
  shows "stored_ok cd src n d' p"
proof -
  have "node_at d' p = node_at d p" by (rule only_names_node[OF assms(2,3)])
  moreover have "fs_content d' (meta_of p) = fs_content d (meta_of p)"
    by (rule only_names_content[OF assms(1,2,4)])
  moreover have "dData d' i = dData d i" if "node_at d p = Some (FileN i)" for i
    using only_names_content[OF assms(1-3)] that calculation(1) by (simp add: fs_content_def)
  ultimately show ?thesis using assms(5) unfolding stored_ok_def by metis
qed

lemma linked_frame:
  assumes "disk_ok d" "only_names N d d'" "data_path it \<notin> N" "linked_ok src sz d it"
  shows "linked_ok src sz d' it"
proof -
  have "node_at d' (data_path it) = node_at d (data_path it)" by (rule only_names_node[OF assms(2,3)])
  moreover have "dData d' i = dData d i" if "node_at d (data_path it) = Some (FileN i)" for i
    using only_names_content[OF assms(1-3)] that calculation(1) by (simp add: fs_content_def)
  ultimately show ?thesis using assms(4) unfolding linked_ok_def by metis
qed

text \<open>Metadata that is written for an item whose file is right.\<close>

definition codec_ok :: "codec \<Rightarrow> bool" where
  "codec_ok cd \<longleftrightarrow> (\<forall>info. unmarshal cd (marshal cd info) = Some info)"

lemma linked_iSize: "linked_ok src sz d it \<Longrightarrow> iSize (itInfo it) = sz (data_path it)"
  by (auto simp: linked_ok_def file_ok_def)

lemma iSize_same: "iSize info = n \<Longrightarrow> info\<lparr>iSize := n\<rparr> = info"
  by (cases info) simp

lemma stored_flush:
  assumes cd: "codec_ok cd" and F: "names_ok F" "p \<in> F" and ok: "disk_ok d" "stored_ok cd (src p) (sz p) d p"
    and it: "linked_ok src sz d it" "data_path it \<in> F"
    and fr: "only_names {meta_path it, tmp_path it} d d'"
    and c: "fs_content d' (meta_path it) = fs_content d (meta_path it)
      \<or> fs_content d' (meta_path it) = Some (marshal cd (itInfo it))"
  shows "stored_ok cd (src p) (sz p) d' p"
proof (cases "p = data_path it")
  case False
  show ?thesis
    by (rule stored_frame[OF ok(1) fr _ _ ok(2)])
      (use False F names_ok_paths[OF F] in \<open>auto simp: meta_path_eq meta_of_inj\<close>)
next
  case True
  note lk = linked_frame[OF ok(1) fr _ it(1)]
  have lk': "linked_ok src sz d' it" by (rule lk) simp
  have node: "node_at d' p = node_at d p"
    by (rule only_names_node[OF fr]) (use True in simp)
  have dat: "dData d' i = dData d i" if "node_at d p = Some (FileN i)" for i
    using only_names_content[OF ok(1) fr, of p] that node True by (simp add: fs_content_def)
  show ?thesis
    using c
  proof
    assume "fs_content d' (meta_path it) = fs_content d (meta_path it)"
    then show ?thesis
      using ok(2) node dat True unfolding stored_ok_def meta_path_eq by metis
  next
    assume "fs_content d' (meta_path it) = Some (marshal cd (itInfo it))"
    then show ?thesis
      using lk' cd iSize_same[OF linked_iSize[OF it(1)]] True
      by (auto simp: stored_ok_def codec_ok_def linked_ok_def meta_path_eq)
  qed
qed

lemma disk_true_flush:
  assumes "codec_ok cd" "names_ok F" "disk_true cd src sz F d" "linked_ok src sz d it" "data_path it \<in> F"
    and "only_names {meta_path it, tmp_path it} d d'"
    and "fs_content d' (meta_path it) = fs_content d (meta_path it)
      \<or> fs_content d' (meta_path it) = Some (marshal cd (itInfo it))"
  shows "disk_true cd src sz F d'"
  using assms stored_flush[OF assms(1,2)] only_names_ok[OF assms(6)] unfolding disk_true_def by blast

lemma linked_flush:
  assumes "names_ok F" "disk_ok d" "only_names {meta_path it, tmp_path it} d d'"
    and "linked_ok src sz d it'" "data_path it' \<in> F"
  shows "linked_ok src sz d' it'"
  by (rule linked_frame[OF assms(2,3) _ assms(4)])
    (use names_ok_paths[OF assms(1,5)] in \<open>auto simp: meta_path_eq\<close>)

text \<open>The operations on the map of items.\<close>

lemma cache_okI:
  assumes "disk_true cd src sz F (cDisk c)" "distinct (map fst (cItems c))"
    and "\<And>k it. (k, it) \<in> set (cItems c) \<Longrightarrow> k = buildCacheKey (itEntry it) (itName it) \<and> data_path it \<in> F
      \<and> \<not> itClosed it \<and> linked_ok src sz (cDisk c) it"
  shows "cache_ok cd src sz F c"
  using assms by (auto simp: cache_ok_def)

lemma cache_okD:
  assumes "cache_ok cd src sz F c"
  shows "disk_true cd src sz F (cDisk c)" "disk_ok (cDisk c)" "distinct (map fst (cItems c))"
    and "(k, it) \<in> set (cItems c) \<Longrightarrow> k = buildCacheKey (itEntry it) (itName it)"
    and "(k, it) \<in> set (cItems c) \<Longrightarrow> data_path it \<in> F"
    and "(k, it) \<in> set (cItems c) \<Longrightarrow> \<not> itClosed it"
    and "(k, it) \<in> set (cItems c) \<Longrightarrow> linked_ok src sz (cDisk c) it"
  using assms by (auto simp: cache_ok_def disk_true_def)

lemma set_update_distinct:
  "distinct (map fst al) \<Longrightarrow> (k', v') \<in> set (AList.update k v al) \<Longrightarrow> (k', v') = (k, v) \<or> k' \<noteq> k \<and> (k', v') \<in> set al"
  by (induction al) (auto split: if_splits, force+)

text \<open>An item whose file, name and ranges stay as they are, and items that a write or a flush leaves.\<close>

definition same_file :: "item \<Rightarrow> item \<Rightarrow> bool" where
  "same_file it it' \<longleftrightarrow> itEntry it' = itEntry it \<and> itName it' = itName it \<and> itFile it' = itFile it
     \<and> itClosed it' = itClosed it"

lemma same_file_path: "same_file it it' \<Longrightarrow> data_path it' = data_path it"
  by (simp add: same_file_def data_path_def)

lemma update_item_ok:
  assumes c: "cache_ok cd src sz F c" and F: "names_ok F" and m: "(k, it) \<in> set (cItems c)"
    and it': "same_file it it'" "linked_ok src sz d it'"
    and d: "disk_true cd src sz F d"
    and others: "\<And>it1. linked_ok src sz (cDisk c) it1 \<Longrightarrow> data_path it1 \<in> F
      \<Longrightarrow> data_path it1 \<noteq> data_path it \<Longrightarrow> linked_ok src sz d it1"
  shows "cache_ok cd src sz F (c\<lparr>cItems := AList.update k it' (cItems c), cDisk := d\<rparr>)"
proof (rule cache_okI; simp)
  note D = cache_okD[OF c]
  show "disk_true cd src sz F d" by (rule d)
  show "distinct (map fst (AList.update k it' (cItems c)))" using D(3) by (rule distinct_update)
  fix k1 it1 assume "(k1, it1) \<in> set (AList.update k it' (cItems c))"
  with set_update_distinct[OF D(3)] consider "k1 = k" "it1 = it'" | "k1 \<noteq> k" "(k1, it1) \<in> set (cItems c)"
    by blast
  then show "k1 = buildCacheKey (itEntry it1) (itName it1) \<and> data_path it1 \<in> F \<and> \<not> itClosed it1
    \<and> linked_ok src sz d it1"
  proof cases
    case 1
    then show ?thesis using D(4,5,6)[OF m] it' same_file_path[OF it'(1)] by (simp add: same_file_def)
  next
    case 2
    have "data_path it1 \<noteq> data_path it"
      using 2(1) D(4)[OF m] D(4)[OF 2(2)] by (auto simp: data_path_def)
    then show ?thesis using D(4-7)[OF 2(2)] others by blast
  qed
qed

lemma touch_ok: "same_file it (touch now it)" "linked_ok src sz d it \<Longrightarrow> linked_ok src sz d (touch now it)"
  by (simp_all add: same_file_def touch_def linked_ok_def data_path_def file_ok_fields)

lemma touch_item_ok:
  assumes "cache_ok cd src sz F c" "names_ok F" "(k, it) \<in> set (cItems c)"
    and "same_file it it'" "itInfo it' = (itInfo it)\<lparr>iATime := t\<rparr>"
  shows "cache_ok cd src sz F (c\<lparr>cItems := AList.update k it' (cItems c)\<rparr>)"
proof -
  have "linked_ok src sz (cDisk c) it'"
    using cache_okD(7)[OF assms(1,3)] assms(4,5)
    by (simp add: linked_ok_def same_file_path same_file_def file_ok_fields data_path_def)
  from update_item_ok[OF assms(1-4) this cache_okD(1)[OF assms(1)]] show ?thesis by simp
qed

lemma write_item_ok:
  assumes c: "cache_ok cd src sz F c" and F: "names_ok F" and m: "(k, it) \<in> set (cItems c)"
    and p: "0 \<le> off" "off + int (length p) \<le> sz (data_path it)"
      "\<And>i. i < length p \<Longrightarrow> p ! i = src (data_path it) (nat off + i)"
    and W: "WriteAtNoOverwrite wr it (cDisk c) p off = Some (res, it', d')"
  shows "cache_ok cd src sz F (c\<lparr>cItems := AList.update k it' (cItems c), cDisk := d'\<rparr>)"
proof -
  let ?p = "data_path it" and ?d = "cDisk c"
  note D = cache_okD[OF c]
  obtain i where i: "itFile it = Some i" "node_at ?d ?p = Some (FileN i)"
    "file_ok (src ?p) (sz ?p) (itInfo it) (dData ?d i)"
    using D(7)[OF m] by (auto simp: linked_ok_def)
  obtain bs where bs: "d' = fs_set_data ?d i bs"
    "\<forall>info. file_ok (src ?p) (sz ?p) info (dData ?d i) \<longrightarrow> file_ok (src ?p) (sz ?p) info bs"
    "itEntry it' = itEntry it \<and> itName it' = itName it \<and> itFile it' = itFile it \<and> itClosed it' = itClosed it"
    by (rule WriteAtNoOverwrite_any_info[OF i(3,1) p W]) blast
  have sf: "same_file it it'" unfolding same_file_def by (rule bs(3))
  have fo: "file_ok (src ?p) (sz ?p) (itInfo it') (dData d' i)"
    using WriteAtNoOverwrite_keeps_file_ok[OF i(3,1) p W] by blast
  have "itFile it' = Some i" using sf i(1) by (simp only: same_file_def)
  moreover have "node_at d' ?p = Some (FileN i)" by (simp only: bs(1) node_at_set_data i(2))
  ultimately have lk: "linked_ok src sz d' it'"
    unfolding linked_ok_def same_file_path[OF sf] using fo by blast
  have other: "dData d' j = dData ?d j" if "node_at ?d q = Some (FileN j)" "q \<noteq> ?p" for q j
  proof -
    have "j \<noteq> i" using disk_okD(2)[OF D(2) that(1), of ?p] i(2) that(2) by blast
    then show ?thesis by (simp add: bs(1) lookup_simps)
  qed
  have "stored_ok cd (src q) (sz q) d' q" if "q \<in> F" for q
  proof -
    have st: "stored_ok cd (src q) (sz q) ?d q" using D(1) that by (simp add: disk_true_def)
    have "fs_content d' (meta_of q) = fs_content ?d (meta_of q)"
    proof -
      have "dData d' j = dData ?d j" if "node_at ?d (meta_of q) = Some (FileN j)" for j
        by (rule other[OF that]) (use names_ok_paths(1)[OF F D(5)[OF m], of q] in simp)
      then show ?thesis
        unfolding fs_content_def bs(1) node_at_set_data by (simp split: option.split node.split)
    qed
    moreover have "file_ok (src q) (sz q) info (dData ?d j) \<Longrightarrow> file_ok (src q) (sz q) info (dData d' j)"
      if "node_at ?d q = Some (FileN j)" for j info
    proof (cases "q = ?p")
      case True
      then have "j = i" using that i(2) by simp
      then have "dData d' j = bs" by (simp add: bs(1) lookup_simps)
      then show "file_ok (src q) (sz q) info (dData ?d j) \<Longrightarrow> file_ok (src q) (sz q) info (dData d' j)"
        using bs(2) True \<open>j = i\<close> by metis
    qed (simp add: other[OF that])
    ultimately show ?thesis using st unfolding stored_ok_def by (metis bs(1) node_at_set_data)
  qed
  then have dt: "disk_true cd src sz F d'"
    using disk_ok_simps(3)[OF D(2)] by (simp add: disk_true_def bs(1))
  show ?thesis
    by (rule update_item_ok[OF c F m sf lk dt])
      (metis linked_ok_def other bs(1) node_at_set_data)
qed

lemma flush_item_ok:
  assumes c: "cache_ok cd src sz F c" and F: "names_ok F" "codec_ok cd" and m: "(k, it) \<in> set (cItems c)"
    and FL: "flushMetadata cd o' force it (cDisk c) = (it', d')"
  shows "cache_ok cd src sz F (c\<lparr>cItems := AList.update k it' (cItems c), cDisk := d'\<rparr>)"
proof -
  note D = cache_okD[OF c]
  note s = flushMetadata_spec[OF D(2) FL]
  note fr = s[THEN conjunct1]
  have sf: "same_file it it'" "itInfo it' = itInfo it" using s by (auto simp: same_file_def)
  have dt: "disk_true cd src sz F d'"
    by (rule disk_true_flush[OF F(2,1) D(1) D(7)[OF m] D(5)[OF m] fr]) (use s in blast)
  have "linked_ok src sz d' it" by (rule linked_flush[OF F(1) D(2) fr D(7)[OF m] D(5)[OF m]])
  then have lk: "linked_ok src sz d' it'"
    using sf by (simp add: linked_ok_def same_file_path same_file_def data_path_def)
  show ?thesis
    by (rule update_item_ok[OF c F(1) m sf(1) lk dt]) (rule linked_flush[OF F(1) D(2) fr])
qed

lemma close_item_ok:
  assumes c: "cache_ok cd src sz F c" and F: "names_ok F" "codec_ok cd" and m: "(k, it) \<in> set (cItems c)"
  shows "cache_ok cd src sz F (c\<lparr>cItems := AList.delete k (cItems c), cItemCount := n,
    cDisk := snd (Close_item cd o1 o2 it (cDisk c))\<rparr>)"
proof -
  note D = cache_okD[OF c]
  note fr = Close_item_frame[OF D(2), of it cd o1 o2]
  have "disk_true cd src sz F (snd (Close_item cd o1 o2 it (cDisk c)))"
    by (rule disk_true_flush[OF F(2,1) D(1) D(7)[OF m] D(5)[OF m] fr(1) fr(2)[OF D(6)[OF m]]])
  moreover have "distinct (map fst (AList.delete k (cItems c)))" using D(3) by (rule distinct_delete)
  moreover have "set (AList.delete k (cItems c)) \<subseteq> set (cItems c)" by (auto simp: AList.delete_eq)
  ultimately show ?thesis
    using D(4-7) linked_flush[OF F(1) D(2) fr(1)] by (intro cache_okI) (auto dest: subsetD)
qed

lemma close_items_ok:
  assumes "cache_ok cd src sz F c" "names_ok F" "codec_ok cd"
  shows "cache_ok cd src sz F (close_items cd o' keys c)"
  using assms
proof (induction cd o' keys c rule: close_items.induct)
  case (2 cd o' key keys c)
  show ?case
  proof (cases "map_of (cItems c) key")
    case (Some it)
    have "cache_ok cd src sz F (c\<lparr>cItems := AList.delete key (cItems c), cItemCount := i64 (cItemCount c - 1),
        cDisk := snd (Close_item cd (fst (o' key)) (snd (o' key)) it (cDisk c))\<rparr>)"
      by (rule close_item_ok[OF 2(2-4) map_of_SomeD[OF Some]])
    then show ?thesis using 2 Some by simp
  qed (use 2 in simp)
qed simp

lemma GetItem_ok:
  assumes c: "cache_ok cd src sz F c" and F: "names_ok F" and p: "(e, f) \<in> F"
    and n: "sz (e, f) = n" "0 \<le> n" "n < 2 ^ 63"
    and G: "GetItem cd o' now1 now2 now3 c e f n = (res, c')"
  shows "cache_ok cd src sz F c' \<and> (\<forall>it. res = Inr it \<longrightarrow> map_of (cItems c') (buildCacheKey e f) = Some it)"
proof (cases "map_of (cItems c) (buildCacheKey e f)")
  case (Some it)
  then have "res = Inr (touch now1 it)"
    "c' = c\<lparr>cItems := AList.update (buildCacheKey e f) (touch now1 it) (cItems c)\<rparr>"
    using G by (simp_all add: GetItem_def Let_def)
  moreover have "cache_ok cd src sz F (c\<lparr>cItems := AList.update (buildCacheKey e f) (touch now1 it) (cItems c)\<rparr>)"
    by (rule touch_item_ok[OF c F map_of_SomeD[OF Some] touch_ok(1), of _ now1]) (simp add: touch_def)
  ultimately show ?thesis by (auto simp: update_conv')
next
  case None
  note D = cache_okD[OF c]
  let ?k = "buildCacheKey e f"
  obtain r d' where N: "newItem cd o' now1 now2 (cDisk c) ?k e f n = (r, d')"
    by (cases "newItem cd o' now1 now2 (cDisk c) ?k e f n") auto
  have st: "stored_ok cd (src (e, f)) n (cDisk c) (e, f)" using D(1) p n by (auto simp: disk_true_def)
  note s = newItem_spec[OF D(2) n(2,3) st N]
  note fr = s[THEN conjunct1]
  have "stored_ok cd (src q) (sz q) d' q" if "q \<in> F" for q
  proof (cases "q = (e, f)")
    case True
    then show ?thesis using s n by simp
  next
    case False
    have "stored_ok cd (src q) (sz q) (cDisk c) q" using D(1) that by (simp add: disk_true_def)
    then show ?thesis
      by (rule stored_frame[OF D(2) fr, rotated 2]) (use False names_ok_paths(1)[OF F p, of q] in auto)
  qed
  then have dt: "disk_true cd src sz F d'" using only_names_ok[OF fr] by (simp add: disk_true_def)
  have old: "linked_ok src sz d' it1 \<and> k1 \<noteq> ?k" if m: "(k1, it1) \<in> set (cItems c)" for k1 it1
  proof -
    have "k1 \<noteq> ?k" using None m by (metis map_of_eq_None_iff fst_conv image_eqI)
    then have "data_path it1 \<noteq> (e, f)" using D(4)[OF m] by (auto simp: data_path_def)
    then show ?thesis using linked_frame[OF D(2) fr _ D(7)[OF m]] \<open>k1 \<noteq> ?k\<close> by simp
  qed
  show ?thesis
  proof (cases r)
    case (Inl err)
    then have "res = Inl err" "c' = c\<lparr>cDisk := d'\<rparr>" using G None N by (simp_all add: GetItem_def Let_def)
    moreover have "cache_ok cd src sz F (c\<lparr>cDisk := d'\<rparr>)"
      by (rule cache_okI) (use dt D(3-6) old in auto)
    ultimately show ?thesis by simp
  next
    case (Inr it)
    then have res: "res = Inr (touch now3 it)"
      "c' = c\<lparr>cItems := AList.update ?k (touch now3 it) (cItems c), cItemCount := i64 (cItemCount c + 1), cDisk := d'\<rparr>"
      using G None N by (simp_all add: GetItem_def Let_def)
    obtain fd info where it: "it = \<lparr>itKey = ?k, itEntry = e, itName = f, itFile = Some fd,
         itInfo = info, itOpens = 0, itDownloaders = True, itDirty = True, itClosed = False\<rparr>"
      "node_at d' (e, f) = Some (FileN fd)" "file_ok (src (e, f)) n info (dData d' fd)"
      using s Inr by blast
    have path: "data_path (touch now3 it) = (e, f)" "buildCacheKey (itEntry (touch now3 it)) (itName (touch now3 it)) = ?k"
      "\<not> itClosed (touch now3 it)"
      by (simp_all add: it(1) touch_def data_path_def)
    have "linked_ok src sz d' (touch now3 it)"
      unfolding linked_ok_def path using it n by (auto simp: touch_def file_ok_fields)
    then have new: "?k = buildCacheKey (itEntry (touch now3 it)) (itName (touch now3 it))
        \<and> data_path (touch now3 it) \<in> F \<and> \<not> itClosed (touch now3 it) \<and> linked_ok src sz d' (touch now3 it)"
      using path p by simp
    have "cache_ok cd src sz F c'"
      unfolding res
    proof (rule cache_okI; simp add: dt D(3) distinct_update)
      fix k1 it1 assume "(k1, it1) \<in> set (AList.update ?k (touch now3 it) (cItems c))"
      with set_update_distinct[OF D(3)] consider "k1 = ?k" "it1 = touch now3 it" | "(k1, it1) \<in> set (cItems c)"
        by blast
      then show "k1 = buildCacheKey (itEntry it1) (itName it1) \<and> data_path it1 \<in> F \<and> \<not> itClosed it1
          \<and> linked_ok src sz d' it1"
        using new D(4-6) old by cases blast+
    qed
    then show ?thesis using res by (simp add: update_conv')
  qed
qed

text \<open>The scan reads, and removes directories that are empty.\<close>

lemma fs_rmdir_empty: "dir_of d e = [] \<Longrightarrow> node_at (fs_rmdir d e) = node_at d"
  by (auto simp: node_at_def dir_of_def fs_rmdir_def delete_conv' fun_eq_iff split: option.split)

lemma only_names_rmdir: "disk_ok d \<Longrightarrow> dir_of d e = [] \<Longrightarrow> only_names {} d (fs_rmdir d e)"
  unfolding only_names_def fs_rmdir_empty
  by (simp add: lookup_simps) (rule disk_ok_nodes; simp add: lookup_simps fs_rmdir_empty)

definition cand_of :: "vcache \<Rightarrow> cand \<Rightarrow> bool" where
  "cand_of c x \<longleftrightarrow> cdMeta x = meta_of (cdData x) \<and> cdKey x = buildCacheKey (fst (cdData x)) (snd (cdData x))
     \<and> (cdInMap x \<longleftrightarrow> cdKey x \<in> fst ` set (cItems c))"

lemma scan_file_cand: "scan_file cd se c e sub = Some x \<Longrightarrow> cand_of c x"
  using TrimSuffix_append[of "fst sub" dot_json]
  by (auto simp: scan_file_def cand_of_def meta_of_def Let_def map_of_eq_None_iff
      dest: map_of_SomeD split: if_splits option.splits) (force dest: map_of_SomeD)+

lemma cand_of_disk [simp]: "cand_of (c\<lparr>cDisk := d\<rparr>) = cand_of c"
  by (simp add: cand_of_def fun_eq_iff)

lemma scan_dirs_spec:
  assumes "scan_dirs cd se es c cands tot = ((cands', tot'), c')" "disk_ok (cDisk c)" "\<forall>x \<in> set cands. cand_of c x"
  shows "only_names {} (cDisk c) (cDisk c') \<and> c' = c\<lparr>cDisk := cDisk c'\<rparr> \<and> (\<forall>x \<in> set cands'. cand_of c x)"
  using assms
proof (induction es arbitrary: c cands tot)
  case Nil
  then show ?case by (auto simp: only_names_refl)
next
  case (Cons e es)
  let ?subs = "sort_key fst (dir_of (cDisk c) e)"
  let ?cs = "List.map_filter (scan_file cd se c e) ?subs"
  let ?c1 = "if seRmDir se e then c else c\<lparr>cDisk := fs_rmdir (cDisk c) e\<rparr>"
  have step: "scan_dirs cd se (e # es) c cands tot =
    (if seDir se e then scan_dirs cd se es c cands tot
     else if ?subs = [] then scan_dirs cd se es ?c1 cands tot
     else scan_dirs cd se es c (cands @ ?cs) (foldl (\<lambda>t x. i64 (t + cdSize x)) tot ?cs))"
    by (simp add: Let_def)
  consider (skip) "seDir se e" | (empty) "\<not> seDir se e" "?subs = []" | (files) "\<not> seDir se e" "?subs \<noteq> []"
    by blast
  then show ?case
  proof cases
    case skip
    then show ?thesis using Cons.IH[of c cands tot] Cons.prems unfolding step by simp
  next
    case empty
    then have "dir_of (cDisk c) e = []" by (metis set_sort set_empty)
    then have o1: "only_names {} (cDisk c) (cDisk ?c1)"
      using only_names_rmdir[OF Cons.prems(2)] only_names_refl[OF Cons.prems(2)] by simp
    have R: "scan_dirs cd se es ?c1 cands tot = ((cands', tot'), c')"
      using Cons.prems(1) empty unfolding step by simp
    have "only_names {} (cDisk ?c1) (cDisk c') \<and> c' = ?c1\<lparr>cDisk := cDisk c'\<rparr> \<and> (\<forall>x \<in> set cands'. cand_of ?c1 x)"
      by (rule Cons.IH[OF R only_names_ok[OF o1]]) (use Cons.prems(3) in simp)
    then show ?thesis using only_names_trans[OF o1] by (auto split: if_splits)
  next
    case files
    then have R: "scan_dirs cd se es c (cands @ ?cs) (foldl (\<lambda>t x. i64 (t + cdSize x)) tot ?cs) = ((cands', tot'), c')"
      using Cons.prems(1) unfolding step by simp
    show ?thesis
      by (rule Cons.IH[OF R Cons.prems(2)])
        (use Cons.prems(3) scan_file_cand[of cd se c e] in \<open>auto simp: List.map_filter_def\<close>)
  qed
qed

lemma scan_ok:
  assumes c: "cache_ok cd src sz F c" and S: "scanDiskCandidates cd se c = ((cands, tot), c')"
  shows "cache_ok cd src sz F c'" "\<forall>x \<in> set cands. cand_of c' x"
proof -
  note D = cache_okD[OF c]
  have *: "only_names {} (cDisk c) (cDisk c') \<and> c' = c\<lparr>cDisk := cDisk c'\<rparr> \<and> (\<forall>x \<in> set cands. cand_of c x)"
  proof (cases "seTop se")
    case True
    then show ?thesis using S only_names_refl[OF D(2)] by (auto simp: scanDiskCandidates_def)
  next
    case False
    then show ?thesis using S scan_dirs_spec[OF _ D(2)] by (simp add: scanDiskCandidates_def)
  qed
  then have fr: "only_names {} (cDisk c) (cDisk c')" and items: "cItems c' = cItems c"
    by (blast, metis vcache.select_convs(4) vcache.simps(4) vcache.update_convs(13) surjective_pairing vcache.surjective)
  have "stored_ok cd (src p) (sz p) (cDisk c') p" if "p \<in> F" for p
    using stored_frame[OF D(2) fr] D(1) that by (simp add: disk_true_def)
  then show "cache_ok cd src sz F c'"
    using linked_frame[OF D(2) fr] D(3-7) only_names_ok[OF fr] items
    by (intro cache_okI) (auto simp: disk_true_def)
  show "\<forall>x \<in> set cands. cand_of c' x" using * items by (simp add: cand_of_def)
qed

text \<open>Removing a pair of files that belongs to no item leaves the rest true, unless the data file goes and
  its metadata stays.\<close>

definition in_order :: "(fpath \<Rightarrow> bool) \<Rightarrow> bool" where
  "in_order fails \<longleftrightarrow> (\<forall>p. fails (meta_of p) \<longrightarrow> fails p)"

lemma rm_pair_ok:
  assumes c: "cache_ok cd src sz F c" and F: "names_ok F" and fl: "in_order fails"
    and x: "cand_of c x" "\<not> cdInMap x"
  shows "cache_ok cd src sz F (c\<lparr>cDisk := rm_pair fails x (cDisk c)\<rparr>)"
proof (rule cache_okI)
  note D = cache_okD[OF c]
  let ?p = "cdData x" and ?d = "rm_pair fails x (cDisk c)"
  have m: "cdMeta x = meta_of ?p" using x by (simp add: cand_of_def)
  have fr: "only_names {?p, meta_of ?p} (cDisk c) ?d"
    using only_names_unlink[OF D(2), of ?p "{?p, meta_of ?p}"] only_names_refl[OF D(2)]
      only_names_unlink[OF D(2), of "meta_of ?p" "{?p, meta_of ?p}"]
      only_names_unlink[OF disk_ok_simps(1)[OF D(2)], of "meta_of ?p" "{?p, meta_of ?p}" ?p]
    by (auto simp: rm_pair_def m Let_def intro: only_names_trans)
  have "stored_ok cd (src q) (sz q) ?d q" if q: "q \<in> F" for q
  proof (cases "fs_content ?d (meta_of q) = None")
    case True
    then show ?thesis by (simp add: stored_ok_def)
  next
    case False
    have "?d = cDisk c" if "q = ?p"
    proof (rule ccontr)
      assume "?d \<noteq> cDisk c"
      then have "\<not> fails (meta_of ?p)"
        using fl[unfolded in_order_def, rule_format, of ?p] by (auto simp: rm_pair_def Let_def m split: if_splits)
      then have "node_at ?d (meta_of ?p) = None" by (simp add: rm_pair_def m Let_def lookup_simps)
      with False that show False by (simp add: fs_content_def)
    qed
    moreover have "stored_ok cd (src q) (sz q) ?d q" if "q \<noteq> ?p"
    proof -
      have st: "stored_ok cd (src q) (sz q) (cDisk c) q" using D(1) q by (simp add: disk_true_def)
      have n: "q \<noteq> meta_of ?p" "meta_of q \<noteq> meta_of ?p"
        using names_ok_paths(1)[OF F q] that by (simp_all add: meta_of_inj)
      show ?thesis
      proof (cases "meta_of q = ?p")
        case True
        then have "fails ?p" using False by (auto simp: rm_pair_def m Let_def fs_content_def lookup_simps split: if_splits)
        then have "only_names {meta_of ?p} (cDisk c) ?d"
          using only_names_unlink[OF D(2)] only_names_refl[OF D(2)] by (simp add: rm_pair_def m Let_def)
        then show ?thesis by (rule stored_frame[OF D(2) _ _ _ st]) (use n in auto)
      qed (rule stored_frame[OF D(2) fr _ _ st]; use that n in simp)
    qed
    ultimately show ?thesis using D(1) q by (cases "q = ?p") (auto simp: disk_true_def)
  qed
  then show "disk_true cd src sz F (cDisk (c\<lparr>cDisk := ?d\<rparr>))"
    using only_names_ok[OF fr] by (simp add: disk_true_def)
  show "distinct (map fst (cItems (c\<lparr>cDisk := ?d\<rparr>)))" using D(3) by simp
  fix k it assume "(k, it) \<in> set (cItems (c\<lparr>cDisk := ?d\<rparr>))"
  then have i: "(k, it) \<in> set (cItems c)" by simp
  have "data_path it \<noteq> ?p"
  proof
    assume "data_path it = ?p"
    then have "cdData x = (itEntry it, itName it)" by (simp add: data_path_def)
    then have "cdKey x = k" using x(1) D(4)[OF i] by (simp add: cand_of_def)
    moreover have "k \<in> fst ` set (cItems c)" using i by force
    ultimately show False using x by (simp add: cand_of_def)
  qed
  then show "k = buildCacheKey (itEntry it) (itName it) \<and> data_path it \<in> F \<and> \<not> itClosed it
    \<and> linked_ok src sz (cDisk (c\<lparr>cDisk := ?d\<rparr>)) it"
    using D(4-6)[OF i] linked_frame[OF D(2) fr _ D(7)[OF i]] names_ok_paths(1)[OF F D(5)[OF i]]
    by simp
qed

lemma removeCandidate_ok:
  assumes "cache_ok cd src sz F (c\<lparr>cDisk := d\<rparr>)" "names_ok F" "in_order fails" "cand_of c x"
  shows "cache_ok cd src sz F (c\<lparr>cDisk := snd (removeCandidate fails x (r, d))\<rparr>)"
proof -
  have "removeCandidate fails x (r, d) =
    (if cdKey x \<in> r \<or> cdInMap x \<or> cdOpens x > 0 then (r, d) else (insert (cdKey x) r, rm_pair fails x d))"
    by (simp add: removeCandidate_def rm_pair_def Let_def)
  then show ?thesis using assms rm_pair_ok[OF assms(1-3), of x] by simp
qed

lemma evict_expired_ok:
  assumes "cache_ok cd src sz F (c\<lparr>cDisk := d\<rparr>)" "names_ok F" "in_order fails" "\<forall>x \<in> set xs. cand_of c x"
  shows "cache_ok cd src sz F (c\<lparr>cDisk := snd (snd (evict_expired fails now ex xs tot (r, d)))\<rparr>)"
  using assms
proof (induction xs arbitrary: tot r d)
  case (Cons x xs)
  obtain r1 d1 where R: "removeCandidate fails x (r, d) = (r1, d1)"
    by (cases "removeCandidate fails x (r, d)") auto
  have "cache_ok cd src sz F (c\<lparr>cDisk := d1\<rparr>)"
    using removeCandidate_ok[where c = c and d = d and fails = fails and x = x and r = r] Cons.prems R by fastforce
  then show ?case using Cons.IH Cons.prems by (simp add: R)
qed simp

lemma evict_oldest_ok:
  assumes "cache_ok cd src sz F (c\<lparr>cDisk := d\<rparr>)" "names_ok F" "in_order fails" "\<forall>x \<in> set xs. cand_of c x"
  shows "cache_ok cd src sz F (c\<lparr>cDisk := snd (snd (evict_oldest fails th xs tot (r, d)))\<rparr>)"
  using assms
proof (induction xs arbitrary: tot r d)
  case (Cons x xs)
  obtain r1 d1 where R: "removeCandidate fails x (r, d) = (r1, d1)"
    by (cases "removeCandidate fails x (r, d)") auto
  have "cache_ok cd src sz F (c\<lparr>cDisk := d1\<rparr>)"
    using removeCandidate_ok[where c = c and d = d and fails = fails and x = x and r = r] Cons.prems R by fastforce
  then show ?case using Cons.IH Cons.prems by (simp add: R)
qed simp

lemma evictCandidates_ok:
  assumes "cache_ok cd src sz F c" "names_ok F" "in_order fails" "\<forall>x \<in> set xs. cand_of c x"
    and "set (srt older xs) \<subseteq> set xs" "evictCandidates srt fails c now xs tot ov = (res, r, d)"
  shows "cache_ok cd src sz F (c\<lparr>cDisk := d\<rparr>)"
proof -
  have c0: "cache_ok cd src sz F (c\<lparr>cDisk := cDisk c\<rparr>)" using assms(1) by simp
  obtain t1 r1 d1 where 1: "(if cExpiry c > 0 then evict_expired fails now (cExpiry c) xs tot ({}, cDisk c)
      else (tot, {}, cDisk c)) = (t1, r1, d1)"
    by (metis prod_cases3)
  then have c1: "cache_ok cd src sz F (c\<lparr>cDisk := d1\<rparr>)"
    using evict_expired_ok[OF c0 assms(2-4), of now "cExpiry c" tot "{}"] c0 by (auto split: if_splits)
  have srt: "\<forall>x \<in> set (srt older xs). cand_of c x" using assms(4,5) by blast
  have "d = d1 \<or> (\<exists>th. d = snd (snd (evict_oldest fails th (srt older xs) t1 (r1, d1))))"
    using assms(6) by (auto simp: evictCandidates_def 1 Let_def split: if_splits prod.splits) (metis snd_conv)+
  then show ?thesis using c1 evict_oldest_ok[OF c1 assms(2,3) srt] by auto
qed

lemma evict_ok:
  assumes "cache_ok cd src sz F c" "names_ok F" "codec_ok cd" "in_order fails" "\<And>xs. set (srt older xs) \<subseteq> set xs"
  shows "cache_ok cd src sz F (evict cd o' se srt fails now c)"
proof -
  define c1 where "c1 = cleanupItems cd o' now c"
  obtain xs tot c2 where S: "scanDiskCandidates cd se c1 = ((xs, tot), c2)"
    by (metis prod.exhaust_sel)
  obtain t n r d where E: "evictCandidates srt fails c2 now xs tot 0 = ((t, n), r, d)"
    by (metis prod.exhaust_sel)
  have "cache_ok cd src sz F c1"
    unfolding c1_def cleanupItems_def by (rule close_items_ok[OF assms(1-3)])
  from scan_ok[OF this S] have c2: "cache_ok cd src sz F c2" and x: "\<forall>x \<in> set xs. cand_of c2 x" .
  from evictCandidates_ok[OF c2 assms(2,4) x assms(5) E]
  have "cache_ok cd src sz F (c2\<lparr>cTotalSize := t, cDisk := d\<rparr>)" by (simp add: cache_ok_def)
  then show ?thesis using c2 by (simp add: evict_def c1_def[symmetric] S E Let_def)
qed

lemma Close_cache_ok:
  assumes c: "cache_ok cd src sz F c" and F: "names_ok F" "codec_ok cd"
  shows "cache_ok cd src sz F (Close_cache cd o' c)"
proof -
  let ?close = "\<lambda>(k, it) d. snd (Close_item cd (fst (o' k)) (snd (o' k)) it d)"
  have "disk_true cd src sz F (fold ?close xs d)"
    if "disk_true cd src sz F d"
      "\<forall>(k, it) \<in> set xs. data_path it \<in> F \<and> \<not> itClosed it \<and> linked_ok src sz d it" for xs d
    using that
  proof (induction xs arbitrary: d)
    case (Cons x xs)
    obtain k it where x: "x = (k, it)" by (cases x) auto
    have ok: "disk_ok d" using Cons.prems(1) by (simp add: disk_true_def)
    let ?d = "snd (Close_item cd (fst (o' k)) (snd (o' k)) it d)"
    note fr = Close_item_frame[OF ok, of it cd "fst (o' k)" "snd (o' k)"]
    have it: "data_path it \<in> F" "\<not> itClosed it" "linked_ok src sz d it" using Cons.prems(2) x by auto
    have "disk_true cd src sz F ?d"
      by (rule disk_true_flush[OF F(2,1) Cons.prems(1) it(3,1) fr(1) fr(2)[OF it(2)]])
    moreover have "\<forall>(k, it) \<in> set xs. data_path it \<in> F \<and> \<not> itClosed it \<and> linked_ok src sz ?d it"
      using Cons.prems(2) linked_flush[OF F(1) ok fr(1)] by auto
    ultimately show ?case using Cons.IH x by simp
  qed simp
  moreover have "\<forall>(k, it) \<in> set (cItems c). data_path it \<in> F \<and> \<not> itClosed it \<and> linked_ok src sz (cDisk c) it"
    using cache_okD(5-7)[OF c] by blast
  ultimately have "disk_true cd src sz F (fold ?close (cItems c) (cDisk c))"
    using cache_okD(1)[OF c] by blast
  then show ?thesis by (intro cache_okI) (simp_all add: Close_cache_def)
qed

section \<open>Every run of the cache\<close>

text \<open>
  One operation of the cache. A file is always opened with its own size, and what is written is what the
  remote file has at that offset. \<open>restarted\<close> is a crash as well as a restart after \<open>closed\<close>: the map is
  lost, the disk stays.
\<close>

inductive cache_step ::
  "codec \<Rightarrow> (fpath \<Rightarrow> nat \<Rightarrow> byte) \<Rightarrow> (fpath \<Rightarrow> int) \<Rightarrow> fpath set \<Rightarrow> vcache \<Rightarrow> vcache \<Rightarrow> bool"
  for cd src sz F where
  got: "(e, f) \<in> F \<Longrightarrow> GetItem cd o' now1 now2 now3 c e f (sz (e, f)) = (res, c') \<Longrightarrow> cache_step cd src sz F c c'"
| was_opened: "map_of (cItems c) k = Some it \<Longrightarrow>
    cache_step cd src sz F c (c\<lparr>cItems := AList.update k (Open_item now it) (cItems c)\<rparr>)"
| released: "map_of (cItems c) k = Some it \<Longrightarrow>
    cache_step cd src sz F c (c\<lparr>cItems := AList.update k (fst (Release it)) (cItems c)\<rparr>)"
| wrote: "map_of (cItems c) k = Some it \<Longrightarrow> 0 \<le> off \<Longrightarrow> off + int (length p) \<le> sz (data_path it) \<Longrightarrow>
    (\<And>i. i < length p \<Longrightarrow> p ! i = src (data_path it) (nat off + i)) \<Longrightarrow>
    WriteAtNoOverwrite wr it (cDisk c) p off = Some (r, it', d') \<Longrightarrow>
    cache_step cd src sz F c (c\<lparr>cItems := AList.update k it' (cItems c), cDisk := d'\<rparr>)"
| flushed: "map_of (cItems c) k = Some it \<Longrightarrow> flushMetadata cd o' force it (cDisk c) = (it', d') \<Longrightarrow>
    cache_step cd src sz F c (c\<lparr>cItems := AList.update k it' (cItems c), cDisk := d'\<rparr>)"
| did_evict: "in_order fails \<Longrightarrow> (\<And>xs. set (srt older xs) \<subseteq> set xs) \<Longrightarrow>
    cache_step cd src sz F c (evict cd o'' se srt fails now c)"
| closed: "cache_step cd src sz F c (Close_cache cd o'' c)"
| restarted: "cache_step cd src sz F c (NewCache expiry maxSize (cDisk c))"
| hit: "cache_step cd src sz F c (RecordCacheHit c)"
| miss: "cache_step cd src sz F c (RecordCacheMiss c)"
| downloaded: "cache_step cd src sz F c (AddDownloadedBytes n c)"
| sampled: "cache_step cd src sz F c (updateSpeed now c)"

inductive cache_run ::
  "codec \<Rightarrow> (fpath \<Rightarrow> nat \<Rightarrow> byte) \<Rightarrow> (fpath \<Rightarrow> int) \<Rightarrow> fpath set \<Rightarrow> vcache \<Rightarrow> bool"
  for cd src sz F where
  start: "cache_run cd src sz F (NewCache expiry maxSize empty_disk)"
| next_op: "cache_run cd src sz F c \<Longrightarrow> cache_step cd src sz F c c' \<Longrightarrow> cache_run cd src sz F c'"

lemma cache_ok_counters:
  "cache_ok cd src sz F (RecordCacheHit c) = cache_ok cd src sz F c"
  "cache_ok cd src sz F (RecordCacheMiss c) = cache_ok cd src sz F c"
  "cache_ok cd src sz F (AddDownloadedBytes n c) = cache_ok cd src sz F c"
  "cache_ok cd src sz F (updateSpeed now c) = cache_ok cd src sz F c"
  by (simp_all add: cache_ok_def RecordCacheHit_def RecordCacheMiss_def AddDownloadedBytes_def
      updateSpeed_def Let_def)

lemma cache_step_ok:
  assumes "cache_step cd src sz F c c'" "cache_ok cd src sz F c" "names_ok F" "codec_ok cd"
    and "\<forall>p \<in> F. 0 \<le> sz p \<and> sz p < 2 ^ 63"
  shows "cache_ok cd src sz F c'"
  using assms
proof (induction rule: cache_step.induct)
  case (got e f o' now1 now2 now3 c res c')
  then have "0 \<le> sz (e, f)" "sz (e, f) < 2 ^ 63" by auto
  from GetItem_ok[where sz = sz, OF got(3,4,1) refl this got(2)] show ?case by blast
next
  case (was_opened c k it now)
  show ?case
    by (rule touch_item_ok[OF was_opened(2,3) map_of_SomeD[OF was_opened(1)], of _ now])
      (simp_all add: same_file_def Open_item_def touch_def)
next
  case (released c k it)
  show ?case
    by (rule touch_item_ok[OF released(2,3) map_of_SomeD[OF released(1)], of _ "iATime (itInfo it)"])
      (simp_all add: same_file_def Release_def Let_def)
next
  case (wrote c k it off p wr r it' d')
  show ?case by (rule write_item_ok[OF wrote(6,7) map_of_SomeD[OF wrote(1)] wrote(2-5)])
next
  case (flushed c k it o' force it' d')
  show ?case by (rule flush_item_ok[OF flushed(3-5) map_of_SomeD[OF flushed(1)] flushed(2)])
next
  case (did_evict fails srt c o'' se now)
  show ?case by (rule evict_ok[where srt = srt, OF did_evict(3-5,1,2)])
next
  case (closed c o'')
  then show ?case by (intro Close_cache_ok)
next
  case (restarted c expiry maxSize)
  then show ?case by (intro cache_okI) (simp_all add: NewCache_def cache_ok_def)
qed (simp_all add: cache_ok_counters)

lemma cache_run_ok:
  assumes "cache_run cd src sz F c" "names_ok F" "codec_ok cd" "\<forall>p \<in> F. 0 \<le> sz p \<and> sz p < 2 ^ 63"
  shows "cache_ok cd src sz F c"
  using assms
proof (induction rule: cache_run.induct)
  case (start expiry maxSize)
  have "node_at empty_disk p = None" for p by (simp add: node_at_def empty_disk_def dir_of_def)
  then show ?case
    by (intro cache_okI)
      (simp_all add: NewCache_def disk_true_def disk_ok_def stored_ok_def fs_content_def)
next
  case (next_op c c')
  then show ?case using cache_step_ok by blast
qed

end
