(* ===== verification/Vfs_Races.thy ===== *)
theory Vfs_Races
  imports Vfs_Evict
begin

text \<open>
  What the invariant of the disk cache gives a reader, on a concrete codec for the metadata, and the two
  ways in which the code leaves it: an eviction between whose scan and removal a
  file is opened, and a removal that takes the data file and not its metadata.
\<close>

text \<open>The literals, evaluated once.\<close>

lemma literals [code]:
  "dot_json = [46, 106, 115, 111, 110]" "dot_tmp = [46, 116, 109, 112]"
  "buildCacheKey e f = e @ 47 # f"
proof -
  have "gs ''/'' = [47]" by code_simp
  then show "buildCacheKey e f = e @ 47 # f" by (simp add: buildCacheKey_def)
qed code_simp+

section \<open>A codec\<close>

definition enc_int :: "int \<Rightarrow> byte list" where
  "enc_int i = (if i < 0 then 1 else 0) # replicate (nat \<bar>i\<bar>) 1 @ [0]"

fun dec_int :: "byte list \<Rightarrow> (int \<times> byte list) option" where
  "dec_int [] = None"
| "dec_int (b # bs) =
     (let n = length (takeWhile (\<lambda>x. x = 1) bs)
      in Some (if b = 1 then - int n else int n, drop (Suc n) bs))"

lemma dec_enc_int: "dec_int (enc_int i @ r) = Some (i, r)"
  by (simp add: enc_int_def takeWhile_append Let_def)

fun enc_ranges :: "range list \<Rightarrow> byte list" where
  "enc_ranges [] = [0]"
| "enc_ranges (r # rs) = 1 # enc_int (rPos r) @ enc_int (rSize r) @ enc_ranges rs"

fun dec_ranges :: "byte list \<Rightarrow> byte list \<Rightarrow> (range list \<times> byte list) option" where
  "dec_ranges [] bs = None"
| "dec_ranges (_ # n) [] = None"
| "dec_ranges (_ # n) (b # bs) =
     (if b = 0 then Some ([], bs)
      else case dec_int bs of None \<Rightarrow> None
        | Some (p, bs) \<Rightarrow> (case dec_int bs of None \<Rightarrow> None
            | Some (s, bs) \<Rightarrow> (case dec_ranges n bs of None \<Rightarrow> None
                | Some (rs, bs) \<Rightarrow> Some (\<lparr>rPos = p, rSize = s\<rparr> # rs, bs))))"

lemma dec_enc_ranges: "length rs < length n \<Longrightarrow> dec_ranges n (enc_ranges rs @ r) = Some (rs, r)"
proof (induction rs arbitrary: n)
  case Nil
  then show ?case by (cases n) auto
next
  case (Cons a rs)
  then obtain x m where "n = x # m" "length rs < length m" by (cases n) auto
  with Cons.IH show ?case by (simp add: dec_enc_int)
qed

lemma length_enc_ranges: "length rs < length (enc_ranges rs)"
  by (induction rs) auto

definition demo_codec :: codec where
  "demo_codec =
     \<lparr>marshal = (\<lambda>i. enc_int (iSize i) @ enc_int (iModTime i) @ enc_int (iATime i) @ enc_ranges (iRs i)),
      unmarshal = (\<lambda>bs. case dec_int bs of None \<Rightarrow> None
        | Some (n, bs) \<Rightarrow> (case dec_int bs of None \<Rightarrow> None
        | Some (m, bs) \<Rightarrow> (case dec_int bs of None \<Rightarrow> None
        | Some (a, bs) \<Rightarrow> (case dec_ranges bs bs of
            Some (rs, []) \<Rightarrow> Some \<lparr>iSize = n, iRs = rs, iModTime = m, iATime = a\<rparr>
          | _ \<Rightarrow> None))))\<rparr>"

lemma demo_codec_ok: "codec_ok demo_codec"
  using dec_enc_ranges[OF length_enc_ranges, of _ "[]"]
  by (simp add: codec_ok_def demo_codec_def dec_enc_int)

section \<open>Reads after any run\<close>

text \<open>C32. After any sequence of opens, closes, writes of remote bytes, metadata flushes, evictions, crashes
  and restarts, whichever calls into the operating system fail: when an item says that a range is
  present, reading it from the item's file gives the bytes of the remote file. Only one failure is
  excluded: a removal that succeeds for a data file and fails for its metadata.\<close>

theorem present_ranges_are_remote_bytes:
  assumes "cache_run cd src sz F c" "names_ok F" "codec_ok cd" "\<forall>p \<in> F. 0 \<le> sz p \<and> sz p < 2 ^ 63"
    and it: "map_of (cItems c) k = Some it" "HasRange it \<lparr>rPos = off, rSize = n\<rparr>"
    and r: "0 \<le> off" "0 \<le> n" "off + n \<le> sz (data_path it)"
  shows "\<exists>i. itFile it = Some i
    \<and> os_ReadAt (dData (cDisk c) i) (nat n) (nat off) = (map (src (data_path it)) [nat off..<nat (off + n)], False)"
proof -
  note D = cache_okD[OF cache_run_ok[OF assms(1-4)]] and m = map_of_SomeD[OF it(1)]
  obtain i where i: "itFile it = Some i"
    "file_ok (src (data_path it)) (sz (data_path it)) (itInfo it) (dData (cDisk c) i)"
    using D(7)[OF m] by (auto simp: linked_ok_def)
  have "off + n < 2 ^ 63" using r assms(4) D(5)[OF m] by force
  then have "{off..<off + n} \<subseteq> covered (iRs (itInfo it))"
    using covered_range_Present[OF _ r(1)] i(2) it(2) by (simp add: HasRange_def file_ok_def)
  from read_present[OF i(2) r this] i(1) show ?thesis by blast
qed

definition demo_src :: "fpath \<Rightarrow> nat \<Rightarrow> byte" where
  "demo_src p i = of_nat (i + 5)"

definition demo_path :: fpath where
  "demo_path = ([65], [66])"

definition demo_file :: "fpath set" where
  "demo_file = {demo_path}"

text \<open>Open the file of four bytes, write the last two, close the cache, start again, and open it.\<close>

definition demo_c1 :: vcache where
  "demo_c1 = snd (GetItem demo_codec io_ok 1 1 1 (NewCache 0 0 empty_disk) [65] [66] 4)"

definition demo_write :: "vcache \<Rightarrow> int \<Rightarrow> byte list \<Rightarrow> vcache" where
  "demo_write c off p =
     (case the (WriteAtNoOverwrite (\<lambda>_. None) (the (map_of (cItems c) (buildCacheKey [65] [66]))) (cDisk c) p off) of
        (_, it', d') \<Rightarrow> c\<lparr>cItems := AList.update (buildCacheKey [65] [66]) it' (cItems c), cDisk := d'\<rparr>)"

definition demo_c2 :: vcache where
  "demo_c2 = NewCache 0 0 (cDisk (Close_cache demo_codec (\<lambda>_. (io_ok, io_ok)) (demo_write demo_c1 2 [7, 8])))"

definition demo_c3 :: vcache where
  "demo_c3 = snd (GetItem demo_codec io_ok 1 1 1 demo_c2 [65] [66] 4)"

definition demo_item :: "vcache \<Rightarrow> item" where
  "demo_item c = the (map_of (cItems c) (buildCacheKey [65] [66]))"

definition demo_read :: "vcache \<Rightarrow> nat \<Rightarrow> nat \<Rightarrow> byte list \<times> bool" where
  "demo_read c n off = os_ReadAt (dData (cDisk c) (the (itFile (demo_item c)))) n off"

lemma demo_values:
  "map_of (cItems demo_c1) (buildCacheKey [65] [66]) \<noteq> None"
  "WriteAtNoOverwrite (\<lambda>_. None) (demo_item demo_c1) (cDisk demo_c1) [7, 8] 2 \<noteq> None"
  "map_of (cItems demo_c3) (buildCacheKey [65] [66]) \<noteq> None"
  "HasRange (demo_item demo_c3) \<lparr>rPos = 2, rSize = 2\<rparr>" "data_path (demo_item demo_c3) = demo_path"
  "data_path (demo_item demo_c1) = demo_path" "\<not> HasRange (demo_item demo_c3) \<lparr>rPos = 1, rSize = 2\<rparr>"
  by code_simp+

lemma demo_path_eq: "demo_path = ([65], [66])"
  by (simp add: demo_path_def)

lemma demo_runs:
  "cache_run demo_codec demo_src (\<lambda>_. 4) demo_file demo_c2"
  "cache_run demo_codec demo_src (\<lambda>_. 4) demo_file demo_c3"
proof -
  let ?run = "cache_run demo_codec demo_src (\<lambda>_. 4) demo_file"
  have "([65], [66]) \<in> demo_file" by (simp add: demo_file_def demo_path_def)
  note get = next_op[OF _ got[OF this prod.collapse[symmetric]], of demo_codec demo_src "\<lambda>_. 4"]
  have c1: "?run demo_c1" unfolding demo_c1_def by (rule get[OF start])
  obtain it where it: "map_of (cItems demo_c1) (buildCacheKey [65] [66]) = Some it" "it = demo_item demo_c1"
    using demo_values(1) by (auto simp: demo_item_def)
  obtain r it' d' where W: "WriteAtNoOverwrite (\<lambda>_. None) it (cDisk demo_c1) [7, 8] 2 = Some (r, it', d')"
    using demo_values(2) it(2) by auto
  have "?run (demo_c1\<lparr>cItems := AList.update (buildCacheKey [65] [66]) it' (cItems demo_c1), cDisk := d'\<rparr>)"
    by (rule next_op[OF c1 wrote[OF it(1) _ _ _ W]])
      (auto simp: it(2) demo_values demo_src_def demo_path_def less_Suc_eq nth_Cons')
  then have "?run (demo_write demo_c1 2 [7, 8])" using it(1) W by (simp add: demo_write_def)
  then show c2: "?run demo_c2" unfolding demo_c2_def by (rule next_op[OF next_op[OF _ closed] restarted])
  show "?run demo_c3" unfolding demo_c3_def by (rule get[OF c2])
qed

lemma demo_names: "names_ok demo_file"
  by (simp add: names_ok_def demo_file_def demo_path_def HasSuffix_def dot_json_def dot_tmp_def gs_def)

theorem present_ranges_are_remote_bytes_witness:
  "HasRange (demo_item demo_c3) \<lparr>rPos = 2, rSize = 2\<rparr> \<and> demo_read demo_c3 2 2 = ([7, 8], False)"
proof -
  obtain it where it: "map_of (cItems demo_c3) (buildCacheKey [65] [66]) = Some it" "it = demo_item demo_c3"
    using demo_values(3) by (auto simp: demo_item_def)
  have "\<exists>i. itFile it = Some i
    \<and> os_ReadAt (dData (cDisk demo_c3) i) (nat 2) (nat 2) = (map (demo_src (data_path it)) [nat 2..<nat (2 + 2)], False)"
    by (rule present_ranges_are_remote_bytes[OF demo_runs(2) demo_names demo_codec_ok _ it(1)])
      (simp_all add: it(2) demo_values)
  then show ?thesis
    by (auto simp: demo_read_def it(2) demo_values demo_src_def upt_rec)
qed

section \<open>An eviction while the file is opened\<close>

text \<open>
  \<open>evict\<close> scans the directory first and removes afterwards, and holds no lock in between; whether a file
  is in use is looked up during the scan. What other goroutines do between the two:
\<close>

inductive between_step ::
  "codec \<Rightarrow> (fpath \<Rightarrow> nat \<Rightarrow> byte) \<Rightarrow> (fpath \<Rightarrow> int) \<Rightarrow> fpath set \<Rightarrow> vcache \<Rightarrow> vcache \<Rightarrow> bool"
  for cd src sz F where
  b_got: "(e, f) \<in> F \<Longrightarrow> GetItem cd o' now1 now2 now3 c e f (sz (e, f)) = (res, c') \<Longrightarrow> between_step cd src sz F c c'"
| b_opened: "map_of (cItems c) k = Some it \<Longrightarrow>
    between_step cd src sz F c (c\<lparr>cItems := AList.update k (Open_item now it) (cItems c)\<rparr>)"
| b_released: "map_of (cItems c) k = Some it \<Longrightarrow>
    between_step cd src sz F c (c\<lparr>cItems := AList.update k (fst (Release it)) (cItems c)\<rparr>)"
| b_wrote: "map_of (cItems c) k = Some it \<Longrightarrow> 0 \<le> off \<Longrightarrow> off + int (length p) \<le> sz (data_path it) \<Longrightarrow>
    (\<And>i. i < length p \<Longrightarrow> p ! i = src (data_path it) (nat off + i)) \<Longrightarrow>
    WriteAtNoOverwrite wr it (cDisk c) p off = Some (r, it', d') \<Longrightarrow>
    between_step cd src sz F c (c\<lparr>cItems := AList.update k it' (cItems c), cDisk := d'\<rparr>)"
| b_flushed: "map_of (cItems c) k = Some it \<Longrightarrow> flushMetadata cd o' force it (cDisk c) = (it', d') \<Longrightarrow>
    between_step cd src sz F c (c\<lparr>cItems := AList.update k it' (cItems c), cDisk := d'\<rparr>)"

text \<open>
  The cache and the eviction that is under way: the time it started, its candidates and their total. No
  removal fails. Between two evictions every operation of the cache is possible; the program may end at
  any time.
\<close>

inductive evict_race ::
  "codec \<Rightarrow> (fpath \<Rightarrow> nat \<Rightarrow> byte) \<Rightarrow> (fpath \<Rightarrow> int) \<Rightarrow> fpath set
   \<Rightarrow> vcache \<times> (gotime \<times> cand list \<times> int) option \<Rightarrow> bool"
  for cd src sz F where
  quiet: "cache_run cd src sz F c \<Longrightarrow> evict_race cd src sz F (c, None)"
| scan: "evict_race cd src sz F (c, None) \<Longrightarrow>
    scanDiskCandidates cd se (cleanupItems cd o'' now c) = ((xs, tot), c') \<Longrightarrow>
    evict_race cd src sz F (c', Some (now, xs, tot))"
| meanwhile: "evict_race cd src sz F (c, Some e) \<Longrightarrow> between_step cd src sz F c c' \<Longrightarrow>
    evict_race cd src sz F (c', Some e)"
| nothing_to_do: "evict_race cd src sz F (c, Some (now, xs, tot)) \<Longrightarrow>
    cExpiry c \<le> 0 \<and> (cThreshold c \<le> 0 \<or> tot \<le> cThreshold c) \<Longrightarrow>
    evict_race cd src sz F (c, None)"
| removal: "evict_race cd src sz F (c, Some (now, xs, tot)) \<Longrightarrow>
    \<not> (cExpiry c \<le> 0 \<and> (cThreshold c \<le> 0 \<or> tot \<le> cThreshold c)) \<Longrightarrow> sort_Slice_ok srt \<Longrightarrow>
    evictCandidates srt (\<lambda>_. False) c now xs tot 0 = ((tot', n), gone, d) \<Longrightarrow>
    evict_race cd src sz F (c\<lparr>cTotalSize := tot', cDisk := d\<rparr>, None)"
| later: "evict_race cd src sz F (c, None) \<Longrightarrow> cache_step cd src sz F c c' \<Longrightarrow>
    evict_race cd src sz F (c', None)"
| ended: "evict_race cd src sz F (c, e) \<Longrightarrow>
    evict_race cd src sz F (NewCache expiry maxSize (cDisk c), None)"

text \<open>The directory the run above leaves: the data file and its metadata.\<close>

definition left_disk :: disk where
  "left_disk =
     (let m = [0, 1, 1, 1, 1, 0, 0, 1, 0, 0, 1, 0, 1, 0, 1, 1, 0, 0, 1, 1, 0, 0]
      in \<lparr>dDirs = [([65], [([66], FileN 0), ([66, 46, 106, 115, 111, 110], FileN 2)])],
          dData = (\<lambda>i. if i = 0 then [0, 0, 7, 8] else if i = 1 \<or> i = 2 then m else []), dNext = 3\<rparr>)"

lemma left_disk_rest:
  assumes "i \<noteq> 0" "i \<noteq> 1" "i \<noteq> 2"
  shows "dData (cDisk demo_c2) i = dData left_disk i"
  apply code_simp
  using assms by simp

lemma left_disk_left: "cDisk demo_c2 = left_disk"
proof -
  have "dDirs (cDisk demo_c2) = dDirs left_disk" "dNext (cDisk demo_c2) = dNext left_disk"
    and data: "dData (cDisk demo_c2) 0 = dData left_disk 0" "dData (cDisk demo_c2) 1 = dData left_disk 1"
    "dData (cDisk demo_c2) 2 = dData left_disk 2"
    by code_simp+
  moreover have "dData (cDisk demo_c2) i = dData left_disk i" for i
    using data left_disk_rest[of i] by metis
  ultimately show ?thesis by (intro disk.equality) (auto simp: fun_eq_iff)
qed

text \<open>
  The program starts again with an expiry, and the eviction at its start scans the file; the file is
  opened, the removal takes its names away, the item writes on and stores its metadata at the end.
\<close>

definition race_env :: scan_env where
  "race_env = \<lparr>seTop = False, seDir = (\<lambda>_. False), seRead = (\<lambda>_. False), seStat = (\<lambda>_. False),
     seMTime = (\<lambda>_. 1), seRmDir = (\<lambda>_. False)\<rparr>"

definition race_cache :: vcache where
  "race_cache = NewCache 1 0 left_disk"

definition race_scan :: "(cand list \<times> int) \<times> vcache" where
  "race_scan = scanDiskCandidates demo_codec race_env (cleanupItems demo_codec (\<lambda>_. (io_ok, io_ok)) 4 race_cache)"

definition race_cands :: "cand list" where
  "race_cands = fst (fst race_scan)"

definition race_open :: vcache where
  "race_open = snd (GetItem demo_codec io_ok 4 4 4 (snd race_scan) [65] [66] 4)"

definition race_removal :: "(int \<times> int) \<times> gostring set \<times> disk" where
  "race_removal = evictCandidates insertion_sort (\<lambda>_. False) race_open 4 race_cands (snd (fst race_scan)) 0"

definition race_evicted :: vcache where
  "race_evicted = race_open\<lparr>cTotalSize := fst (fst race_removal), cDisk := snd (snd race_removal)\<rparr>"

definition race_reopened :: vcache where
  "race_reopened = snd (GetItem demo_codec io_ok 5 5 5
     (NewCache 1 0 (cDisk (Close_cache demo_codec (\<lambda>_. (io_ok, io_ok)) (demo_write race_evicted 0 [5])))) [65] [66] 4)"

lemma race_values:
  "map_of (cItems race_evicted) (buildCacheKey [65] [66]) \<noteq> None"
  "WriteAtNoOverwrite (\<lambda>_. None) (demo_item race_evicted) (cDisk race_evicted) [5] 0 \<noteq> None"
  "data_path (demo_item race_evicted) = demo_path" "itDownloaders (demo_item race_evicted)"
  "fs_content (cDisk race_evicted) demo_path = None" "cExpiry race_open = 1"
  by code_simp+

lemma reopened_values:
  "map_of (cItems race_reopened) (buildCacheKey [65] [66]) \<noteq> None"
  "HasRange (demo_item race_reopened) \<lparr>rPos = 2, rSize = 2\<rparr>" "data_path (demo_item race_reopened) = demo_path"
  "demo_read race_reopened 2 2 = ([0, 0], False)" "itFile (demo_item race_reopened) \<noteq> None"
  by code_simp+

lemma race_runs:
  "evict_race demo_codec demo_src (\<lambda>_. 4) demo_file (race_evicted, None)"
  "evict_race demo_codec demo_src (\<lambda>_. 4) demo_file (race_reopened, None)"
proof -
  let ?race = "evict_race demo_codec demo_src (\<lambda>_. 4) demo_file"
  have F: "([65], [66]) \<in> demo_file" by (simp add: demo_file_def demo_path_def)
  have "?race (race_cache, None)"
    unfolding race_cache_def left_disk_left[symmetric] by (rule quiet[OF next_op[OF demo_runs(1) restarted]])
  then have "?race (snd race_scan, Some (4, race_cands, snd (fst race_scan)))"
    by (rule scan[of _ _ _ _ _ race_env "\<lambda>_. (io_ok, io_ok)" 4])
      (simp add: race_scan_def race_cands_def)
  then have "?race (race_open, Some (4, race_cands, snd (fst race_scan)))"
    by (rule meanwhile) (unfold race_open_def, rule b_got[OF F prod.collapse[symmetric]])
  then show ev: "?race (race_evicted, None)"
    unfolding race_evicted_def
    by (rule removal[OF _ _ insertion_sort_ok, where n = "snd (fst race_removal)" and gone = "fst (snd race_removal)"])
      (simp_all add: race_values race_removal_def)
  obtain it where it: "map_of (cItems race_evicted) (buildCacheKey [65] [66]) = Some it" "it = demo_item race_evicted"
    using race_values(1) by (auto simp: demo_item_def)
  obtain r it' d' where W: "WriteAtNoOverwrite (\<lambda>_. None) it (cDisk race_evicted) [5] 0 = Some (r, it', d')"
    using race_values(2) it(2) by auto
  have "?race (race_evicted\<lparr>cItems := AList.update (buildCacheKey [65] [66]) it' (cItems race_evicted), cDisk := d'\<rparr>, None)"
    by (rule later[OF ev wrote[OF it(1) _ _ _ W]]) (auto simp: it(2) race_values demo_src_def)
  then have "?race (demo_write race_evicted 0 [5], None)" using it(1) W by (simp add: demo_write_def)
  from later[OF later[OF this closed] restarted]
  show "?race (race_reopened, None)"
    unfolding race_reopened_def by (rule later[OF _ got[OF F prod.collapse[symmetric]]])
qed

text \<open>C37. An eviction allows what no sequence of whole operations does
  (\<open>present_ranges_are_remote_bytes\<close>): in the interleavings of its scan
  and its removal with the other operations, none of which fails, a file can lose its names while an
  item writes to it; and the metadata that the item then stores describes a data file that is gone, so
  that after the next opening an item says that a range is present, and a read of it succeeds with
  zeros instead of the bytes of the remote file.\<close>

theorem eviction_race_serves_zeros:
  "(\<exists>c k it. evict_race demo_codec demo_src (\<lambda>_. 4) demo_file (c, None)
      \<and> map_of (cItems c) k = Some it \<and> itDownloaders it \<and> fs_content (cDisk c) (data_path it) = None)
   \<and> (\<exists>c k it i off n. evict_race demo_codec demo_src (\<lambda>_. 4) demo_file (c, None)
      \<and> map_of (cItems c) k = Some it \<and> itFile it = Some i \<and> HasRange it \<lparr>rPos = off, rSize = n\<rparr>
      \<and> 0 \<le> off \<and> 0 \<le> n \<and> off + n \<le> 4
      \<and> os_ReadAt (dData (cDisk c) i) (nat n) (nat off) = (replicate (nat n) 0, False)
      \<and> map (demo_src (data_path it)) [nat off..<nat (off + n)] \<noteq> replicate (nat n) 0)"
proof (intro conjI)
  obtain it where "map_of (cItems race_evicted) (buildCacheKey [65] [66]) = Some it" "it = demo_item race_evicted"
    using race_values(1) by (auto simp: demo_item_def)
  with race_values race_runs(1)
  show "\<exists>c k it. evict_race demo_codec demo_src (\<lambda>_. 4) demo_file (c, None)
      \<and> map_of (cItems c) k = Some it \<and> itDownloaders it \<and> fs_content (cDisk c) (data_path it) = None"
    by (intro exI[of _ race_evicted] exI[of _ "buildCacheKey [65] [66]"] exI[of _ it]) simp
next
  obtain it i where it: "map_of (cItems race_reopened) (buildCacheKey [65] [66]) = Some it"
    "it = demo_item race_reopened" "itFile it = Some i"
    using reopened_values(1,5) by (auto simp: demo_item_def)
  have two: "replicate (nat 2) 0 = [0, 0 :: byte]" by code_simp
  have "map (demo_src demo_path) [nat 2..<nat (2 + 2)] = [7, 8]" by code_simp
  then have "map (demo_src demo_path) [nat 2..<nat (2 + 2)] \<noteq> replicate (nat 2) 0" unfolding two by simp
  moreover have "os_ReadAt (dData (cDisk race_reopened) i) (nat 2) (nat 2) = (replicate (nat 2) 0, False)"
    unfolding two using reopened_values(4) it(2,3) by (simp add: demo_read_def)
  ultimately show "\<exists>c k it i off n. evict_race demo_codec demo_src (\<lambda>_. 4) demo_file (c, None)
      \<and> map_of (cItems c) k = Some it \<and> itFile it = Some i \<and> HasRange it \<lparr>rPos = off, rSize = n\<rparr>
      \<and> 0 \<le> off \<and> 0 \<le> n \<and> off + n \<le> 4
      \<and> os_ReadAt (dData (cDisk c) i) (nat n) (nat off) = (replicate (nat n) 0, False)
      \<and> map (demo_src (data_path it)) [nat off..<nat (off + n)] \<noteq> replicate (nat n) 0"
    using it reopened_values(2,3) race_runs(2)
    by (intro exI[of _ race_reopened] exI[of _ "buildCacheKey [65] [66]"] exI[of _ it] exI[of _ i]
        exI[of _ 2] conjI) (simp_all del: nat_numeral)
qed

section \<open>A removal that stops half-way\<close>

definition half_evicted :: vcache where
  "half_evicted = (let c = NewCache 1 0 left_disk
     in c\<lparr>cDisk := snd (snd (evictCandidates insertion_sort (\<lambda>p. p = meta_of demo_path) c 4 race_cands 2 0))\<rparr>)"

definition half_reopened :: vcache where
  "half_reopened = snd (GetItem demo_codec io_ok 5 5 5 half_evicted [65] [66] 4)"

text \<open>The data file is removed first. Where the removal of the metadata fails, or the program ends
  between the two, the metadata describes a file that is gone, and opening it again trusts it.\<close>

lemma half_removed_pair_serves_zeros:
  "HasRange (demo_item half_reopened) \<lparr>rPos = 2, rSize = 2\<rparr> \<and> demo_read half_reopened 2 2 = ([0, 0], False)"
proof -
  have "HasRange (demo_item half_reopened) \<lparr>rPos = 2, rSize = 2\<rparr>" by code_simp
  moreover have "demo_read half_reopened 2 2 = ([0, 0], False)" by code_simp
  ultimately show ?thesis ..
qed

text \<open>Opening a file under the same name with another size keeps the ranges of the old one: after a shorter
  file of the same name the bytes cut off read as zeros and count as present.\<close>

definition resized :: vcache where
  "resized = (let restart = (\<lambda>c. NewCache 0 0 (cDisk (Close_cache demo_codec (\<lambda>_. (io_ok, io_ok)) c)))
     in snd (GetItem demo_codec io_ok 1 1 1
          (restart (snd (GetItem demo_codec io_ok 1 1 1 (NewCache 0 0 left_disk) [65] [66] 3))) [65] [66] 4))"

lemma resized_file_keeps_ranges:
  "HasRange (demo_item resized) \<lparr>rPos = 2, rSize = 2\<rparr> \<and> demo_read resized 2 2 = ([7, 0], False)"
proof -
  have "HasRange (demo_item resized) \<lparr>rPos = 2, rSize = 2\<rparr>" by code_simp
  moreover have "demo_read resized 2 2 = ([7, 0], False)" by code_simp
  ultimately show ?thesis ..
qed

section \<open>The reported size\<close>

text \<open>With expiry off, \<open>evict\<close> returns before it stores the total it has just computed, as long as that is
  not above the threshold: the reported size is not updated.\<close>

lemma size_not_reported_below_threshold:
  assumes "cExpiry c \<le> 0"
    and "scanDiskCandidates cd se (cleanupItems cd o' now c) = ((xs, tot), c')"
    and "tot \<le> cThreshold c'" "cExpiry c' = cExpiry c"
  shows "evict cd o' se srt fails now c = c'"
  using assms by (simp add: evict_def Let_def)

section \<open>The threshold\<close>

lemma bit_len_lower: "0 < n \<Longrightarrow> 2 ^ (bit_len n - 1) \<le> n"
proof (induction n rule: bit_len.induct)
  case (1 n)
  show ?case
  proof (cases "n div 2 = 0")
    case True
    then have "n = 1" using 1 by simp
    then show ?thesis by (simp add: bit_len.simps)
  next
    case False
    then have low: "2 ^ (bit_len (n div 2) - 1) \<le> n div 2" using 1 by simp
    have "0 < bit_len (n div 2)" using False by (subst bit_len.simps) simp
    then have b: "bit_len n - 1 = Suc (bit_len (n div 2) - 1)"
      using 1 by (subst bit_len.simps) simp
    have "(2::nat) ^ (bit_len n - 1) = 2 * 2 ^ (bit_len (n div 2) - 1)" by (simp only: b power_Suc)
    also have "\<dots> \<le> 2 * (n div 2)" using low by simp
    also have "\<dots> \<le> n" by simp
    finally show ?thesis .
  qed
qed

lemma round53_le: "round53 n * 2 ^ 53 \<le> n * (2 ^ 53 + 1)"
proof (cases "bit_len n \<le> 53")
  case True
  then show ?thesis by (simp add: round53_def)
next
  case False
  define s where "s = bit_len n - 53"
  define q r where "q = n div 2 ^ s" and "r = n mod 2 ^ s"
  have n: "n = q * 2 ^ s + r" by (simp only: q_def r_def div_mult_mod_eq)
  have r: "r < 2 ^ s" by (simp add: r_def)
  have "0 < n" using False by (cases n) (auto simp: bit_len.simps)
  moreover have "bit_len n - 1 = s + 52" using False by (simp add: s_def)
  ultimately have low: "2 ^ s * 2 ^ 52 \<le> n"
    using bit_len_lower[of n] by (simp only: power_add)
  have "round53 n = (if 2 * r > 2 ^ s \<or> (2 * r = 2 ^ s \<and> odd q) then q + 1 else q) * 2 ^ s"
    by (simp add: round53_def s_def q_def r_def Let_def)
  then have "2 * round53 n \<le> 2 * n + 2 ^ s"
    using n r by (auto simp: algebra_simps)
  then have "2 * round53 n * 2 ^ 52 \<le> (2 * n + 2 ^ s) * 2 ^ 52" by (rule mult_le_mono1)
  then show ?thesis using low by simp
qed

text \<open>The eviction threshold is at least 1 and at most the size that is set.\<close>

lemma evict_threshold_bounds:
  assumes "0 < m"
  shows "0 < evict_threshold m \<and> evict_threshold m \<le> m"
proof -
  define K :: nat where "K = 8106479329266893"
  define a where "a = round53 (nat m)"
  have "round53 (a * K) * 2 ^ 53 \<le> a * K * (2 ^ 53 + 1)" by (rule round53_le)
  then have "round53 (a * K) * 2 ^ 53 * 2 ^ 53 \<le> a * K * (2 ^ 53 + 1) * 2 ^ 53" by (rule mult_le_mono1)
  also have "\<dots> = (a * 2 ^ 53) * (K * (2 ^ 53 + 1))" by (simp add: algebra_simps)
  also have "\<dots> \<le> (nat m * (2 ^ 53 + 1)) * (K * (2 ^ 53 + 1))"
    unfolding a_def by (rule mult_le_mono1[OF round53_le])
  also have "\<dots> = nat m * (K * (2 ^ 53 + 1) * (2 ^ 53 + 1))" by (simp add: algebra_simps)
  also have "\<dots> \<le> nat m * (2 ^ 53 * 2 ^ 53 * 2 ^ 53)" by (rule mult_le_mono2) (simp add: K_def)
  finally have "round53 (a * K) \<le> nat m * 2 ^ 53" by simp
  then have "round53 (a * K) div 2 ^ 53 \<le> nat m" by (metis div_le_mono nonzero_mult_div_cancel_right power_not_zero zero_neq_numeral)
  then have "scaled_size m \<le> m" using assms by (simp add: scaled_size_def a_def K_def)
  then show ?thesis using assms by (simp add: evict_threshold_def Let_def)
qed

lemma evict_threshold_small: "evict_threshold 1 = 1" "evict_threshold 100 = 90"
  by (simp_all add: evict_threshold_def scaled_size_def round53_def bit_len.simps)

end
