(* ===== verification/Go_Errors.thy ===== *)
theory Go_Errors
  imports Go_Std
begin

text \<open>
  Error values and their classification: \<open>internal/customerror\<close> (which errors are retried, which are
  logged), \<open>internal/nntp/errors.go\<close> and \<open>pkg/manager/link/errors.go\<close>. An error is a tree of the kinds
  the code distinguishes; its text is that of its \<open>Error\<close> method. Errors made by \<open>errors.New\<close> are equal
  here when their texts are, which the code compares only for the fixed errors named below.
\<close>

section \<open>Error values\<close>

datatype sentinel = IoEOF | UnexpectedEOF | ClosedPipe | CtxCanceled | CtxDeadline | NetErrClosed | HandlerTimeout

datatype errno = EPIPE | ECONNRESET | ECONNREFUSED | ECONNABORTED | ETIMEDOUT | ENETUNREACH | EHOSTUNREACH

datatype nntp_type =
    TypeUnknown | TypeConnection | TypeAuthentication | TypeTimeout | TypeArticleNotFound
  | TypeGroupNotFound | TypePermissionDenied | TypeServerBusy | TypeInvalidCommand | TypeProtocol
  | TypeYencDecode | TypeNoAvailableConnection

datatype link_category = CategoryPermanent | CategoryRetryable | CategoryRefetchable | CategoryAccountIssue

record custom_fields =
  cf_silent :: bool
  cf_status :: int
  cf_code :: gostring
  cf_headersWritten :: bool
  cf_retry :: bool
  cf_permanent :: bool

text \<open>
  \<open>Wrap\<close> is \<open>fmt.Errorf\<close> with \<open>%w\<close>, with the text of the whole message; \<open>OpError\<close> is \<open>*net.OpError\<close> and
  \<open>NetError\<close> any other \<open>net.Error\<close>, with text and \<open>Timeout\<close>.
\<close>

datatype gerr =
    Sentinel sentinel
  | Errno errno
  | Text gostring
  | Wrap gostring gerr
  | OpError gostring bool gerr
  | NetError gostring bool "gerr option"
  | Custom custom_fields gerr
  | Nntp nntp_type int gostring "gerr option"
  | Link link_category gostring gerr

fun unwrap :: "gerr \<Rightarrow> gerr option" where
  "unwrap (Wrap _ e) = Some e"
| "unwrap (OpError _ _ e) = Some e"
| "unwrap (NetError _ _ e) = e"
| "unwrap (Custom _ e) = Some e"
| "unwrap (Nntp _ _ _ e) = e"
| "unwrap (Link _ _ e) = Some e"
| "unwrap _ = None"

fun sentinel_text :: "sentinel \<Rightarrow> gostring" where
  "sentinel_text IoEOF = gs ''EOF''"
| "sentinel_text UnexpectedEOF = gs ''unexpected EOF''"
| "sentinel_text ClosedPipe = gs ''io: read/write on closed pipe''"
| "sentinel_text CtxCanceled = gs ''context canceled''"
| "sentinel_text CtxDeadline = gs ''context deadline exceeded''"
| "sentinel_text NetErrClosed = gs ''use of closed network connection''"
| "sentinel_text HandlerTimeout = gs ''http: Handler timeout''"

fun errno_text :: "errno \<Rightarrow> gostring" where
  "errno_text EPIPE = gs ''broken pipe''"
| "errno_text ECONNRESET = gs ''connection reset by peer''"
| "errno_text ECONNREFUSED = gs ''connection refused''"
| "errno_text ECONNABORTED = gs ''software caused connection abort''"
| "errno_text ETIMEDOUT = gs ''connection timed out''"
| "errno_text ENETUNREACH = gs ''network is unreachable''"
| "errno_text EHOSTUNREACH = gs ''no route to host''"

text \<open>\<open>%d\<close> of an \<open>int\<close>.\<close>

fun digits :: "nat \<Rightarrow> gostring" where
  "digits n = (if n < 10 then [48 + of_nat n] else digits (n div 10) @ [48 + of_nat (n mod 10)])"

declare digits.simps [simp del]

definition itoa :: "int \<Rightarrow> gostring" where
  "itoa i = (if i < 0 then 45 # digits (nat (- i)) else digits (nat i))"

fun nntp_String :: "nntp_type \<Rightarrow> gostring" where
  "nntp_String TypeConnection = gs ''CONNECTION''"
| "nntp_String TypeAuthentication = gs ''AUTHENTICATION''"
| "nntp_String TypeTimeout = gs ''TIMEOUT''"
| "nntp_String TypeArticleNotFound = gs ''ARTICLE_NOT_FOUND''"
| "nntp_String TypeGroupNotFound = gs ''GROUP_NOT_FOUND''"
| "nntp_String TypePermissionDenied = gs ''PERMISSION_DENIED''"
| "nntp_String TypeServerBusy = gs ''SERVER_BUSY''"
| "nntp_String TypeInvalidCommand = gs ''INVALID_COMMAND''"
| "nntp_String TypeProtocol = gs ''PROTOCOL''"
| "nntp_String TypeYencDecode = gs ''YENC_DECODE''"
| "nntp_String _ = gs ''UNKNOWN''"

fun err_text :: "gerr \<Rightarrow> gostring" where
  "err_text (Sentinel s) = sentinel_text s"
| "err_text (Errno n) = errno_text n"
| "err_text (Text t) = t"
| "err_text (Wrap t _) = t"
| "err_text (OpError t _ _) = t"
| "err_text (NetError t _ _) = t"
| "err_text (Custom _ e) = err_text e"
| "err_text (Nntp t code msg e) =
     gs ''NNTP '' @ nntp_String t @ gs '' (code '' @ itoa code @ gs ''): '' @ msg
     @ (case e of None \<Rightarrow> [] | Some e \<Rightarrow> gs '' - '' @ err_text e)"
| "err_text (Link _ code e) = (if code \<noteq> [] then code @ gs '': '' @ err_text e else err_text e)"

text \<open>\<open>errors.As\<close>: the first error along the chain of the wanted type.\<close>

fun as_custom :: "gerr \<Rightarrow> custom_fields option" where
  "as_custom (Custom c e) = Some c"
| "as_custom (Wrap _ e) = as_custom e"
| "as_custom (OpError _ _ e) = as_custom e"
| "as_custom (NetError _ _ (Some e)) = as_custom e"
| "as_custom (Nntp _ _ _ (Some e)) = as_custom e"
| "as_custom (Link _ _ e) = as_custom e"
| "as_custom _ = None"

fun as_nntp :: "gerr \<Rightarrow> nntp_type option" where
  "as_nntp (Nntp t _ _ _) = Some t"
| "as_nntp (Wrap _ e) = as_nntp e"
| "as_nntp (OpError _ _ e) = as_nntp e"
| "as_nntp (NetError _ _ (Some e)) = as_nntp e"
| "as_nntp (Custom _ e) = as_nntp e"
| "as_nntp (Link _ _ e) = as_nntp e"
| "as_nntp _ = None"

fun as_link :: "gerr \<Rightarrow> (link_category \<times> gostring) option" where
  "as_link (Link c code _) = Some (c, code)"
| "as_link (Wrap _ e) = as_link e"
| "as_link (OpError _ _ e) = as_link e"
| "as_link (NetError _ _ (Some e)) = as_link e"
| "as_link (Custom _ e) = as_link e"
| "as_link (Nntp _ _ _ (Some e)) = as_link e"
| "as_link _ = None"

text \<open>The first \<open>*net.OpError\<close> (its \<open>Err\<close>), and the first \<open>net.Error\<close> (its \<open>Timeout\<close>).\<close>

fun as_op :: "gerr \<Rightarrow> gerr option" where
  "as_op (OpError _ _ e) = Some e"
| "as_op (Wrap _ e) = as_op e"
| "as_op (NetError _ _ (Some e)) = as_op e"
| "as_op (Custom _ e) = as_op e"
| "as_op (Nntp _ _ _ (Some e)) = as_op e"
| "as_op (Link _ _ e) = as_op e"
| "as_op _ = None"

fun as_net :: "gerr \<Rightarrow> bool option" where
  "as_net (OpError _ t _) = Some t"
| "as_net (NetError _ t _) = Some t"
| "as_net (Errno n) = Some (n = ETIMEDOUT)"
| "as_net (Sentinel CtxDeadline) = Some True"
| "as_net (Sentinel NetErrClosed) = Some False"
| "as_net (Wrap _ e) = as_net e"
| "as_net (Custom _ e) = as_net e"
| "as_net (Nntp _ _ _ (Some e)) = as_net e"
| "as_net (Link _ _ e) = as_net e"
| "as_net _ = None"

text \<open>\<open>Error.Is\<close> of the NNTP errors: the target has an NNTP error of the same type in its chain.\<close>

definition nntp_Is :: "nntp_type \<Rightarrow> gerr \<Rightarrow> bool" where
  "nntp_Is t target = (as_nntp target = Some t)"

text \<open>\<open>errors.Is\<close>: equality, or the \<open>Is\<close> method, along the chain.\<close>

fun errors_Is :: "gerr \<Rightarrow> gerr \<Rightarrow> bool" where
  "errors_Is (Wrap m e) target \<longleftrightarrow> Wrap m e = target \<or> errors_Is e target"
| "errors_Is (OpError m t e) target \<longleftrightarrow> OpError m t e = target \<or> errors_Is e target"
| "errors_Is (NetError m t (Some e)) target \<longleftrightarrow> NetError m t (Some e) = target \<or> errors_Is e target"
| "errors_Is (Custom c e) target \<longleftrightarrow> Custom c e = target \<or> errors_Is e target"
| "errors_Is (Nntp t code m (Some e)) target \<longleftrightarrow>
     Nntp t code m (Some e) = target \<or> nntp_Is t target \<or> errors_Is e target"
| "errors_Is (Nntp t code m None) target \<longleftrightarrow> Nntp t code m None = target \<or> nntp_Is t target"
| "errors_Is (Link c code e) target \<longleftrightarrow> Link c code e = target \<or> errors_Is e target"
| "errors_Is e target \<longleftrightarrow> e = target"

section \<open>\<open>internal/customerror\<close>\<close>

text \<open>\<open>strings.HasPrefix\<close> and \<open>strings.Contains\<close>\<close>

fun starts_with :: "gostring \<Rightarrow> gostring \<Rightarrow> bool" where
  "starts_with s [] = True"
| "starts_with [] (c # cs) = False"
| "starts_with (b # s) (c # cs) = (if b = c then starts_with s cs else False)"

fun Contains :: "gostring \<Rightarrow> gostring \<Rightarrow> bool" where
  "Contains [] sub = (sub = [])"
| "Contains (b # s) sub = (if starts_with (b # s) sub then True else Contains s sub)"

lemma starts_with_take: "starts_with s p \<longleftrightarrow> take (length p) s = p"
  by (induction s p rule: starts_with.induct) auto

lemma starts_with_append: "starts_with s p \<longleftrightarrow> (\<exists>t. s = p @ t)"
  unfolding starts_with_take by (metis append_eq_conv_conj append_take_drop_id)

lemma Contains_append: "Contains s sub \<longleftrightarrow> (\<exists>a b. s = a @ sub @ b)"
proof (induction s)
  case (Cons c s)
  show ?case (is "?l = ?r")
  proof
    assume ?l
    then consider t where "c # s = sub @ t" | a b where "s = a @ sub @ b"
      using Cons.IH by (auto simp: starts_with_append split: if_splits)
    then show ?r by cases (metis append_Nil append_Cons)+
  next
    assume ?r
    then obtain a b where "c # s = a @ sub @ b" by blast
    then show ?l
    proof (cases a)
      case Nil
      with \<open>c # s = a @ sub @ b\<close> have "starts_with (c # s) sub"
        unfolding starts_with_append by simp
      then show ?l by simp
    qed (use Cons.IH in auto)
  qed
qed simp

definition plain_fields :: custom_fields where
  "plain_fields = \<lparr>cf_silent = False, cf_status = 0, cf_code = [], cf_headersWritten = False,
     cf_retry = False, cf_permanent = False\<rparr>"

definition Retryable :: "custom_fields \<Rightarrow> custom_fields" where
  "Retryable c = c\<lparr>cf_retry := True\<rparr>"

definition Permanent :: "custom_fields \<Rightarrow> custom_fields" where
  "Permanent c = c\<lparr>cf_permanent := True\<rparr>"

definition IsRetryable :: "custom_fields \<Rightarrow> bool" where
  "IsRetryable c \<longleftrightarrow> cf_retry c \<and> \<not> cf_permanent c"

definition NewError :: "gerr \<Rightarrow> int \<Rightarrow> gostring \<Rightarrow> bool \<Rightarrow> bool \<Rightarrow> gerr" where
  "NewError e statusCode code silent headersWritten =
     Custom (plain_fields\<lparr>cf_silent := silent, cf_status := statusCode, cf_headersWritten := headersWritten\<rparr>) e"

definition NewSilentError :: "gerr \<Rightarrow> gerr" where
  "NewSilentError e = Custom (plain_fields\<lparr>cf_silent := True, cf_status := 500\<rparr>) e"

definition custom_NewPermanentError :: "gerr \<Rightarrow> gerr" where
  "custom_NewPermanentError e = Custom (Permanent (plain_fields\<lparr>cf_status := 500\<rparr>)) e"

definition NewArticleNotFoundError :: "gerr option \<Rightarrow> gerr" where
  "NewArticleNotFoundError e =
     Custom (Permanent plain_fields) (case e of None \<Rightarrow> Text (gs ''article not found'') | Some e \<Rightarrow> e)"

text \<open>\<open>FromError\<close>: the fields of the error that stands for \<open>e\<close>.\<close>

definition FromError :: "gerr \<Rightarrow> custom_fields" where
  "FromError e = (case as_custom e of Some c \<Rightarrow> c | None \<Rightarrow> plain_fields\<lparr>cf_status := 500\<rparr>)"

definition HosterUnavailableError :: gerr where
  "HosterUnavailableError =
     Custom (Retryable (plain_fields\<lparr>cf_status := 503, cf_code := gs ''hoster_unavailable''\<rparr>))
       (Text (gs ''hoster is unavailable''))"

definition UsenetSegmentMissingError :: gerr where
  "UsenetSegmentMissingError =
     Custom (plain_fields\<lparr>cf_status := 404, cf_code := gs ''usenet_segment_missing''\<rparr>)
       (Text (gs ''usenet segment is missing''))"

definition TrafficExceededError :: gerr where
  "TrafficExceededError =
     Custom (plain_fields\<lparr>cf_status := 503, cf_code := gs ''traffic_exceeded''\<rparr>)
       (Text (gs ''traffic limit exceeded''))"

definition TorrentNotFoundError :: gerr where
  "TorrentNotFoundError =
     Custom (plain_fields\<lparr>cf_status := 404, cf_code := gs ''torrent_not_found''\<rparr>)
       (Text (gs ''torrent not found''))"

definition TooManyActiveDownloadsError :: gerr where
  "TooManyActiveDownloadsError =
     Custom (Retryable (plain_fields\<lparr>cf_status := 509, cf_code := gs ''too_many_active_downloads''\<rparr>))
       (Text (gs ''too many active downloads''))"

definition IsSilentError :: "gerr \<Rightarrow> bool" where
  "IsSilentError e =
     (if errors_Is e (Sentinel IoEOF) \<or> errors_Is e (Sentinel UnexpectedEOF) \<or> errors_Is e (Sentinel CtxCanceled)
        \<or> errors_Is e (Sentinel CtxDeadline) \<or> errors_Is e (Sentinel NetErrClosed) \<or> errors_Is e (Errno ECONNABORTED)
        \<or> errors_Is e (Sentinel HandlerTimeout) \<or> errors_Is e (Sentinel ClosedPipe)
      then True
      else if (case as_op e of None \<Rightarrow> False
               | Some inner \<Rightarrow> errors_Is inner (Errno EPIPE) \<or> errors_Is inner (Errno ECONNRESET))
      then True
      else
        let msg = ToLower (err_text e)
        in if Contains msg (gs ''broken pipe'') \<or> Contains msg (gs ''connection reset'')
             \<or> Contains msg (gs ''client disconnected'')
           then True
           else (case as_custom e of Some c \<Rightarrow> cf_silent c | None \<Rightarrow> False))"

text \<open>\<open>Error.IsSilent\<close>\<close>

definition IsSilent :: "custom_fields \<Rightarrow> gerr \<Rightarrow> bool" where
  "IsSilent c e = (if cf_silent c then True else IsSilentError e)"

definition retriableErrorStrings :: "gostring list" where
  "retriableErrorStrings = map gs
     [''use of closed network connection'', ''unexpected EOF'', ''connection reset by peer'',
      ''connection refused'', ''broken pipe'', ''i/o timeout'', ''TLS handshake timeout'', ''no such host'',
      ''server misbehaving'', ''connection timed out'', ''network is unreachable'', ''no route to host'',
      ''transport connection broken'', ''http2: client connection lost'', ''http2: server sent GOAWAY'',
      ''http2: timeout awaiting'', ''stream error:'', ''bad record MAC'', ''server closed idle connection'',
      ''client connection force closed'', ''context deadline exceeded'']"

definition permanentErrorStrings :: "gostring list" where
  "permanentErrorStrings = map gs
     [''404'', ''not found'', ''403'', ''forbidden'', ''401'', ''unauthorized'', ''402'', ''payment required'',
      ''410'', ''gone'', ''invalid api key'', ''file not exist'', ''no such file'']"

definition IsPermanentError :: "gerr \<Rightarrow> bool" where
  "IsPermanentError e = (let errStr = ToLower (err_text e) in \<exists>pat \<in> set permanentErrorStrings. Contains errStr pat)"

definition nntp_IsRetryable :: "nntp_type \<Rightarrow> bool" where
  "nntp_IsRetryable t = (t = TypeConnection \<or> t = TypeTimeout \<or> t = TypeServerBusy)"

definition retriable_by_kind :: "gerr \<Rightarrow> bool" where
  "retriable_by_kind e \<longleftrightarrow>
     errors_Is e (Sentinel UnexpectedEOF) \<or> errors_Is e (Sentinel ClosedPipe) \<or> as_net e = Some True
     \<or> (\<exists>n \<in> {ECONNRESET, ECONNREFUSED, ECONNABORTED, EPIPE, ETIMEDOUT, ENETUNREACH, EHOSTUNREACH}.
          errors_Is e (Errno n))"

definition retriable_by_text :: "gerr \<Rightarrow> bool" where
  "retriable_by_text e = (\<exists>pat \<in> set retriableErrorStrings. Contains (ToLower (err_text e)) (ToLower pat))"

lemma unwrap_smaller: "unwrap e = Some e' \<Longrightarrow> size e' < size e"
  by (cases e rule: unwrap.cases) auto

function IsRetriableError :: "gerr \<Rightarrow> bool" where
  "IsRetriableError e =
     (case as_custom e of
        Some c \<Rightarrow> if cf_permanent c then False else IsRetryable c
      | None \<Rightarrow>
          (case e of
             Nntp t _ _ _ \<Rightarrow> nntp_IsRetryable t
           | _ \<Rightarrow>
             if IsPermanentError e then False
             else if errors_Is e (Sentinel CtxDeadline) then True
             else if errors_Is e (Sentinel CtxCanceled) then False
             else if retriable_by_kind e then True
             else if retriable_by_text e then True
             else (case unwrap e of
                     Some u \<Rightarrow> if \<not> errors_Is u e then IsRetriableError u else False
                   | None \<Rightarrow> False)))"
  by pat_completeness auto
termination
  by (relation "measure size") (auto dest: unwrap_smaller)

declare IsRetriableError.simps [simp del]

section \<open>\<open>internal/nntp/errors.go\<close>\<close>

definition ShouldStopParsing :: "nntp_type \<Rightarrow> bool" where
  "ShouldStopParsing t = (t = TypeAuthentication \<or> t = TypePermissionDenied)"

definition NewConnectionError :: "gerr \<Rightarrow> gerr" where
  "NewConnectionError e = Nntp TypeConnection 0 (gs ''connection failed'') (Some e)"

definition NewTimeoutError :: "gerr \<Rightarrow> gerr" where
  "NewTimeoutError e = Nntp TypeTimeout 0 (gs ''operation timed out'') (Some e)"

definition NewProtocolError :: "int \<Rightarrow> gostring \<Rightarrow> gerr" where
  "NewProtocolError code msg = Nntp TypeProtocol code msg None"

definition NewYencDecodeError :: "gerr \<Rightarrow> gerr" where
  "NewYencDecodeError e = Nntp TypeYencDecode 0 (gs ''yEnc decode failed'') (Some e)"

definition classifyNNTPError :: "int \<Rightarrow> gostring \<Rightarrow> gerr" where
  "classifyNNTPError code msg =
     Nntp (if code = 430 \<or> code = 423 then TypeArticleNotFound
           else if code = 411 then TypeGroupNotFound
           else if code = 502 then TypePermissionDenied
           else if code = 503 then TypeServerBusy
           else if code = 481 \<or> code = 482 then TypeAuthentication
           else if code = 400 then TypeServerBusy
           else if code = 500 \<or> code = 501 then TypeInvalidCommand
           else if code \<ge> 400 then TypeProtocol
           else TypeUnknown) code msg None"

definition IsArticleNotFoundError :: "gerr \<Rightarrow> bool" where
  "IsArticleNotFoundError e = (as_nntp e = Some TypeArticleNotFound)"

definition IsAuthenticationError :: "gerr \<Rightarrow> bool" where
  "IsAuthenticationError e = (as_nntp e = Some TypeAuthentication)"

definition nntp_IsRetryableError :: "gerr \<Rightarrow> bool" where
  "nntp_IsRetryableError e = (case as_nntp e of Some t \<Rightarrow> nntp_IsRetryable t | None \<Rightarrow> False)"

section \<open>\<open>pkg/manager/link/errors.go\<close>\<close>

definition ShouldRetry :: "link_category \<Rightarrow> bool" where
  "ShouldRetry c = (c = CategoryRetryable)"

definition ShouldRefetch :: "link_category \<Rightarrow> bool" where
  "ShouldRefetch c = (c = CategoryRefetchable)"

definition ShouldDisableAccount :: "link_category \<Rightarrow> bool" where
  "ShouldDisableAccount c = (c = CategoryAccountIssue)"

definition link_IsPermanent :: "link_category \<Rightarrow> bool" where
  "link_IsPermanent c = (c = CategoryPermanent)"

definition ErrorCodeToLinkError :: "gostring \<Rightarrow> gerr" where
  "ErrorCodeToLinkError code =
     (if code = gs ''link_not_found'' then Link CategoryPermanent code (Text (gs ''download link not found''))
      else if code \<in> set (map gs [''bandwidth_exceeded'', ''quota_exceeded'', ''daily_limit_exceeded'', ''bytes_limit_reached''])
      then Link CategoryAccountIssue code (Text (gs ''bandwidth limit exceeded''))
      else if code = gs ''link_expired'' then Link CategoryRefetchable code (Text (gs ''download link expired''))
      else if code = gs ''file_not_available''
      then Link CategoryPermanent code (Text (gs ''file not available for download''))
      else if code = gs ''invalid_download_code''
      then Link CategoryRefetchable code (Text (gs ''invalid download code''))
      else if code = gs ''401'' \<or> code = gs ''unauthorized''
      then Link CategoryPermanent code (Text (gs ''unauthorized access to download link''))
      else if code = gs ''404'' then Link CategoryPermanent code (Text (gs ''HTTP 404 Not Found''))
      else if code = gs ''429'' then Link CategoryRetryable code (Text (gs ''HTTP 429 Too Many Requests''))
      else if code = gs ''503'' then Link CategoryRetryable code (Text (gs ''HTTP 503 Service Unavailable''))
      else Link CategoryPermanent code (Text (gs ''unknown error code: '' @ code)))"

definition IsLinkError :: "gerr \<Rightarrow> bool" where
  "IsLinkError e = (as_link e \<noteq> None)"

definition GetLinkError :: "gerr \<Rightarrow> (link_category \<times> gostring) option" where
  "GetLinkError e = as_link e"

section \<open>The decision along a chain of wrapped errors\<close>

text \<open>What \<open>IsRetriableError\<close> reads of one error; \<open>None\<close> passes the question on to the error it wraps.\<close>

definition verdict :: "gerr \<Rightarrow> bool option" where
  "verdict e =
     (if IsPermanentError e then Some False
      else if errors_Is e (Sentinel CtxDeadline) then Some True
      else if errors_Is e (Sentinel CtxCanceled) then Some False
      else if retriable_by_kind e \<or> retriable_by_text e then Some True
      else None)"

fun err_chain :: "gerr \<Rightarrow> gerr list" where
  "err_chain (Wrap m e) = Wrap m e # err_chain e"
| "err_chain (OpError m t e) = OpError m t e # err_chain e"
| "err_chain (NetError m t (Some e)) = NetError m t (Some e) # err_chain e"
| "err_chain (Custom c e) = Custom c e # err_chain e"
| "err_chain (Nntp t code m (Some e)) = Nntp t code m (Some e) # err_chain e"
| "err_chain (Link c code e) = Link c code e # err_chain e"
| "err_chain e = [e]"

lemma err_chain_unwrap: "err_chain e = e # (case unwrap e of None \<Rightarrow> [] | Some u \<Rightarrow> err_chain u)"
  by (cases e rule: err_chain.cases) auto

fun first_decision :: "bool option list \<Rightarrow> bool" where
  "first_decision [] = False"
| "first_decision (None # vs) = first_decision vs"
| "first_decision (Some b # vs) = b"

fun is_nntp :: "gerr \<Rightarrow> bool" where
  "is_nntp (Nntp _ _ _ _) = True"
| "is_nntp _ = False"

lemma errors_Is_larger: "as_nntp target = None \<Longrightarrow> size e < size target \<Longrightarrow> \<not> errors_Is e target"
  by (induction e target rule: errors_Is.induct) (auto simp: nntp_Is_def)

lemma errors_Is_same_type: "as_nntp e = Some t \<Longrightarrow> as_nntp target = Some t \<Longrightarrow> errors_Is e target"
  by (induction e target rule: errors_Is.induct) (auto simp: nntp_Is_def)

lemma as_nntp_unwrap: "unwrap e = Some u \<Longrightarrow> \<not> is_nntp e \<Longrightarrow> as_nntp u = as_nntp e"
  by (cases e rule: unwrap.cases) auto

lemma as_custom_unwrap: "unwrap e = Some u \<Longrightarrow> as_custom e = None \<Longrightarrow> as_custom u = None"
  by (cases e rule: unwrap.cases) auto

lemma as_nntp_is_nntp: "as_nntp e = None \<Longrightarrow> \<not> is_nntp e"
  by (cases e) auto

lemma IsRetriableError_step:
  assumes "as_custom e = None" "\<not> is_nntp e"
  shows "IsRetriableError e =
    (case verdict e of
       Some b \<Rightarrow> b
     | None \<Rightarrow> (case unwrap e of
                  Some u \<Rightarrow> if \<not> errors_Is u e then IsRetriableError u else False
                | None \<Rightarrow> False))"
  using assms by (subst IsRetriableError.simps) (cases e; simp add: verdict_def)

lemma IsRetriableError_custom:
  "as_custom e = Some c \<Longrightarrow> IsRetriableError e = (cf_retry c \<and> \<not> cf_permanent c)"
  by (subst IsRetriableError.simps) (simp add: IsRetryable_def)

lemma IsRetriableError_nntp:
  "as_custom (Nntp t code m e) = None \<Longrightarrow> IsRetriableError (Nntp t code m e) = nntp_IsRetryable t"
  by (subst IsRetriableError.simps) simp

lemma IsRetriableError_plain:
  "as_custom e = None \<Longrightarrow> as_nntp e = None \<Longrightarrow>
   IsRetriableError e = first_decision (map verdict (err_chain e))"
proof (induction "size e" arbitrary: e rule: less_induct)
  case less
  show ?case
  proof (cases "unwrap e")
    case None
    then show ?thesis
      using less.prems as_nntp_is_nntp[of e]
      by (simp add: IsRetriableError_step err_chain_unwrap[of e] split: option.split)
  next
    case (Some u)
    have u: "size u < size e" "as_custom u = None" "as_nntp u = None"
      using Some less.prems unwrap_smaller as_custom_unwrap as_nntp_unwrap as_nntp_is_nntp by metis+
    then have "\<not> errors_Is u e" using errors_Is_larger less.prems by blast
    then show ?thesis
      using Some less.prems as_nntp_is_nntp[of e] less.hyps[OF u]
      by (simp add: IsRetriableError_step err_chain_unwrap[of e] split: option.split)
  qed
qed

lemma IsRetriableError_wrapped_nntp:
  assumes "as_custom e = None" "as_nntp e = Some t" "\<not> is_nntp e"
  shows "IsRetriableError e = (verdict e = Some True)"
proof (cases "unwrap e")
  case None
  then show ?thesis using assms by (cases e rule: unwrap.cases) auto
next
  case (Some u)
  then have "errors_Is u e" using assms as_nntp_unwrap errors_Is_same_type by metis
  with Some show ?thesis using assms by (simp add: IsRetriableError_step split: option.split)
qed

text \<open>C0. \<open>IsRetriableError\<close> against its specification, for every error: a \<open>customerror.Error\<close> anywhere
  in the chain decides by its flags; an NNTP error by its type; otherwise the errors are read from the
  outside in, and the first that says anything decides. An error that wraps an NNTP error is decided by
  what it says itself, and the type of the NNTP error is never read.\<close>

theorem IsRetriableError_spec:
  "IsRetriableError e =
     (case as_custom e of
        Some c \<Rightarrow> cf_retry c \<and> \<not> cf_permanent c
      | None \<Rightarrow>
          (case as_nntp e of
             None \<Rightarrow> first_decision (map verdict (err_chain e))
           | Some t \<Rightarrow> if is_nntp e then nntp_IsRetryable t else verdict e = Some True))"
proof (cases "as_custom e")
  case None
  show ?thesis
  proof (cases "as_nntp e")
    case (Some t)
    with None show ?thesis
      using IsRetriableError_wrapped_nntp[of e t]
      by (cases "is_nntp e") (cases e; simp add: IsRetriableError_nntp)+
  qed (simp add: None IsRetriableError_plain)
qed (simp add: IsRetriableError_custom)



text \<open>To evaluate the texts, their bytes are compared as integers.\<close>

fun int_starts :: "int list \<Rightarrow> int list \<Rightarrow> bool" where
  "int_starts s [] = True"
| "int_starts [] (c # cs) = False"
| "int_starts (b # s) (c # cs) = (if b = c then int_starts s cs else False)"

fun int_contains :: "int list \<Rightarrow> int list \<Rightarrow> bool" where
  "int_contains [] p = (p = [])"
| "int_contains (b # s) p = (if int_starts (b # s) p then True else int_contains s p)"

lemma int_starts: "int_starts (map uint s) (map uint p) = starts_with s p"
  by (induction s p rule: starts_with.induct) (auto simp: word_uint_eq_iff)

lemma int_contains: "int_contains (map uint s) (map uint p) = Contains s p"
  by (induction s p rule: Contains.induct) (use int_starts in \<open>force split: if_splits\<close>)+

definition transient_bytes :: "int list list" where
  "transient_bytes =
   [[117, 115, 101, 32, 111, 102, 32, 99, 108, 111, 115, 101, 100, 32, 110, 101, 116, 119, 111, 114, 107, 32, 99, 111, 110, 110, 101, 99, 116, 105, 111, 110],
    [117, 110, 101, 120, 112, 101, 99, 116, 101, 100, 32, 101, 111, 102],
    [99, 111, 110, 110, 101, 99, 116, 105, 111, 110, 32, 114, 101, 115, 101, 116, 32, 98, 121, 32, 112, 101, 101, 114],
    [99, 111, 110, 110, 101, 99, 116, 105, 111, 110, 32, 114, 101, 102, 117, 115, 101, 100],
    [98, 114, 111, 107, 101, 110, 32, 112, 105, 112, 101],
    [105, 47, 111, 32, 116, 105, 109, 101, 111, 117, 116],
    [116, 108, 115, 32, 104, 97, 110, 100, 115, 104, 97, 107, 101, 32, 116, 105, 109, 101, 111, 117, 116],
    [110, 111, 32, 115, 117, 99, 104, 32, 104, 111, 115, 116],
    [115, 101, 114, 118, 101, 114, 32, 109, 105, 115, 98, 101, 104, 97, 118, 105, 110, 103],
    [99, 111, 110, 110, 101, 99, 116, 105, 111, 110, 32, 116, 105, 109, 101, 100, 32, 111, 117, 116],
    [110, 101, 116, 119, 111, 114, 107, 32, 105, 115, 32, 117, 110, 114, 101, 97, 99, 104, 97, 98, 108, 101],
    [110, 111, 32, 114, 111, 117, 116, 101, 32, 116, 111, 32, 104, 111, 115, 116],
    [116, 114, 97, 110, 115, 112, 111, 114, 116, 32, 99, 111, 110, 110, 101, 99, 116, 105, 111, 110, 32, 98, 114, 111, 107, 101, 110],
    [104, 116, 116, 112, 50, 58, 32, 99, 108, 105, 101, 110, 116, 32, 99, 111, 110, 110, 101, 99, 116, 105, 111, 110, 32, 108, 111, 115, 116],
    [104, 116, 116, 112, 50, 58, 32, 115, 101, 114, 118, 101, 114, 32, 115, 101, 110, 116, 32, 103, 111, 97, 119, 97, 121],
    [104, 116, 116, 112, 50, 58, 32, 116, 105, 109, 101, 111, 117, 116, 32, 97, 119, 97, 105, 116, 105, 110, 103],
    [115, 116, 114, 101, 97, 109, 32, 101, 114, 114, 111, 114, 58],
    [98, 97, 100, 32, 114, 101, 99, 111, 114, 100, 32, 109, 97, 99],
    [115, 101, 114, 118, 101, 114, 32, 99, 108, 111, 115, 101, 100, 32, 105, 100, 108, 101, 32, 99, 111, 110, 110, 101, 99, 116, 105, 111, 110],
    [99, 108, 105, 101, 110, 116, 32, 99, 111, 110, 110, 101, 99, 116, 105, 111, 110, 32, 102, 111, 114, 99, 101, 32, 99, 108, 111, 115, 101, 100],
    [99, 111, 110, 116, 101, 120, 116, 32, 100, 101, 97, 100, 108, 105, 110, 101, 32, 101, 120, 99, 101, 101, 100, 101, 100]]"

definition permanent_bytes :: "int list list" where
  "permanent_bytes =
   [[52, 48, 52],
    [110, 111, 116, 32, 102, 111, 117, 110, 100],
    [52, 48, 51],
    [102, 111, 114, 98, 105, 100, 100, 101, 110],
    [52, 48, 49],
    [117, 110, 97, 117, 116, 104, 111, 114, 105, 122, 101, 100],
    [52, 48, 50],
    [112, 97, 121, 109, 101, 110, 116, 32, 114, 101, 113, 117, 105, 114, 101, 100],
    [52, 49, 48],
    [103, 111, 110, 101],
    [105, 110, 118, 97, 108, 105, 100, 32, 97, 112, 105, 32, 107, 101, 121],
    [102, 105, 108, 101, 32, 110, 111, 116, 32, 101, 120, 105, 115, 116],
    [110, 111, 32, 115, 117, 99, 104, 32, 102, 105, 108, 101]]"

lemma transient_bytes: "transient_bytes = map (map uint \<circ> ToLower) retriableErrorStrings"
  unfolding retriableErrorStrings_def by code_simp

lemma permanent_bytes: "permanent_bytes = map (map uint) permanentErrorStrings"
  by code_simp

lemma retriable_by_text_bytes [code]:
  "retriable_by_text e = (let m = map uint (ToLower (err_text e)) in list_ex (int_contains m) transient_bytes)"
  by (auto simp: retriable_by_text_def transient_bytes list_ex_iff int_contains)

lemma IsPermanentError_bytes [code]:
  "IsPermanentError e = (let m = map uint (ToLower (err_text e)) in list_ex (int_contains m) permanent_bytes)"
  by (auto simp: IsPermanentError_def permanent_bytes list_ex_iff int_contains)


section \<open>Transient errors that are not retried\<close>

text \<open>The wrapping of the reader (\<open>re-fetch segment %d: %w\<close>) and of the HTTP stream.\<close>

definition refetch_error :: "int \<Rightarrow> gerr \<Rightarrow> gerr" where
  "refetch_error segIdx e = Wrap (gs ''re-fetch segment '' @ itoa segIdx @ gs '': '' @ err_text e) e"

definition link_stream_error :: "gerr \<Rightarrow> gerr" where
  "link_stream_error e = Wrap (gs ''failed to get download link: '' @ err_text e) e"

lemma wrapped_busy_server:
  "IsRetriableError (classifyNNTPError 400 (gs ''too many connections''))
   \<and> \<not> IsRetriableError (refetch_error 7 (classifyNNTPError 400 (gs ''too many connections'')))"
  unfolding IsRetriableError_spec by code_simp

lemma segment_number_as_status:
  "IsRetriableError (refetch_error 405 (NetError (gs ''i/o timeout'') True None))
   \<and> \<not> IsRetriableError (refetch_error 404 (NetError (gs ''i/o timeout'') True None))"
  unfolding IsRetriableError_spec by code_simp

lemma link_stream_error_chain:
  "IsRetriableError (link_stream_error (Link c code (Text t))) =
     first_decision [verdict (link_stream_error (Link c code (Text t))), verdict (Link c code (Text t)), verdict (Text t)]"
  by (simp add: IsRetriableError_plain link_stream_error_def)

lemma rate_limit_errors:
  "ErrorCodeToLinkError (gs ''429'') = Link CategoryRetryable (gs ''429'') (Text (gs ''HTTP 429 Too Many Requests''))"
  "ErrorCodeToLinkError (gs ''503'') = Link CategoryRetryable (gs ''503'') (Text (gs ''HTTP 503 Service Unavailable''))"
  by code_simp+

lemma rate_limit_verdicts:
  "verdict (Text (gs ''HTTP 429 Too Many Requests'')) = None"
  "verdict (Link CategoryRetryable (gs ''429'') (Text (gs ''HTTP 429 Too Many Requests''))) = None"
  "verdict (link_stream_error (Link CategoryRetryable (gs ''429'') (Text (gs ''HTTP 429 Too Many Requests'')))) = None"
  "verdict (Text (gs ''HTTP 503 Service Unavailable'')) = None"
  "verdict (Link CategoryRetryable (gs ''503'') (Text (gs ''HTTP 503 Service Unavailable''))) = None"
  "verdict (link_stream_error (Link CategoryRetryable (gs ''503'') (Text (gs ''HTTP 503 Service Unavailable'')))) = None"
  by code_simp+

lemma rate_limit_is_final:
  "ShouldRetry CategoryRetryable
   \<and> \<not> IsRetriableError (link_stream_error (ErrorCodeToLinkError (gs ''429'')))
   \<and> \<not> IsRetriableError (link_stream_error (ErrorCodeToLinkError (gs ''503'')))"
  by (simp add: rate_limit_errors link_stream_error_chain rate_limit_verdicts ShouldRetry_def)

section \<open>What the constructors make\<close>

text \<open>\<open>NewError\<close> drops its argument \<open>code\<close>.\<close>

lemma NewError_ignores_code: "NewError e status code silent written = NewError e status code' silent written"
  by (simp add: NewError_def)

lemma NewError_code: "as_custom (NewError e status code silent written) = Some c \<Longrightarrow> cf_code c = []"
  by (auto simp: NewError_def plain_fields_def)

text \<open>Only 400 and 503 are worth a retry; only authentication and permission errors stop the parser.\<close>

lemma classifyNNTPError_retry:
  "IsRetriableError (classifyNNTPError code msg) \<longleftrightarrow> code = 400 \<or> code = 503"
  by (simp add: IsRetriableError_nntp classifyNNTPError_def nntp_IsRetryable_def)

lemma classifyNNTPError_missing:
  "IsArticleNotFoundError (classifyNNTPError code msg) \<longleftrightarrow> code = 430 \<or> code = 423"
  by (auto simp: IsArticleNotFoundError_def classifyNNTPError_def)

text \<open>A link error has exactly one of the four ways of being handled.\<close>

lemma link_category_one_way:
  "length (filter (\<lambda>b. b) [ShouldRetry c, ShouldRefetch c, ShouldDisableAccount c, link_IsPermanent c]) = 1"
  by (cases c) (simp_all add: ShouldRetry_def ShouldRefetch_def ShouldDisableAccount_def link_IsPermanent_def)

lemma ErrorCodeToLinkError_code:
  "\<exists>c. as_link (ErrorCodeToLinkError code) = Some (c, code)
     \<and> (c = CategoryRetryable \<longleftrightarrow> code = gs ''429'' \<or> code = gs ''503'')"
  by (auto simp: ErrorCodeToLinkError_def gs_def)

text \<open>A cancelled call is silent and is not retried, whatever wraps it, unless the wrapping says more.\<close>

lemma cancelled_is_final:
  "\<not> IsPermanentError e \<Longrightarrow> as_custom e = None \<Longrightarrow> as_nntp e = None \<Longrightarrow> errors_Is e (Sentinel CtxCanceled)
   \<Longrightarrow> \<not> errors_Is e (Sentinel CtxDeadline) \<Longrightarrow> IsSilentError e \<and> \<not> IsRetriableError e"
  by (simp add: IsRetriableError_plain err_chain_unwrap[of e] verdict_def IsSilentError_def)

end
