(* ===== verification/Spec2Isabelle.thy ===== *)
theory Spec2Isabelle
  imports Stream_Reader Fetch_Dedup Job_Queues Retry Vfs_Races Go_Errors
begin

text \<open>
  A verification development for cloudarr, a Go program that presents torrents kept by debrid
  services and files posted to Usenet as one mounted file system. The development models the parts
  of the program that keep its data: the storage engine and the entries stored in it, the caches and
  range bookkeeping between a remote file and a reader, the queues of work and the retry loop.

  \<^bold>\<open>Parts of the program and the theories that model them.\<close>

  \<^item> \<open>pkg/storage/hybrid\<close> is an append-only log with an in-memory index and a value cache.
    \<open>Append_Log\<close> models \<open>log.go\<close> (records at byte level, iteration, old versions), \<open>Store_Index\<close>
    models \<open>index.go\<close> (entries, secondary indexes, the cached listing by offset), \<open>Lru_Cache\<close> models
    \<open>cache.go\<close> (map and doubly linked list), and \<open>Hybrid_Store\<close> models \<open>store.go\<close> (open and recover,
    put, get, delete, iterate, compact, migrate).
  \<^item> \<open>pkg/storage\<close> keeps entries, folder items, the queue of entries and the migration status in five
    such stores. \<open>Entry_Model\<close> models the types with their methods (\<open>types.go\<close>, \<open>misc.go\<close>), \<open>Entry_Proto\<close>
    the conversion to and from protobuf messages (\<open>proto.go\<close>), \<open>Entry_Storage\<close> the operations
    (\<open>storage.go\<close>, \<open>entry.go\<close>, \<open>items.go\<close>).
  \<^item> \<open>pkg/mount/dfs/vfs/ranges/ranges.go\<close>, the byte ranges of a sparse file that are present, is
    modelled by \<open>Ranges\<close>.
  \<^item> \<open>pkg/usenet/fs/reader\<close> serves a file whose bytes are Usenet articles. \<open>Segment_Cache\<close> models
    \<open>cache.go\<close> and the download step of \<open>fetcher.go\<close>.
  \<^item> \<open>internal/retry/retry.go\<close> is modelled by \<open>Retry\<close>.

  \<open>Prelude\<close> has the generic lemmas (64 and 32 bit arithmetic of Go's \<open>int\<close>, byte strings, lists) and
  the collections the proofs share; \<open>Go_Std\<close> what the code uses of Go's standard library (maps with an
  iteration order, times, paths, case conversion); \<open>Contracts\<close> the interfaces between components.
\<close>

end
